(* ===== verification/Prelude.thy ===== *)
theory Prelude imports Main "HOL-Library.Word" "HOL-Library.Monad_Syntax" begin

text \<open>
  Shared vocabulary of the LeoCoin development: the machine types, the return codes of
  \<^verbatim>\<open>include/return_codes.h\<close>, the collections of simplification rules the components
  fill, and generic lemmas on options, lists and words.

  Undefined behaviour of the C program (a NULL or dangling dereference, a double free, an
  access outside an object) and non-termination are the value \<open>None\<close> of an
  \<open>option\<close>; an error \<^emph>\<open>reported\<close> by the program is a value of
  \<open>return_code_t\<close>.  A theorem of the form \<open>f x = Some r\<close> therefore says that
  the C function returns, without undefined behaviour, with result \<open>r\<close>.
\<close>

section \<open>Machine types\<close>

type_synonym byte = "8 word"
type_synonym u16 = "16 word"
type_synonym u32 = "32 word"
type_synonym u64 = "64 word"

text \<open>Addresses of heap objects; \<open>0\<close> is the null pointer.\<close>

type_synonym addr = nat

abbreviation (input) NULL :: addr where
  "NULL \<equiv> 0"

section \<open>Return codes\<close>

datatype return_code_t =
    SUCCESS
  | FAILURE_COULD_NOT_MALLOC
  | FAILURE_INVALID_INPUT
  | FAILURE_LINKED_LIST_EMPTY
  | FAILURE_LINKED_LIST_NO_COMPARE_FUNCTION
  | FAILURE_COULD_NOT_FIND_VALID_PROOF_OF_WORK
  | FAILURE_INVALID_COMMAND_LINE_ARGS
  | FAILURE_OPENSSL_FUNCTION
  | FAILURE_FILE_IO
  | FAILURE_SIGNATURE_TOO_LONG
  | FAILURE_BUFFER_TOO_SMALL
  | FAILURE_INVALID_BLOCKCHAIN
  | FAILURE_PTHREAD_FUNCTION
  | FAILURE_STOPPED_EARLY
  | FAILURE_LONGER_BLOCKCHAIN_DETECTED
  | FAILURE_NETWORK_FUNCTION
  | FAILURE_INVALID_COMMAND_PREFIX
  | FAILURE_INVALID_COMMAND
  | FAILURE_INVALID_COMMAND_LEN
  | FAILURE_SLEEP

text \<open>
  The value of a code, as C numbers the constants of an enumeration, and the order it gives the
  codes.  Callers compare and return codes as these integers.
\<close>

primrec return_code_value :: "return_code_t \<Rightarrow> nat" where
  "return_code_value SUCCESS = 0"
| "return_code_value FAILURE_COULD_NOT_MALLOC = 1"
| "return_code_value FAILURE_INVALID_INPUT = 2"
| "return_code_value FAILURE_LINKED_LIST_EMPTY = 3"
| "return_code_value FAILURE_LINKED_LIST_NO_COMPARE_FUNCTION = 4"
| "return_code_value FAILURE_COULD_NOT_FIND_VALID_PROOF_OF_WORK = 5"
| "return_code_value FAILURE_INVALID_COMMAND_LINE_ARGS = 6"
| "return_code_value FAILURE_OPENSSL_FUNCTION = 7"
| "return_code_value FAILURE_FILE_IO = 8"
| "return_code_value FAILURE_SIGNATURE_TOO_LONG = 9"
| "return_code_value FAILURE_BUFFER_TOO_SMALL = 10"
| "return_code_value FAILURE_INVALID_BLOCKCHAIN = 11"
| "return_code_value FAILURE_PTHREAD_FUNCTION = 12"
| "return_code_value FAILURE_STOPPED_EARLY = 13"
| "return_code_value FAILURE_LONGER_BLOCKCHAIN_DETECTED = 14"
| "return_code_value FAILURE_NETWORK_FUNCTION = 15"
| "return_code_value FAILURE_INVALID_COMMAND_PREFIX = 16"
| "return_code_value FAILURE_INVALID_COMMAND = 17"
| "return_code_value FAILURE_INVALID_COMMAND_LEN = 18"
| "return_code_value FAILURE_SLEEP = 19"

lemma return_code_value_inj: "return_code_value a = return_code_value b \<longleftrightarrow> a = b"
  by (cases a; cases b) simp_all

lemma return_code_value_bound: "return_code_value a < 20"
  by (cases a) simp_all

instantiation return_code_t :: linorder
begin

definition less_eq_return_code_t :: "return_code_t \<Rightarrow> return_code_t \<Rightarrow> bool" where
  "a \<le> b \<longleftrightarrow> return_code_value a \<le> return_code_value b"

definition less_return_code_t :: "return_code_t \<Rightarrow> return_code_t \<Rightarrow> bool" where
  "a < b \<longleftrightarrow> return_code_value a < return_code_value b"

instance
  by standard (auto simp: less_eq_return_code_t_def less_return_code_t_def return_code_value_inj)

end

lemma SUCCESS_least: "SUCCESS \<le> a" "SUCCESS < a \<longleftrightarrow> a \<noteq> SUCCESS"
  by (cases a; simp add: less_eq_return_code_t_def less_return_code_t_def)+

section \<open>Collections of simplification rules\<close>

named_theorems mem_simps \<open>equations of the memory model\<close>
named_theorems codec_simps \<open>equations of encoders, decoders and their lengths\<close>

section \<open>Generic lemmas\<close>

lemma bind_Some_iff:
  "Option.bind m f = Some y \<longleftrightarrow> (\<exists>x. m = Some x \<and> f x = Some y)"
  by (cases m) auto

lemma take_append_exact [simp]: "length xs = n \<Longrightarrow> take n (xs @ ys) = xs"
  by simp

lemma drop_append_exact [simp]: "length xs = n \<Longrightarrow> drop n (xs @ ys) = ys"
  by simp

lemma unat_of_nat_u64 [simp]: "n < 2 ^ 64 \<Longrightarrow> unat (of_nat n :: u64) = n"
  by (simp add: unat_of_nat take_bit_nat_eq_self)

lemma u64_less_of_nat:
  "n < 2 ^ 64 \<Longrightarrow> (w :: u64) < of_nat n \<longleftrightarrow> unat w < n"
  by (simp add: word_less_nat_alt)

lemma restrict_map_disjoint:
  assumes "\<And>a. a \<in> F \<Longrightarrow> m a = None"
  shows "m |` (- F) = m"
  using assms by (auto simp: restrict_map_def fun_eq_iff)

end
