(* ===== verification/Endian.thy ===== *)
theory Endian imports Prelude begin

text \<open>
  Byte order (\<^verbatim>\<open>src/endian.c\<close>) and the memory image of integers.

  The C code writes \<open>*(uint64_t *)p = htobe64(x)\<close>: a conversion to a host integer
  followed by a store in the host's byte order.  Both halves are modelled, with the host's
  byte order as an argument, so the facts below hold on either kind of machine.  The
  interface \<open>wire_codec\<close> states what the serialisers rely on; it is interpreted on
  \<open>htobe64\<close>/\<open>betoh64\<close> and on the library conversions for 16 and 32 bits.
\<close>

unbundle bit_operations_syntax

section \<open>Memory images of words\<close>

datatype endianness = Little | Big

definition le_bytes :: "'a::len word \<Rightarrow> byte list" where
  "le_bytes w = map (\<lambda>i. ucast (drop_bit (8 * i) w)) [0..<LENGTH('a) div 8]"

definition le_word :: "byte list \<Rightarrow> 'a::len word" where
  "le_word bs = foldr (\<lambda>b acc. ucast b OR push_bit 8 acc) bs 0"

definition be_bytes :: "'a::len word \<Rightarrow> byte list" where
  "be_bytes w = rev (le_bytes w)"

definition be_word :: "byte list \<Rightarrow> 'a::len word" where
  "be_word bs = le_word (rev bs)"

text \<open>The bytes an integer object occupies in memory, and the integer they denote.\<close>

definition host_bytes :: "endianness \<Rightarrow> 'a::len word \<Rightarrow> byte list" where
  "host_bytes e w = (case e of Little \<Rightarrow> le_bytes w | Big \<Rightarrow> be_bytes w)"

definition host_word :: "endianness \<Rightarrow> byte list \<Rightarrow> 'a::len word" where
  "host_word e bs = (case e of Little \<Rightarrow> le_word bs | Big \<Rightarrow> be_word bs)"

section \<open>The conversions of endian.c\<close>

definition htobe64 :: "endianness \<Rightarrow> u64 \<Rightarrow> u64" where
  "htobe64 e data = host_word e
     [ucast (drop_bit 56 data),
      ucast (drop_bit 48 data),
      ucast (drop_bit 40 data),
      ucast (drop_bit 32 data),
      ucast (drop_bit 24 data),
      ucast (drop_bit 16 data),
      ucast (drop_bit 8 data),
      ucast (drop_bit 0 data)]"

definition betoh64 :: "endianness \<Rightarrow> u64 \<Rightarrow> u64" where
  "betoh64 e data =
     (let p = host_bytes e data;
          decoded = 0;
          decoded = decoded OR push_bit 56 (ucast (p ! 0));
          decoded = decoded OR push_bit 48 (ucast (p ! 1));
          decoded = decoded OR push_bit 40 (ucast (p ! 2));
          decoded = decoded OR push_bit 32 (ucast (p ! 3));
          decoded = decoded OR push_bit 24 (ucast (p ! 4));
          decoded = decoded OR push_bit 16 (ucast (p ! 5));
          decoded = decoded OR push_bit 8 (ucast (p ! 6));
          decoded = decoded OR push_bit 0 (ucast (p ! 7))
      in decoded)"

text \<open>The socket library's conversions, by their documented effect.\<close>

definition hton :: "endianness \<Rightarrow> 'a::len word \<Rightarrow> 'a word" where
  "hton e x = host_word e (be_bytes x)"

definition ntoh :: "endianness \<Rightarrow> 'a::len word \<Rightarrow> 'a word" where
  "ntoh e x = be_word (host_bytes e x)"

section \<open>Bytes and words determine each other\<close>

lemma length_le_bytes [simp]: "length (le_bytes (w :: 'a::len word)) = LENGTH('a) div 8"
  by (simp add: le_bytes_def)

lemma length_be_bytes [simp]: "length (be_bytes (w :: 'a::len word)) = LENGTH('a) div 8"
  by (simp add: be_bytes_def)

lemma length_host_bytes [simp]: "length (host_bytes e (w :: 'a::len word)) = LENGTH('a) div 8"
  by (simp add: host_bytes_def split: endianness.split)

lemma bit_le_word:
  "bit (le_word bs :: 'a::len word) n \<longleftrightarrow>
     n < LENGTH('a) \<and> n div 8 < length bs \<and> bit (bs ! (n div 8)) (n mod 8)"
proof (induction bs arbitrary: n)
  case Nil
  then show ?case by (simp add: le_word_def)
next
  case (Cons b bs)
  have unfold: "(le_word (b # bs) :: 'a word) = ucast b OR push_bit 8 (le_word bs)"
    by (simp add: le_word_def)
  show ?case
  proof (cases "n < 8")
    case True
    then show ?thesis
      by (auto simp: unfold bit_or_iff bit_ucast_iff bit_push_bit_iff dest: bit_imp_le_length)
  next
    case False
    then have "n div 8 = Suc ((n - 8) div 8)" "n mod 8 = (n - 8) mod 8"
      by (auto simp: div_if mod_if)
    moreover have "\<not> bit b n"
      using False bit_imp_le_length [of b n] by auto
    ultimately show ?thesis
      using False by (auto simp: unfold bit_or_iff bit_ucast_iff bit_push_bit_iff Cons.IH)
  qed
qed

lemma bit_le_bytes:
  "i < LENGTH('a) div 8 \<Longrightarrow> bit (le_bytes (w :: 'a::len word) ! i) k \<longleftrightarrow> k < 8 \<and> bit w (8 * i + k)"
  by (auto simp: le_bytes_def bit_ucast_iff bit_drop_bit_eq dest: bit_imp_le_length)

lemma le_word_le_bytes:
  assumes "8 dvd LENGTH('a::len)"
  shows "le_word (le_bytes (w :: 'a word)) = w"
proof (rule bit_word_eqI)
  fix n assume n: "n < LENGTH('a)"
  then have "n div 8 < LENGTH('a) div 8"
    using assms by (simp add: less_mult_imp_div_less)
  with n show "bit (le_word (le_bytes w) :: 'a word) n = bit w n"
    by (simp add: bit_le_word bit_le_bytes)
qed

lemma le_bytes_le_word:
  assumes "8 dvd LENGTH('a::len)" "length bs = LENGTH('a) div 8"
  shows "le_bytes (le_word bs :: 'a word) = bs"
proof (rule nth_equalityI)
  show "length (le_bytes (le_word bs :: 'a word)) = length bs"
    by (simp add: assms)
next
  fix i assume "i < length (le_bytes (le_word bs :: 'a word))"
  then have i: "i < LENGTH('a) div 8" by simp
  show "le_bytes (le_word bs :: 'a word) ! i = bs ! i"
  proof (rule bit_word_eqI)
    fix k assume "k < LENGTH(8)"
    then have k: "k < 8" by simp
    have "8 * i + k < LENGTH('a)"
      using i k assms(1) by auto
    with i k show "bit (le_bytes (le_word bs :: 'a word) ! i) k = bit (bs ! i) k"
      by (simp add: bit_le_bytes bit_le_word assms(2))
  qed
qed

lemma be_word_be_bytes: "8 dvd LENGTH('a::len) \<Longrightarrow> be_word (be_bytes (w :: 'a word)) = w"
  by (simp add: be_word_def be_bytes_def le_word_le_bytes)

lemma be_bytes_inject:
  "8 dvd LENGTH('a::len) \<Longrightarrow> be_bytes (x :: 'a word) = be_bytes y \<longleftrightarrow> x = y"
  by (metis be_word_be_bytes)

lemma be_bytes_be_word:
  "8 dvd LENGTH('a::len) \<Longrightarrow> length bs = LENGTH('a) div 8 \<Longrightarrow>
   be_bytes (be_word bs :: 'a word) = bs"
  by (simp add: be_word_def be_bytes_def le_bytes_le_word)

lemma host_word_host_bytes:
  "8 dvd LENGTH('a::len) \<Longrightarrow> host_word e (host_bytes e (w :: 'a word)) = w"
  by (simp add: host_word_def host_bytes_def le_word_le_bytes be_word_be_bytes
      split: endianness.split)

lemma host_bytes_host_word:
  "8 dvd LENGTH('a::len) \<Longrightarrow> length bs = LENGTH('a) div 8 \<Longrightarrow>
   host_bytes e (host_word e bs :: 'a word) = bs"
  by (simp add: host_word_def host_bytes_def le_bytes_le_word be_bytes_be_word
      split: endianness.split)

section \<open>The interface of a network byte order conversion\<close>

text \<open>
  What the serialisers need: storing a converted integer leaves its big-endian bytes in
  memory, and loading big-endian bytes and converting back gives the integer.
\<close>

locale wire_codec =
  fixes to_wire :: "endianness \<Rightarrow> 'a::len word \<Rightarrow> 'a word"
    and from_wire :: "endianness \<Rightarrow> 'a word \<Rightarrow> 'a word"
  assumes whole_bytes: "8 dvd LENGTH('a)"
    and store_to_wire: "host_bytes e (to_wire e x) = be_bytes x"
    and load_from_wire:
      "length bs = LENGTH('a) div 8 \<Longrightarrow> from_wire e (host_word e bs) = be_word bs"
begin

lemma from_to: "from_wire e (to_wire e x) = x"
proof -
  have "from_wire e (to_wire e x) = from_wire e (host_word e (host_bytes e (to_wire e x)))"
    by (simp add: host_word_host_bytes whole_bytes)
  also have "\<dots> = x"
    by (simp add: store_to_wire load_from_wire be_word_be_bytes whole_bytes)
  finally show ?thesis .
qed

lemma to_from: "to_wire e (from_wire e x) = x"
proof -
  have "host_bytes e (to_wire e (from_wire e x)) = be_bytes (from_wire e (host_word e (host_bytes e x)))"
    by (simp add: store_to_wire host_word_host_bytes whole_bytes)
  also have "\<dots> = host_bytes e x"
    by (simp add: load_from_wire be_bytes_be_word whole_bytes)
  finally show ?thesis
    by (metis host_word_host_bytes whole_bytes)
qed

text \<open>What one host stores another loads, whatever their byte orders.\<close>

lemma exchange: "from_wire e2 (host_word e2 (host_bytes e1 (to_wire e1 x))) = x"
  by (simp add: store_to_wire load_from_wire be_word_be_bytes whole_bytes)

lemma load_be_bytes: "from_wire e (host_word e (be_bytes x)) = x"
  by (simp add: load_from_wire be_word_be_bytes whole_bytes)

end

lemma upt_0_8: "[0..<8] = [0, 1, 2, 3, 4, 5, 6, 7]"
  by (simp add: upt_conv_Cons)

lemma be_bytes_u64:
  "be_bytes (x :: u64) =
     [ucast (drop_bit 56 x), ucast (drop_bit 48 x), ucast (drop_bit 40 x),
      ucast (drop_bit 32 x), ucast (drop_bit 24 x), ucast (drop_bit 16 x),
      ucast (drop_bit 8 x), ucast (drop_bit 0 x)]"
  by (simp add: be_bytes_def le_bytes_def upt_0_8)

lemma htobe64_eq: "htobe64 e x = host_word e (be_bytes x)"
  by (simp add: htobe64_def be_bytes_u64)

lemma be_word_u64:
  "(be_word [p0, p1, p2, p3, p4, p5, p6, p7] :: u64) =
     push_bit 56 (ucast p0) OR push_bit 48 (ucast p1) OR push_bit 40 (ucast p2)
     OR push_bit 32 (ucast p3) OR push_bit 24 (ucast p4) OR push_bit 16 (ucast p5)
     OR push_bit 8 (ucast p6) OR ucast p7"
  by (simp add: be_word_def le_word_def push_bit_or ac_simps)

lemma nth_list_8:
  assumes "length p = 8"
  shows "p = [p ! 0, p ! 1, p ! 2, p ! 3, p ! 4, p ! 5, p ! 6, p ! 7]"
  using map_nth [of p] by (simp add: assms upt_0_8)

lemma betoh64_eq: "betoh64 e x = be_word (host_bytes e x)"
proof -
  let ?p = "host_bytes e x"
  have "be_word ?p = (be_word [?p ! 0, ?p ! 1, ?p ! 2, ?p ! 3, ?p ! 4, ?p ! 5, ?p ! 6, ?p ! 7] :: u64)"
    by (subst nth_list_8 [of ?p]) simp_all
  then show ?thesis
    by (simp add: betoh64_def be_word_u64 or.assoc Let_def)
qed

interpretation wire64: wire_codec htobe64 betoh64
  by unfold_locales
    (simp_all add: htobe64_eq betoh64_eq host_bytes_host_word)

interpretation wire32: wire_codec "hton :: endianness \<Rightarrow> u32 \<Rightarrow> u32" ntoh
  by unfold_locales (simp_all add: hton_def ntoh_def host_bytes_host_word)

interpretation wire16: wire_codec "hton :: endianness \<Rightarrow> u16 \<Rightarrow> u16" ntoh
  by unfold_locales (simp_all add: hton_def ntoh_def host_bytes_host_word)

lemmas wire_simps [codec_simps] =
  wire64.store_to_wire wire32.store_to_wire wire16.store_to_wire
  wire64.load_be_bytes wire32.load_be_bytes wire16.load_be_bytes

end
