(* ===== verification/C_Memory.thy ===== *)
theory C_Memory imports Endian begin

text \<open>
  The part of the C memory model the program relies on.

  \<^item> The heap is a finite set of live objects at addresses.  \<open>malloc\<close> hands out a
    fresh address or fails; whether the \<open>n\<close>-th request succeeds is given by
    \<open>malloc_ok\<close>, about which nothing is assumed, so every theorem covers every pattern
    of allocation failures.  \<open>free\<close> of a dead address is undefined behaviour
    (\<open>None\<close>), and so is a dereference of one.
  \<^item> Byte buffers are values.  Reads and writes through a moving pointer are reads and
    writes at an offset and fail outside the buffer.  Bytes that \<open>realloc\<close> adds have an
    arbitrary value, the field \<open>junk\<close>.
\<close>

section \<open>Heap\<close>

record 'o cheap =
  store :: "addr \<rightharpoonup> 'o"
  brk :: nat
  malloc_ok :: "nat \<Rightarrow> bool"
  junk :: byte

text \<open>One request to the allocator, and the request for an object with the given contents.\<close>

definition request :: "'o cheap \<Rightarrow> bool \<times> 'o cheap" where
  "request h = (malloc_ok h (brk h), h\<lparr>brk := Suc (brk h)\<rparr>)"

definition malloc :: "'o \<Rightarrow> 'o cheap \<Rightarrow> addr \<times> 'o cheap" where
  "malloc v h =
     (case request h of (ok, h') \<Rightarrow>
        if ok then (brk h', h'\<lparr>store := (store h')(brk h' \<mapsto> v)\<rparr>) else (NULL, h'))"

definition mem_free :: "addr \<Rightarrow> 'o cheap \<Rightarrow> 'o cheap option" where
  "mem_free a h =
     (if a = NULL then Some h
      else if store h a = None then None
      else Some (h\<lparr>store := (store h)(a := None)\<rparr>))"

definition load_obj :: "addr \<Rightarrow> 'o cheap \<Rightarrow> 'o option" where
  "load_obj a h = (if a = NULL then None else store h a)"

definition store_obj :: "addr \<Rightarrow> 'o \<Rightarrow> 'o cheap \<Rightarrow> 'o cheap option" where
  "store_obj a v h =
     (if a = NULL \<or> store h a = None then None
      else Some (h\<lparr>store := (store h)(a \<mapsto> v)\<rparr>))"

text \<open>Live addresses are addresses that were handed out.\<close>

definition heap_ok :: "'o cheap \<Rightarrow> bool" where
  "heap_ok h \<longleftrightarrow> (\<forall>a v. store h a = Some v \<longrightarrow> 0 < a \<and> a \<le> brk h)"

text \<open>The heap without the objects of a footprint.\<close>

definition free_all :: "addr set \<Rightarrow> 'o cheap \<Rightarrow> 'o cheap" where
  "free_all F h = h\<lparr>store := store h |` (- F)\<rparr>"

text \<open>Two heaps agree outside a footprint (and run on the same allocator).\<close>

definition same_except :: "addr set \<Rightarrow> 'o cheap \<Rightarrow> 'o cheap \<Rightarrow> bool" where
  "same_except F h h' \<longleftrightarrow>
     (\<forall>a. a \<notin> F \<longrightarrow> store h' a = store h a) \<and> brk h \<le> brk h' \<and>
     malloc_ok h' = malloc_ok h \<and> junk h' = junk h"

section \<open>Buffers\<close>

text \<open>No object is larger than \<open>PTRDIFF_MAX\<close> bytes; larger requests are refused.\<close>

abbreviation (input) PTRDIFF_MAX :: nat where
  "PTRDIFF_MAX \<equiv> 2 ^ 63 - 1"

definition calloc_buf :: "nat \<Rightarrow> 'o cheap \<Rightarrow> byte list option \<times> 'o cheap" where
  "calloc_buf n h =
     (case request h of (ok, h') \<Rightarrow>
        (if ok \<and> n \<le> PTRDIFF_MAX then Some (replicate n 0) else None, h'))"

definition realloc_buf :: "byte list \<Rightarrow> nat \<Rightarrow> 'o cheap \<Rightarrow> byte list option \<times> 'o cheap" where
  "realloc_buf buf n h =
     (case request h of (ok, h') \<Rightarrow>
        (if ok \<and> n \<le> PTRDIFF_MAX
         then Some (take n buf @ replicate (n - length buf) (junk h)) else None, h'))"

definition store_bytes :: "byte list \<Rightarrow> nat \<Rightarrow> byte list \<Rightarrow> byte list option" where
  "store_bytes buf off bs =
     (if off + length bs \<le> length buf
      then Some (take off buf @ bs @ drop (off + length bs) buf) else None)"

definition load_bytes :: "byte list \<Rightarrow> nat \<Rightarrow> nat \<Rightarrow> byte list option" where
  "load_bytes buf off n =
     (if off + n \<le> length buf then Some (take n (drop off buf)) else None)"

text \<open>\<open>*(uintN_t *)p = w\<close> and \<open>*(uintN_t *)p\<close>.\<close>

definition store_word :: "endianness \<Rightarrow> byte list \<Rightarrow> nat \<Rightarrow> 'a::len word \<Rightarrow> byte list option" where
  "store_word e buf off w = store_bytes buf off (host_bytes e w)"

definition load_word :: "endianness \<Rightarrow> byte list \<Rightarrow> nat \<Rightarrow> 'a::len word option" where
  "load_word e buf off =
     map_option (host_word e) (load_bytes buf off (LENGTH('a) div 8))"

text \<open>
  The byte loops \<open>for (idx ...) { *next = src[idx]; next++; }\<close> and
  \<open>for (idx ...) { dst[idx] = *next; next++; }\<close>; both give the final position.
\<close>

fun store_loop :: "byte list \<Rightarrow> nat \<Rightarrow> byte list \<Rightarrow> (byte list \<times> nat) option" where
  "store_loop buf off [] = Some (buf, off)"
| "store_loop buf off (b # bs) =
     (case store_bytes buf off [b] of None \<Rightarrow> None
      | Some buf' \<Rightarrow> store_loop buf' (Suc off) bs)"

fun load_loop :: "byte list \<Rightarrow> nat \<Rightarrow> nat \<Rightarrow> (byte list \<times> nat) option" where
  "load_loop buf off 0 = Some ([], off)"
| "load_loop buf off (Suc n) =
     (if off < length buf
      then (case load_loop buf (Suc off) n of None \<Rightarrow> None
            | Some (bs, off') \<Rightarrow> Some (buf ! off # bs, off'))
      else None)"

text \<open>\<open>memcmp(a, b, n) == 0\<close>; both objects must have \<open>n\<close> bytes.\<close>

definition memcmp_eq :: "byte list \<Rightarrow> byte list \<Rightarrow> nat \<Rightarrow> bool option" where
  "memcmp_eq a b n =
     (if n \<le> length a \<and> n \<le> length b then Some (take n a = take n b) else None)"

text \<open>\<open>memcmp(a, b, n)\<close>: the sign of the first difference.\<close>

fun first_difference :: "byte list \<Rightarrow> byte list \<Rightarrow> int" where
  "first_difference (x # xs) (y # ys) =
     (if x < y then - 1 else if y < x then 1 else first_difference xs ys)"
| "first_difference _ _ = 0"

definition memcmp :: "byte list \<Rightarrow> byte list \<Rightarrow> nat \<Rightarrow> int option" where
  "memcmp a b n =
     (if n \<le> length a \<and> n \<le> length b then Some (first_difference (take n a) (take n b)) else None)"

section \<open>Heap lemmas\<close>

lemma request_simps [mem_simps]:
  "fst (request h) = malloc_ok h (brk h)"
  "snd (request h) = h\<lparr>brk := Suc (brk h)\<rparr>"
  by (simp_all add: request_def)

lemma malloc_eq [mem_simps]:
  "malloc v h =
     (if malloc_ok h (brk h)
      then (Suc (brk h), h\<lparr>brk := Suc (brk h), store := (store h)(Suc (brk h) \<mapsto> v)\<rparr>)
      else (NULL, h\<lparr>brk := Suc (brk h)\<rparr>))"
  by (simp add: malloc_def request_def)

lemma heap_ok_fresh: "heap_ok h \<Longrightarrow> store h (Suc (brk h)) = None"
  by (rule ccontr) (fastforce simp: heap_ok_def)

lemma heap_ok_NULL: "heap_ok h \<Longrightarrow> store h NULL = None"
  by (rule ccontr) (fastforce simp: heap_ok_def)

lemma heap_ok_brk [intro]: "heap_ok h \<Longrightarrow> heap_ok (h\<lparr>brk := Suc (brk h)\<rparr>)"
  by (auto simp: heap_ok_def intro: le_SucI)

lemma heap_ok_alloc [intro]:
  "heap_ok h \<Longrightarrow> heap_ok (h\<lparr>brk := Suc (brk h), store := (store h)(Suc (brk h) \<mapsto> v)\<rparr>)"
  by (auto simp: heap_ok_def intro: le_SucI)

lemma heap_ok_update:
  "heap_ok h \<Longrightarrow> store h a = Some w \<Longrightarrow> heap_ok (h\<lparr>store := (store h)(a \<mapsto> v)\<rparr>)"
  by (auto simp: heap_ok_def)

lemma heap_ok_free_all [intro]: "heap_ok h \<Longrightarrow> heap_ok (free_all F h)"
  by (auto simp: heap_ok_def free_all_def restrict_map_def split: if_splits)

lemma mem_free_eq:
  "a \<noteq> NULL \<Longrightarrow> store h a = Some v \<Longrightarrow> mem_free a h = Some (free_all {a} h)"
  by (simp add: mem_free_def free_all_def restrict_map_def fun_upd_def fun_eq_iff)

lemma free_all_empty [simp]: "free_all {} h = h"
  by (simp add: free_all_def restrict_map_def)

lemma free_all_free_all [simp]: "free_all A (free_all B h) = free_all (A \<union> B) h"
  by (auto simp: free_all_def restrict_map_def fun_eq_iff)

lemma free_all_sel [simp]:
  "brk (free_all F h) = brk h"
  "malloc_ok (free_all F h) = malloc_ok h"
  "junk (free_all F h) = junk h"
  "a \<notin> F \<Longrightarrow> store (free_all F h) a = store h a"
  "a \<in> F \<Longrightarrow> store (free_all F h) a = None"
  by (simp_all add: free_all_def)

lemma free_all_store: "store (free_all F h) = store h |` (- F)"
  by (simp add: free_all_def)

lemma cheap_eqI:
  assumes "\<And>a. store (h :: 'o cheap) a = store h' a" "brk h = brk h'"
    "malloc_ok h = malloc_ok h'" "junk h = junk h'"
  shows "h = h'"
  using assms by (auto simp: fun_eq_iff intro: cheap.equality)

lemma same_except_refl [intro, simp]: "same_except F h h"
  by (simp add: same_except_def)

lemma same_except_trans:
  "same_except F h h' \<Longrightarrow> same_except G h' h'' \<Longrightarrow> same_except (F \<union> G) h h''"
  by (auto simp: same_except_def)

lemma same_except_mono: "same_except F h h' \<Longrightarrow> F \<subseteq> G \<Longrightarrow> same_except G h h'"
  by (auto simp: same_except_def)

lemma same_except_store: "same_except F h h' \<Longrightarrow> a \<notin> F \<Longrightarrow> store h' a = store h a"
  by (simp add: same_except_def)

lemma same_except_apart:
  "same_except F h h' \<Longrightarrow> F \<inter> G = {} \<Longrightarrow> a \<in> G \<Longrightarrow> store h' a = store h a"
  by (rule same_except_store) auto

lemma same_except_free_all:
  assumes "same_except F h h'" "\<And>a. a \<in> F \<Longrightarrow> store h a = None"
  shows "store (free_all F h') = store h"
  using assms by (auto simp: same_except_def free_all_def restrict_map_def fun_eq_iff)

section \<open>Buffer lemmas\<close>

lemma first_difference_0:
  "length a = length b \<Longrightarrow> first_difference a b = 0 \<longleftrightarrow> a = b"
  by (induction a b rule: first_difference.induct) auto

lemma memcmp_eq_memcmp: "memcmp_eq a b n = map_option (\<lambda>k. k = 0) (memcmp a b n)"
  by (simp add: memcmp_eq_def memcmp_def first_difference_0)

lemma store_bytes_length: "store_bytes buf off bs = Some buf' \<Longrightarrow> length buf' = length buf"
  by (auto simp: store_bytes_def split: if_splits)

lemma store_bytes_app [codec_simps]:
  "length mid = length bs \<Longrightarrow> store_bytes (pre @ mid @ post) (length pre) bs = Some (pre @ bs @ post)"
  by (simp add: store_bytes_def)

lemma load_bytes_app [codec_simps]:
  "length mid = n \<Longrightarrow> load_bytes (pre @ mid @ post) (length pre) n = Some mid"
  by (simp add: load_bytes_def)

text \<open>
  Writing field after field into a buffer: the part written so far, then what is left of the
  fresh part \<open>R\<close>.
\<close>

lemma store_bytes_next:
  "off = length pre \<Longrightarrow> k + length bs \<le> length R \<Longrightarrow>
   store_bytes (pre @ drop k R) off bs = Some ((pre @ bs) @ drop (k + length bs) R)"
  by (simp add: store_bytes_def add.commute)

lemma store_bytes_split:
  "store_bytes buf off (as @ bs) =
     Option.bind (store_bytes buf off as) (\<lambda>buf'. store_bytes buf' (off + length as) bs)"
proof (cases "off + length as \<le> length buf")
  case True
  then show ?thesis
    by (auto simp: store_bytes_def ac_simps)
next
  case False
  then show ?thesis by (simp add: store_bytes_def)
qed

lemma store_bytes_Cons:
  "store_bytes buf off (b # bs) =
     Option.bind (store_bytes buf off [b]) (\<lambda>buf'. store_bytes buf' (Suc off) bs)"
  using store_bytes_split [of buf off "[b]" bs] by simp

lemma store_loop_eq:
  "off + length bs \<le> length buf \<Longrightarrow>
   store_loop buf off bs = map_option (\<lambda>buf'. (buf', off + length bs)) (store_bytes buf off bs)"
proof (induction bs arbitrary: buf off)
  case Nil
  then show ?case by (simp add: store_bytes_def)
next
  case (Cons b bs)
  then obtain buf' where buf': "store_bytes buf off [b] = Some buf'"
    by (simp add: store_bytes_def)
  then have "length buf' = length buf" by (rule store_bytes_length)
  with Cons.prems have "Suc off + length bs \<le> length buf'" by simp
  from Cons.IH [OF this] buf' show ?case
    by (simp add: store_bytes_Cons [of buf off b bs])
qed

lemma store_loop_app [codec_simps]:
  "length mid = length bs \<Longrightarrow>
   store_loop (pre @ mid @ post) (length pre) bs = Some (pre @ bs @ post, length pre + length bs)"
  by (simp add: store_loop_eq store_bytes_app)

lemma store_loop_next:
  "off = length pre \<Longrightarrow> k + length bs \<le> length R \<Longrightarrow>
   store_loop (pre @ drop k R) off bs =
     Some ((pre @ bs) @ drop (k + length bs) R, off + length bs)"
  by (simp add: store_loop_eq store_bytes_next)

lemma load_loop_eq:
  "off \<le> length buf \<Longrightarrow>
   load_loop buf off n = map_option (\<lambda>bs. (bs, off + n)) (load_bytes buf off n)"
proof (induction n arbitrary: off)
  case 0
  then show ?case by (simp add: load_bytes_def)
next
  case (Suc n)
  show ?case
  proof (cases "off < length buf")
    case True
    then have "take (Suc n) (drop off buf) = buf ! off # take n (drop (Suc off) buf)"
      by (simp add: Cons_nth_drop_Suc [symmetric])
    with True Suc.IH [of "Suc off"] show ?thesis
      by (simp add: load_bytes_def)
  next
    case False
    then show ?thesis by (simp add: load_bytes_def)
  qed
qed

lemma load_loop_app [codec_simps]:
  "length mid = n \<Longrightarrow> load_loop (pre @ mid @ post) (length pre) n = Some (mid, length pre + n)"
  by (simp add: load_loop_eq load_bytes_app)

lemma load_bytes_None: "load_bytes buf off n = None \<longleftrightarrow> length buf < off + n"
  by (auto simp: load_bytes_def)

lemma load_bytes_length: "load_bytes buf off n = Some bs \<Longrightarrow> length bs = n"
  by (auto simp: load_bytes_def split: if_splits)

lemma realloc_grow [mem_simps]:
  "length buf \<le> n \<Longrightarrow> n < 2 ^ 63 \<Longrightarrow> realloc_buf buf n h =
     (if malloc_ok h (brk h) then Some (buf @ replicate (n - length buf) (junk h)) else None,
      h\<lparr>brk := Suc (brk h)\<rparr>)"
  by (simp add: realloc_buf_def request_def)

lemma calloc_buf_eq [mem_simps]:
  "n < 2 ^ 63 \<Longrightarrow> calloc_buf n h =
     (if malloc_ok h (brk h) then Some (replicate n 0) else None, h\<lparr>brk := Suc (brk h)\<rparr>)"
  by (simp add: calloc_buf_def request_def)

lemma same_except_empty_trans: "same_except {} h h1 \<Longrightarrow> same_except {} h1 h2 \<Longrightarrow> same_except {} h h2"
  using same_except_trans [of "{}" h h1 "{}" h2] by simp

lemma realloc_buf_frame: "realloc_buf buf n h = (r, h') \<Longrightarrow> same_except {} h h'"
  by (auto simp: realloc_buf_def request_def same_except_def split: if_splits)

lemma calloc_buf_frame: "calloc_buf n h = (r, h') \<Longrightarrow> same_except {} h h'"
  by (auto simp: calloc_buf_def request_def same_except_def split: if_splits)

lemma load_loop_length: "load_loop buf off n = Some (bs, off') \<Longrightarrow> length bs = n"
  by (induction n arbitrary: bs off) (auto split: if_splits option.splits)

lemma heap_ok_same: "heap_ok h \<Longrightarrow> same_except {} h h' \<Longrightarrow> heap_ok h'"
  unfolding heap_ok_def same_except_def by (metis empty_iff order_trans)

lemma same_except_free_all_mono:
  "same_except {} h h' \<Longrightarrow> same_except {} (free_all K h) (free_all K h')"
  by (auto simp: same_except_def free_all_def restrict_map_def)

end
