(* ===== verification/Linked_List.thy ===== *)
theory Linked_List imports C_Memory begin

text \<open>
  The generic linked list of \<^verbatim>\<open>src/linked_list.c\<close>, on the heap.

  A list object holds a free function, an optional compare function and the address of its
  first node; a node holds the address of its data and of the next node.  The functions
  stored in a list are named by the datatypes \<open>free_function_t\<close> and
  \<open>compare_function_t\<close> (one constructor per function the program stores there); the
  operations that call them take their meaning as an argument, as the C code calls through
  the pointer.  A pointer argument \<open>T **out\<close> is a flag that says whether it is
  non-NULL; what was written through it is an \<open>option\<close> of the result.

  The abstract view is a HOL list.  \<open>own_ll own f c h l F vs\<close> says that the list at
  \<open>l\<close> holds the values \<open>vs\<close> and owns exactly the addresses \<open>F\<close>, given
  what it means for a data pointer to hold a value (\<open>own\<close>).  The locale \<open>owned\<close>
  states what is needed of \<open>own\<close>; \<open>owned_free\<close> adds the contract of the free
  function.
\<close>

section \<open>Data\<close>

record node_t =
  node_data :: addr
  node_next :: addr

datatype free_function_t = FREE | TRANSACTION_DESTROY | BLOCK_DESTROY

datatype compare_function_t = COMPARE_PEER_INFO

record linked_list_t =
  free_function :: free_function_t
  compare_function :: "compare_function_t option"
  head :: addr

datatype 'd obj = NodeObj node_t | ListObj linked_list_t | DataObj 'd

type_synonym 'd mem = "'d obj cheap"
type_synonym 'd free_call = "free_function_t \<Rightarrow> addr \<Rightarrow> 'd mem \<Rightarrow> 'd mem option"
type_synonym 'd compare_call =
  "compare_function_t \<Rightarrow> addr \<Rightarrow> addr \<Rightarrow> 'd mem \<Rightarrow> int option"

definition load_node :: "addr \<Rightarrow> 'd mem \<Rightarrow> node_t option" where
  "load_node a h = (case load_obj a h of Some (NodeObj n) \<Rightarrow> Some n | _ \<Rightarrow> None)"

definition load_list :: "addr \<Rightarrow> 'd mem \<Rightarrow> linked_list_t option" where
  "load_list a h = (case load_obj a h of Some (ListObj l) \<Rightarrow> Some l | _ \<Rightarrow> None)"

definition load_data :: "addr \<Rightarrow> 'd mem \<Rightarrow> 'd option" where
  "load_data a h = (case load_obj a h of Some (DataObj d) \<Rightarrow> Some d | _ \<Rightarrow> None)"

text \<open>A pointer variable, initially NULL, after a call that may fill it.\<close>

definition out_ptr :: "addr option \<Rightarrow> addr" where
  "out_ptr p = (case p of None \<Rightarrow> NULL | Some a \<Rightarrow> a)"

section \<open>Operations\<close>

definition linked_list_create ::
  "bool \<Rightarrow> free_function_t option \<Rightarrow> compare_function_t option \<Rightarrow> 'd mem \<Rightarrow>
   return_code_t \<times> addr option \<times> 'd mem" where
  "linked_list_create out ff cf h =
     (case ff of
        None \<Rightarrow> (FAILURE_INVALID_INPUT, None, h)
      | Some f \<Rightarrow>
          if \<not> out then (FAILURE_INVALID_INPUT, None, h)
          else (case malloc (ListObj \<lparr>free_function = f, compare_function = cf, head = NULL\<rparr>) h of
                  (list, h) \<Rightarrow>
                    if list = NULL then (FAILURE_COULD_NOT_MALLOC, None, h)
                    else (SUCCESS, Some list, h)))"

definition linked_list_is_empty ::
  "addr \<Rightarrow> bool \<Rightarrow> 'd mem \<Rightarrow> (return_code_t \<times> bool option) option" where
  "linked_list_is_empty ll out h =
     (if ll = NULL \<or> \<not> out then Some (FAILURE_INVALID_INPUT, None)
      else do {
        l \<leftarrow> load_list ll h;
        Some (SUCCESS, Some (head l = NULL))
      })"

definition linked_list_prepend ::
  "addr \<Rightarrow> addr \<Rightarrow> 'd mem \<Rightarrow> (return_code_t \<times> 'd mem) option" where
  "linked_list_prepend ll data h =
     (if ll = NULL \<or> data = NULL then Some (FAILURE_INVALID_INPUT, h)
      else (case malloc (NodeObj \<lparr>node_data = data, node_next = NULL\<rparr>) h of
         (node, h) \<Rightarrow>
           if node = NULL then Some (FAILURE_COULD_NOT_MALLOC, h)
           else do {
             l \<leftarrow> load_list ll h;
             h \<leftarrow> store_obj node (NodeObj \<lparr>node_data = data, node_next = head l\<rparr>) h;
             h \<leftarrow> store_obj ll (ListObj (l\<lparr>head := node\<rparr>)) h;
             Some (SUCCESS, h)
           }))"

definition linked_list_get_first ::
  "addr \<Rightarrow> bool \<Rightarrow> 'd mem \<Rightarrow> (return_code_t \<times> addr option) option" where
  "linked_list_get_first ll out h =
     (if ll = NULL \<or> \<not> out then Some (FAILURE_INVALID_INPUT, None)
      else do {
        (return_code, is_empty) \<leftarrow> linked_list_is_empty ll True h;
        if return_code \<noteq> SUCCESS then Some (return_code, None)
        else if is_empty = Some True then Some (FAILURE_LINKED_LIST_EMPTY, None)
        else do {
          l \<leftarrow> load_list ll h;
          Some (SUCCESS, Some (head l))
        }
      })"

definition linked_list_remove_first ::
  "'d free_call \<Rightarrow> addr \<Rightarrow> 'd mem \<Rightarrow> (return_code_t \<times> 'd mem) option" where
  "linked_list_remove_first callf ll h =
     (if ll = NULL then Some (FAILURE_INVALID_INPUT, h)
      else do {
        (return_code, first) \<leftarrow> linked_list_get_first ll True h;
        if return_code \<noteq> SUCCESS then Some (return_code, h)
        else do {
          l \<leftarrow> load_list ll h;
          n \<leftarrow> load_node (out_ptr first) h;
          h \<leftarrow> store_obj ll (ListObj (l\<lparr>head := node_next n\<rparr>)) h;
          h \<leftarrow> callf (free_function l) (node_data n) h;
          h \<leftarrow> mem_free (out_ptr first) h;
          Some (SUCCESS, h)
        }
      })"

partial_function (option) linked_list_destroy_loop ::
  "'d free_call \<Rightarrow> addr \<Rightarrow> bool \<Rightarrow> 'd mem \<Rightarrow> (return_code_t \<times> 'd mem) option" where
  "linked_list_destroy_loop callf ll is_empty h =
     (if is_empty then Some (SUCCESS, h)
      else do {
        (return_code, h) \<leftarrow> linked_list_remove_first callf ll h;
        if return_code \<noteq> SUCCESS then Some (return_code, h)
        else do {
          (return_code, e) \<leftarrow> linked_list_is_empty ll True h;
          if return_code \<noteq> SUCCESS then Some (return_code, h)
          else linked_list_destroy_loop callf ll (e = Some True) h
        }
      })"

definition linked_list_destroy ::
  "'d free_call \<Rightarrow> addr \<Rightarrow> 'd mem \<Rightarrow> (return_code_t \<times> 'd mem) option" where
  "linked_list_destroy callf ll h =
     (if ll = NULL then Some (FAILURE_INVALID_INPUT, h)
      else do {
        (return_code, e) \<leftarrow> linked_list_is_empty ll True h;
        if return_code \<noteq> SUCCESS then Some (return_code, h)
        else do {
          (return_code, h) \<leftarrow> linked_list_destroy_loop callf ll (e = Some True) h;
          if return_code \<noteq> SUCCESS then Some (return_code, h)
          else do {
            h \<leftarrow> mem_free ll h;
            Some (return_code, h)
          }
        }
      })"

partial_function (option) linked_list_find_loop ::
  "'d compare_call \<Rightarrow> compare_function_t \<Rightarrow> addr \<Rightarrow> addr \<Rightarrow> 'd mem \<Rightarrow> addr option option" where
  "linked_list_find_loop callc cf data ptr h =
     (if ptr = NULL then Some None
      else do {
        n \<leftarrow> load_node ptr h;
        c \<leftarrow> callc cf data (node_data n) h;
        if c = 0 then Some (Some ptr)
        else linked_list_find_loop callc cf data (node_next n) h
      })"

definition linked_list_find ::
  "'d compare_call \<Rightarrow> addr \<Rightarrow> addr \<Rightarrow> bool \<Rightarrow> 'd mem \<Rightarrow> (return_code_t \<times> addr option) option" where
  "linked_list_find callc ll data out h =
     (if ll = NULL \<or> data = NULL \<or> \<not> out then Some (FAILURE_INVALID_INPUT, None)
      else do {
        l \<leftarrow> load_list ll h;
        (case compare_function l of
           None \<Rightarrow> Some (FAILURE_LINKED_LIST_NO_COMPARE_FUNCTION, None)
         | Some cf \<Rightarrow> do {
             node \<leftarrow> linked_list_find_loop callc cf data (head l) h;
             Some (SUCCESS, node)
           })
      })"

partial_function (option) linked_list_get_last_loop :: "addr \<Rightarrow> 'd mem \<Rightarrow> addr option" where
  "linked_list_get_last_loop ptr h =
     do {
       n \<leftarrow> load_node ptr h;
       if node_next n \<noteq> NULL then linked_list_get_last_loop (node_next n) h
       else Some ptr
     }"

definition linked_list_get_last ::
  "addr \<Rightarrow> bool \<Rightarrow> 'd mem \<Rightarrow> (return_code_t \<times> addr option) option" where
  "linked_list_get_last ll out h =
     (if ll = NULL \<or> \<not> out then Some (FAILURE_INVALID_INPUT, None)
      else do {
        (return_code, is_empty) \<leftarrow> linked_list_is_empty ll True h;
        if return_code \<noteq> SUCCESS then Some (return_code, None)
        else if is_empty = Some True then Some (FAILURE_LINKED_LIST_EMPTY, None)
        else do {
          l \<leftarrow> load_list ll h;
          ptr \<leftarrow> linked_list_get_last_loop (head l) h;
          Some (SUCCESS, Some ptr)
        }
      })"

definition linked_list_append ::
  "addr \<Rightarrow> addr \<Rightarrow> 'd mem \<Rightarrow> (return_code_t \<times> 'd mem) option" where
  "linked_list_append ll data h =
     (if ll = NULL \<or> data = NULL then Some (FAILURE_INVALID_INPUT, h)
      else do {
        (return_code, is_empty) \<leftarrow> linked_list_is_empty ll True h;
        if return_code \<noteq> SUCCESS then Some (return_code, h)
        else if is_empty = Some True then linked_list_prepend ll data h
        else do {
          (return_code, last) \<leftarrow> linked_list_get_last ll True h;
          if return_code \<noteq> SUCCESS then Some (return_code, h)
          else (case malloc (NodeObj \<lparr>node_data = data, node_next = NULL\<rparr>) h of
             (node, h) \<Rightarrow>
               if node = NULL then Some (FAILURE_COULD_NOT_MALLOC, h)
               else do {
                 n \<leftarrow> load_node (out_ptr last) h;
                 h \<leftarrow> store_obj (out_ptr last) (NodeObj (n\<lparr>node_next := node\<rparr>)) h;
                 Some (SUCCESS, h)
               })
        }
      })"

partial_function (option) linked_list_length_loop ::
  "addr \<Rightarrow> u64 \<Rightarrow> 'd mem \<Rightarrow> u64 option" where
  "linked_list_length_loop node result h =
     (if node = NULL then Some result
      else do {
        n \<leftarrow> load_node node h;
        linked_list_length_loop (node_next n) (result + 1) h
      })"

definition linked_list_length ::
  "addr \<Rightarrow> bool \<Rightarrow> 'd mem \<Rightarrow> (return_code_t \<times> u64 option) option" where
  "linked_list_length ll out h =
     (if ll = NULL \<or> \<not> out then Some (FAILURE_INVALID_INPUT, None)
      else do {
        l \<leftarrow> load_list ll h;
        result \<leftarrow> linked_list_length_loop (head l) 0 h;
        Some (SUCCESS, Some result)
      })"

section \<open>Abstraction\<close>

text \<open>The nodes from \<open>p\<close> up to (and without) the node \<open>r\<close> hold the values \<open>vs\<close>.\<close>

fun own_seg ::
  "('d mem \<Rightarrow> addr \<Rightarrow> addr set \<Rightarrow> 'v \<Rightarrow> bool) \<Rightarrow> 'd mem \<Rightarrow> addr \<Rightarrow> addr set \<Rightarrow> 'v list \<Rightarrow> addr \<Rightarrow> bool" where
  "own_seg own h p F [] r \<longleftrightarrow> p = r \<and> F = {}"
| "own_seg own h p F (v # vs) r \<longleftrightarrow>
     (\<exists>d q G H. p \<noteq> NULL \<and> store h p = Some (NodeObj \<lparr>node_data = d, node_next = q\<rparr>) \<and>
        own h d G v \<and> own_seg own h q H vs r \<and>
        p \<notin> G \<and> p \<notin> H \<and> G \<inter> H = {} \<and> F = insert p (G \<union> H))"

definition own_ll ::
  "('d mem \<Rightarrow> addr \<Rightarrow> addr set \<Rightarrow> 'v \<Rightarrow> bool) \<Rightarrow> free_function_t \<Rightarrow> compare_function_t option \<Rightarrow>
   'd mem \<Rightarrow> addr \<Rightarrow> addr set \<Rightarrow> 'v list \<Rightarrow> bool" where
  "own_ll own f c h l F vs \<longleftrightarrow>
     (\<exists>p G. l \<noteq> NULL \<and>
        store h l = Some (ListObj \<lparr>free_function = f, compare_function = c, head = p\<rparr>) \<and>
        own_seg own h p G vs NULL \<and> l \<notin> G \<and> F = insert l G)"

text \<open>The result of a search: no node, or an owned node that holds the value.\<close>

definition found ::
  "('d mem \<Rightarrow> addr \<Rightarrow> addr set \<Rightarrow> 'v \<Rightarrow> bool) \<Rightarrow> 'd mem \<Rightarrow> addr set \<Rightarrow> 'v option \<Rightarrow> addr option \<Rightarrow> bool" where
  "found own h F v r =
     (case v of None \<Rightarrow> r = None
      | Some v \<Rightarrow> \<exists>q n G. r = Some q \<and> q \<in> F \<and> G \<subseteq> F \<and> load_node q h = Some n \<and>
                      own h (node_data n) G v)"

text \<open>Data pointers as plain values: a list that does not own what its nodes point to.\<close>

definition own_ptr :: "'d mem \<Rightarrow> addr \<Rightarrow> addr set \<Rightarrow> addr \<Rightarrow> bool" where
  "own_ptr h d F v \<longleftrightarrow> d \<noteq> NULL \<and> F = {} \<and> v = d"

lemma linked_list_prepend_eq:
  assumes "l \<noteq> NULL" "d \<noteq> NULL" "store h l = Some (ListObj lo)" "heap_ok h" "malloc_ok h (brk h)"
  shows "linked_list_prepend l d h =
    Some (SUCCESS, h\<lparr>brk := Suc (brk h), store := (store h)(Suc (brk h) \<mapsto> NodeObj \<lparr>node_data = d, node_next = head lo\<rparr>,
      l \<mapsto> ListObj (lo\<lparr>head := Suc (brk h)\<rparr>))\<rparr>)"
proof -
  have "l \<noteq> Suc (brk h)" using assms(3) heap_ok_fresh [OF assms(4)] by auto
  with assms show ?thesis
    by (simp add: linked_list_prepend_def malloc_eq load_list_def load_obj_def store_obj_def)
qed

section \<open>Lists of owned data\<close>

text \<open>
  The interface to the data: ownership depends only on the owned addresses, which are live,
  and a data pointer is never NULL.
\<close>

locale owned =
  fixes own :: "'d mem \<Rightarrow> addr \<Rightarrow> addr set \<Rightarrow> 'v \<Rightarrow> bool"
  assumes own_frame:
      "own h d F v \<Longrightarrow> (\<And>a. a \<in> F \<Longrightarrow> store h' a = store h a) \<Longrightarrow> own h' d F v"
    and own_live: "own h d F v \<Longrightarrow> a \<in> F \<Longrightarrow> store h a \<noteq> None"
    and own_NULL: "own h d F v \<Longrightarrow> d \<noteq> NULL"
begin

lemma seg_ConsI:
  "p \<noteq> NULL \<Longrightarrow> store h p = Some (NodeObj \<lparr>node_data = d, node_next = q\<rparr>) \<Longrightarrow>
   own h d G v \<Longrightarrow> own_seg own h q H vs r \<Longrightarrow> p \<notin> G \<Longrightarrow> p \<notin> H \<Longrightarrow> G \<inter> H = {} \<Longrightarrow>
   F = insert p (G \<union> H) \<Longrightarrow> own_seg own h p F (v # vs) r"
  by (simp only: own_seg.simps) blast

lemma seg_ConsE:
  assumes "own_seg own h p F (v # vs) r"
  obtains d q G H where "p \<noteq> NULL" "load_node p h = Some \<lparr>node_data = d, node_next = q\<rparr>"
    "store h p = Some (NodeObj \<lparr>node_data = d, node_next = q\<rparr>)"
    "own h d G v" "own_seg own h q H vs r" "p \<notin> G" "p \<notin> H" "G \<inter> H = {}"
    "F = insert p (G \<union> H)" "d \<noteq> NULL"
  using assms own_NULL by (auto simp: load_node_def load_obj_def)

declare own_seg.simps(2) [simp del]

lemma seg_frame:
  "own_seg own h p F vs r \<Longrightarrow> (\<And>a. a \<in> F \<Longrightarrow> store h' a = store h a) \<Longrightarrow>
   own_seg own h' p F vs r"
proof (induction vs arbitrary: p F)
  case Nil
  then show ?case by simp
next
  case (Cons v vs)
  from Cons.prems(1) show ?case
  proof (rule seg_ConsE)
    fix d q G H
    assume *: "p \<noteq> NULL" "store h p = Some (NodeObj \<lparr>node_data = d, node_next = q\<rparr>)"
      "own h d G v" "own_seg own h q H vs r" "p \<notin> G" "p \<notin> H" "G \<inter> H = {}" "F = insert p (G \<union> H)"
    have "own h' d G v" using *(3,8) Cons.prems(2) by (auto intro: own_frame)
    moreover have "own_seg own h' q H vs r" using *(4,8) Cons.prems(2) by (auto intro: Cons.IH)
    ultimately show ?thesis
      using * Cons.prems(2) by (intro seg_ConsI [where d = d and q = q and G = G and H = H]) auto
  qed
qed

lemma seg_live: "own_seg own h p F vs r \<Longrightarrow> a \<in> F \<Longrightarrow> store h a \<noteq> None"
proof (induction vs arbitrary: p F)
  case Nil
  then show ?case by simp
next
  case (Cons v vs)
  from Cons.prems(1) show ?case
    by (rule seg_ConsE) (use Cons.prems(2) Cons.IH own_live in blast)
qed

lemma seg_appendI:
  "own_seg own h p G vs q \<Longrightarrow> own_seg own h q H ws r \<Longrightarrow> G \<inter> H = {} \<Longrightarrow>
   own_seg own h p (G \<union> H) (vs @ ws) r"
proof (induction vs arbitrary: p G)
  case Nil
  then show ?case by simp
next
  case (Cons v vs)
  from Cons.prems(1) show ?case
  proof (rule seg_ConsE)
    fix d s A B
    assume *: "p \<noteq> NULL" "store h p = Some (NodeObj \<lparr>node_data = d, node_next = s\<rparr>)"
      "own h d A v" "own_seg own h s B vs q" "p \<notin> A" "p \<notin> B" "A \<inter> B = {}" "G = insert p (A \<union> B)"
    have "own_seg own h s (B \<union> H) (vs @ ws) r"
      using Cons.IH [OF *(4) Cons.prems(2)] Cons.prems(3) *(8) by auto
    then show ?thesis
      using * Cons.prems(3) unfolding append_Cons
      by (intro seg_ConsI [where d = d and q = s and G = A and H = "B \<union> H"]) auto
  qed
qed

lemma seg_snocE:
  "own_seg own h p F (vs @ [w]) NULL \<Longrightarrow>
   \<exists>q d G H. own_seg own h p G vs q \<and> q \<noteq> NULL \<and>
     store h q = Some (NodeObj \<lparr>node_data = d, node_next = NULL\<rparr>) \<and> own h d H w \<and>
     q \<notin> G \<and> q \<notin> H \<and> G \<inter> H = {} \<and> F = insert q (G \<union> H)"
proof (induction vs arbitrary: p F)
  case Nil
  then have "own_seg own h p F [w] NULL" by simp
  then show ?case by (rule seg_ConsE) auto
next
  case (Cons v vs)
  from Cons.prems have "own_seg own h p F (v # (vs @ [w])) NULL" by simp
  then show ?case
  proof (rule seg_ConsE)
    fix d s A B
    assume *: "p \<noteq> NULL" "store h p = Some (NodeObj \<lparr>node_data = d, node_next = s\<rparr>)"
      "own h d A v" "own_seg own h s B (vs @ [w]) NULL" "p \<notin> A" "p \<notin> B" "A \<inter> B = {}"
      "F = insert p (A \<union> B)"
    from Cons.IH [OF *(4)] obtain q e G H where q: "own_seg own h s G vs q" "q \<noteq> NULL"
      "store h q = Some (NodeObj \<lparr>node_data = e, node_next = NULL\<rparr>)" "own h e H w"
      "q \<notin> G" "q \<notin> H" "G \<inter> H = {}" "B = insert q (G \<union> H)" by blast
    have "own_seg own h p (insert p (A \<union> G)) (v # vs) q"
      using * q by (intro seg_ConsI [where d = d and q = s and G = A and H = G]) auto
    moreover have "q \<notin> insert p (A \<union> G)" "insert p (A \<union> G) \<inter> H = {}"
      "F = insert q (insert p (A \<union> G) \<union> H)"
      using *(5-8) q(5-8) by blast+
    ultimately show ?thesis using q(2-4,6) by blast
  qed
qed

lemma seg_NULL: "own_seg own h p F vs NULL \<Longrightarrow> p = NULL \<longleftrightarrow> vs = []"
  by (cases vs) (auto elim: seg_ConsE)

subsection \<open>List objects\<close>

lemma ll_list:
  assumes "own_ll own f c h l F vs"
  obtains p G where "l \<noteq> NULL" "load_list l h = Some \<lparr>free_function = f, compare_function = c, head = p\<rparr>"
    "store h l = Some (ListObj \<lparr>free_function = f, compare_function = c, head = p\<rparr>)"
    "own_seg own h p G vs NULL" "l \<notin> G" "F = insert l G"
  using assms by (auto simp: own_ll_def load_list_def load_obj_def)

lemma ll_I:
  "l \<noteq> NULL \<Longrightarrow> store h l = Some (ListObj \<lparr>free_function = f, compare_function = c, head = p\<rparr>) \<Longrightarrow>
   own_seg own h p G vs NULL \<Longrightarrow> l \<notin> G \<Longrightarrow> F = insert l G \<Longrightarrow> own_ll own f c h l F vs"
  by (auto simp: own_ll_def)

lemma ll_frame:
  assumes "own_ll own f c h l F vs" and same: "\<And>a. a \<in> F \<Longrightarrow> store h' a = store h a"
  shows "own_ll own f c h' l F vs"
  using assms(1)
proof (rule ll_list)
  fix p G
  assume *: "l \<noteq> NULL" "store h l = Some (ListObj \<lparr>free_function = f, compare_function = c, head = p\<rparr>)"
    "own_seg own h p G vs NULL" "l \<notin> G" "F = insert l G"
  have "own_seg own h' p G vs NULL" using *(3,5) same by (auto intro: seg_frame)
  then show ?thesis using * same by (intro ll_I [where p = p and G = G]) auto
qed

lemma ll_live: "own_ll own f c h l F vs \<Longrightarrow> a \<in> F \<Longrightarrow> store h a \<noteq> None"
  by (erule ll_list) (auto dest: seg_live)

lemma ll_self: "own_ll own f c h l F vs \<Longrightarrow> l \<in> F \<and> l \<noteq> NULL"
  by (auto simp: own_ll_def)

lemma ll_fresh: "own_ll own f c h l F vs \<Longrightarrow> heap_ok h \<Longrightarrow> Suc (brk h) \<notin> F"
  using heap_ok_fresh ll_live by blast

lemma own_fresh: "own h d F v \<Longrightarrow> heap_ok h \<Longrightarrow> Suc (brk h) \<notin> F"
  using heap_ok_fresh own_live by blast

subsection \<open>Queries\<close>

lemma is_empty_eq:
  "own_ll own f c h l F vs \<Longrightarrow> linked_list_is_empty l True h = Some (SUCCESS, Some (vs = []))"
  by (erule ll_list) (simp add: linked_list_is_empty_def seg_NULL)

lemma get_first_eq:
  assumes "own_ll own f c h l F (v # vs)"
  obtains p d q where "linked_list_get_first l True h = Some (SUCCESS, Some p)"
    "load_node p h = Some \<lparr>node_data = d, node_next = q\<rparr>" "\<exists>G \<subseteq> F. own h d G v"
proof -
  from assms obtain p G where p: "l \<noteq> NULL"
    "load_list l h = Some \<lparr>free_function = f, compare_function = c, head = p\<rparr>"
    "own_seg own h p G (v # vs) NULL" "F = insert l G"
    by (rule ll_list)
  from p(3) obtain d q G1 G2 where "load_node p h = Some \<lparr>node_data = d, node_next = q\<rparr>"
    "own h d G1 v" "G = insert p (G1 \<union> G2)"
    by (rule seg_ConsE)
  moreover have "linked_list_get_first l True h = Some (SUCCESS, Some p)"
    using p by (simp add: linked_list_get_first_def is_empty_eq [OF assms])
  ultimately show ?thesis using that p(4) by blast
qed

lemma get_first_empty:
  "own_ll own f c h l F [] \<Longrightarrow> linked_list_get_first l True h = Some (FAILURE_LINKED_LIST_EMPTY, None)"
  by (frule ll_self) (simp add: linked_list_get_first_def is_empty_eq)

lemma length_loop_eq:
  "own_seg own h p F vs NULL \<Longrightarrow> linked_list_length_loop p r h = Some (r + of_nat (length vs))"
proof (induction vs arbitrary: p F r)
  case Nil
  then show ?case by (simp add: linked_list_length_loop.simps)
next
  case (Cons v vs)
  from Cons.prems show ?case
    by (rule seg_ConsE) (simp add: linked_list_length_loop.simps [of p] Cons.IH ac_simps)
qed

lemma length_eq:
  "own_ll own f c h l F vs \<Longrightarrow>
   linked_list_length l True h = Some (SUCCESS, Some (of_nat (length vs)))"
  by (erule ll_list) (simp add: linked_list_length_def length_loop_eq)

lemma get_last_loop_seg:
  "own_seg own h p F vs q \<Longrightarrow> q \<noteq> NULL \<Longrightarrow>
   linked_list_get_last_loop p h = linked_list_get_last_loop q h"
proof (induction vs arbitrary: p F)
  case Nil
  then show ?case by simp
next
  case (Cons v vs)
  from Cons.prems(1) show ?case
  proof (rule seg_ConsE)
    fix d s A B
    assume *: "load_node p h = Some \<lparr>node_data = d, node_next = s\<rparr>" "own_seg own h s B vs q"
    have "s \<noteq> NULL"
      using *(2) Cons.prems(2) by (cases vs) (auto elim: seg_ConsE)
    with * Cons.IH [OF *(2) Cons.prems(2)] show ?thesis
      by (simp add: linked_list_get_last_loop.simps [of p])
  qed
qed

lemma get_last_eq:
  assumes "own_ll own f c h l F (vs @ [w])"
  obtains p q d A B where "linked_list_get_last l True h = Some (SUCCESS, Some q)"
    "store h l = Some (ListObj \<lparr>free_function = f, compare_function = c, head = p\<rparr>)"
    "own_seg own h p A vs q" "q \<noteq> NULL"
    "store h q = Some (NodeObj \<lparr>node_data = d, node_next = NULL\<rparr>)" "own h d B w"
    "q \<notin> A" "q \<notin> B" "A \<inter> B = {}" "l \<noteq> q" "l \<notin> A" "l \<notin> B" "F = insert l (insert q (A \<union> B))"
proof -
  from assms obtain p G where p: "l \<noteq> NULL"
    "load_list l h = Some \<lparr>free_function = f, compare_function = c, head = p\<rparr>"
    "store h l = Some (ListObj \<lparr>free_function = f, compare_function = c, head = p\<rparr>)"
    "own_seg own h p G (vs @ [w]) NULL" "l \<notin> G" "F = insert l G"
    by (rule ll_list)
  from seg_snocE [OF p(4)] obtain q d A B where q: "own_seg own h p A vs q" "q \<noteq> NULL"
    "store h q = Some (NodeObj \<lparr>node_data = d, node_next = NULL\<rparr>)" "own h d B w"
    "q \<notin> A" "q \<notin> B" "A \<inter> B = {}" "G = insert q (A \<union> B)" by blast
  have "linked_list_get_last_loop q h = Some q"
    using q(2,3) by (simp add: linked_list_get_last_loop.simps load_node_def load_obj_def)
  then have "linked_list_get_last l True h = Some (SUCCESS, Some q)"
    using p by (simp add: linked_list_get_last_def is_empty_eq [OF assms] get_last_loop_seg [OF q(1,2)])
  then show ?thesis using that p q by blast
qed

subsection \<open>Updates\<close>

lemma prepend_ok:
  assumes ll: "own_ll own f c h l F vs" and v: "own h d G v" and disj: "F \<inter> G = {}"
    and ok: "heap_ok h" and m: "malloc_ok h (brk h)"
  obtains h' where "linked_list_prepend l d h = Some (SUCCESS, h')"
    "own_ll own f c h' l (insert (Suc (brk h)) (F \<union> G)) (v # vs)"
    "same_except (insert (Suc (brk h)) F) h h'" "heap_ok h'" "brk h' = Suc (brk h)"
  using ll
proof (rule ll_list)
  fix p A
  assume *: "l \<noteq> NULL" "load_list l h = Some \<lparr>free_function = f, compare_function = c, head = p\<rparr>"
    "store h l = Some (ListObj \<lparr>free_function = f, compare_function = c, head = p\<rparr>)"
    "own_seg own h p A vs NULL" "l \<notin> A" "F = insert l A"
  let ?n = "Suc (brk h)"
  let ?h = "h\<lparr>brk := ?n, store := (store h)(?n \<mapsto> NodeObj \<lparr>node_data = d, node_next = p\<rparr>,
    l \<mapsto> ListObj \<lparr>free_function = f, compare_function = c, head = ?n\<rparr>)\<rparr>"
  have fresh: "?n \<notin> F" "?n \<notin> G" using ll v ok by (auto dest: ll_fresh own_fresh)
  have "linked_list_prepend l d h = Some (SUCCESS, ?h)"
    using linked_list_prepend_eq [OF *(1) own_NULL [OF v] *(3) ok m] by simp
  moreover have "own_seg own ?h ?n (insert ?n (G \<union> A)) (v # vs) NULL"
  proof (rule seg_ConsI [where d = d and q = p and G = G and H = A])
    show "own ?h d G v" using v disj fresh *(6) by (auto intro!: own_frame [OF v])
    show "own_seg own ?h p A vs NULL" using * fresh by (auto intro!: seg_frame [OF *(4)])
  qed (use * fresh disj in auto)
  then have "own_ll own f c ?h l (insert ?n (F \<union> G)) (v # vs)"
    using * fresh disj by (intro ll_I [where p = ?n and G = "insert ?n (G \<union> A)"]) auto
  moreover have "same_except (insert ?n F) h ?h"
    using *(6) by (auto simp: same_except_def)
  moreover have "heap_ok ?h"
    using ok *(1,3) by (auto simp: heap_ok_def intro: le_SucI)
  ultimately show ?thesis using that by simp
qed

lemma seg_link:
  assumes seg: "own_seg own h p A us q" "q \<noteq> NULL" "own h e B w" "own h d G v" "n \<noteq> NULL"
    and apart: "q \<notin> A \<union> B \<union> G" "n \<notin> insert q (A \<union> B \<union> G)" "A \<inter> B = {}" "(A \<union> B) \<inter> G = {}"
    and h': "store h' = (store h)(n \<mapsto> NodeObj \<lparr>node_data = d, node_next = NULL\<rparr>,
      q \<mapsto> NodeObj \<lparr>node_data = e, node_next = n\<rparr>)"
  shows "own_seg own h' p (A \<union> insert q (B \<union> insert n G)) (us @ [w, v]) NULL"
proof (rule seg_appendI)
  show "own_seg own h' p A us q" using apart h' by (intro seg_frame [OF seg(1)]) auto
  have w: "own h' e B w" using apart h' by (intro own_frame [OF seg(3)]) auto
  have v: "own h' d G v" using apart h' by (intro own_frame [OF seg(4)]) auto
  have n: "own_seg own h' n (insert n G) [v] NULL"
    by (rule seg_ConsI [OF _ _ v, where H = "{}"]) (use seg(5) apart h' in auto)
  show "own_seg own h' q (insert q (B \<union> insert n G)) [w, v] NULL"
    by (rule seg_ConsI [OF _ _ w n]) (use seg(2) apart h' in auto)
  show "A \<inter> insert q (B \<union> insert n G) = {}" using apart by auto
qed

lemma append_ok:
  assumes ll: "own_ll own f c h l F vs" and v: "own h d G v" and disj: "F \<inter> G = {}"
    and ok: "heap_ok h" and m: "malloc_ok h (brk h)"
  obtains h' where "linked_list_append l d h = Some (SUCCESS, h')"
    "own_ll own f c h' l (insert (Suc (brk h)) (F \<union> G)) (vs @ [v])"
    "same_except (insert (Suc (brk h)) F) h h'" "heap_ok h'" "brk h' = Suc (brk h)"
proof (cases vs rule: rev_cases)
  case Nil
  then have "linked_list_append l d h = linked_list_prepend l d h"
    using ll ll_self [OF ll] own_NULL [OF v] by (simp add: linked_list_append_def is_empty_eq)
  with prepend_ok [OF assms] Nil that show ?thesis by auto
next
  case (snoc us w)
  from ll [unfolded snoc] show ?thesis
  proof (rule get_last_eq)
    fix p q e A B
    assume *: "linked_list_get_last l True h = Some (SUCCESS, Some q)"
      "store h l = Some (ListObj \<lparr>free_function = f, compare_function = c, head = p\<rparr>)"
      "own_seg own h p A us q" "q \<noteq> NULL"
      "store h q = Some (NodeObj \<lparr>node_data = e, node_next = NULL\<rparr>)" "own h e B w"
      "q \<notin> A" "q \<notin> B" "A \<inter> B = {}" "l \<noteq> q" "l \<notin> A" "l \<notin> B" "F = insert l (insert q (A \<union> B))"
    let ?n = "Suc (brk h)"
    let ?h = "h\<lparr>brk := ?n, store := (store h)(?n \<mapsto> NodeObj \<lparr>node_data = d, node_next = NULL\<rparr>,
      q \<mapsto> NodeObj \<lparr>node_data = e, node_next = ?n\<rparr>)\<rparr>"
    have fresh: "?n \<notin> F" "?n \<notin> G" using ll v ok by (auto dest: ll_fresh own_fresh)
    have self: "l \<noteq> NULL" "d \<noteq> NULL" using ll_self [OF ll] own_NULL [OF v] by auto
    have "linked_list_append l d h = Some (SUCCESS, ?h)"
      using * self m fresh snoc
      by (simp add: linked_list_append_def is_empty_eq [OF ll] malloc_eq store_obj_def
          out_ptr_def load_node_def load_obj_def)
    moreover have "own_seg own ?h p (A \<union> insert q (B \<union> insert ?n G)) (us @ [w, v]) NULL"
      by (rule seg_link [OF *(3,4,6) v]) (use * disj fresh in auto)
    then have "own_ll own f c ?h l (insert ?n (F \<union> G)) (vs @ [v])"
      using * self fresh disj snoc
      by (intro ll_I [where p = p and G = "A \<union> insert q (B \<union> insert ?n G)"]) auto
    moreover have "same_except (insert ?n F) h ?h" using *(13) by (auto simp: same_except_def)
    moreover have "heap_ok ?h" using ok *(4,5) by (auto simp: heap_ok_def intro: le_SucI)
    ultimately show ?thesis using that by simp
  qed
qed

lemma prepend_fail:
  "own_ll own f c h l F vs \<Longrightarrow> d \<noteq> NULL \<Longrightarrow> \<not> malloc_ok h (brk h) \<Longrightarrow>
   linked_list_prepend l d h = Some (FAILURE_COULD_NOT_MALLOC, h\<lparr>brk := Suc (brk h)\<rparr>)"
  by (erule ll_list) (simp add: linked_list_prepend_def malloc_eq)

lemma append_fail:
  assumes "own_ll own f c h l F vs" "d \<noteq> NULL" "\<not> malloc_ok h (brk h)"
  shows "linked_list_append l d h = Some (FAILURE_COULD_NOT_MALLOC, h\<lparr>brk := Suc (brk h)\<rparr>)"
proof (cases vs rule: rev_cases)
  case Nil
  with assms ll_self [OF assms(1)] show ?thesis
    by (simp add: linked_list_append_def is_empty_eq prepend_fail)
next
  case (snoc us w)
  from assms(1) [unfolded snoc] show ?thesis
    by (rule get_last_eq)
      (use assms snoc ll_self [OF assms(1)] in
        \<open>simp add: linked_list_append_def is_empty_eq malloc_eq\<close>)
qed

subsection \<open>Search\<close>

text \<open>
  With a compare function that decides a relation \<open>eqv\<close> between the searched datum and
  the values, the search finds the node of the first related value, or none.
\<close>

lemma found_mono: "found own h F v r \<Longrightarrow> F \<subseteq> G \<Longrightarrow> found own h G v r"
  unfolding found_def by (cases v) (simp, simp, blast)

lemma find_loop_eq:
  assumes seg: "own_seg own h p F vs NULL"
    and cmp: "\<And>e G v. own h e G v \<Longrightarrow> v \<in> set vs \<Longrightarrow>
      \<exists>k. callc cf d e h = Some k \<and> (k = 0 \<longleftrightarrow> eqv v)"
  shows "\<exists>r. linked_list_find_loop callc cf d p h = Some r \<and> found own h F (List.find eqv vs) r"
  using seg cmp
proof (induction vs arbitrary: p F)
  case Nil
  then show ?case by (simp add: linked_list_find_loop.simps found_def)
next
  case (Cons v vs)
  from Cons.prems(1) show ?case
  proof (rule seg_ConsE)
    fix e q G H
    assume *: "p \<noteq> NULL" "load_node p h = Some \<lparr>node_data = e, node_next = q\<rparr>"
      "own h e G v" "own_seg own h q H vs NULL" "F = insert p (G \<union> H)"
    from Cons.prems(2) [OF *(3)] obtain k where k: "callc cf d e h = Some k" "k = 0 \<longleftrightarrow> eqv v"
      by auto
    show ?thesis
    proof (cases "eqv v")
      case True
      with * k show ?thesis
        by (intro exI [of _ "Some p"]) (auto simp: linked_list_find_loop.simps [of _ _ _ p] found_def)
    next
      case False
      with *(1,2) k have "linked_list_find_loop callc cf d p h = linked_list_find_loop callc cf d q h"
        by (simp add: linked_list_find_loop.simps [of _ _ _ p])
      moreover have "\<exists>r. linked_list_find_loop callc cf d q h = Some r \<and>
          found own h H (List.find eqv vs) r"
        by (rule Cons.IH [OF *(4)]) (simp add: Cons.prems(2))
      moreover have "H \<subseteq> F" using *(5) by auto
      ultimately show ?thesis
        using False found_mono by fastforce
    qed
  qed
qed

lemma find_eq:
  assumes "own_ll own f (Some cf) h l F vs" "d \<noteq> NULL"
    and "\<And>e G v. own h e G v \<Longrightarrow> v \<in> set vs \<Longrightarrow> \<exists>k. callc cf d e h = Some k \<and> (k = 0 \<longleftrightarrow> eqv v)"
  shows "\<exists>r. linked_list_find callc l d True h = Some (SUCCESS, r) \<and>
    found own h F (List.find eqv vs) r"
  using assms(1)
proof (rule ll_list)
  fix p G
  assume *: "l \<noteq> NULL" "load_list l h = Some \<lparr>free_function = f, compare_function = Some cf, head = p\<rparr>"
    "own_seg own h p G vs NULL" "F = insert l G"
  have "\<exists>r. linked_list_find_loop callc cf d p h = Some r \<and> found own h G (List.find eqv vs) r"
    by (rule find_loop_eq [OF *(3)]) (rule assms(3))
  with *(1,2,4) assms(2) show ?thesis
    by (auto simp: linked_list_find_def intro: found_mono)
qed

subsection \<open>Positions in a list\<close>

lemma seg_splitE:
  "own_seg own h p F (us @ ws) r \<Longrightarrow>
   \<exists>q A B. own_seg own h p A us q \<and> own_seg own h q B ws r \<and> A \<inter> B = {} \<and> F = A \<union> B"
proof (induction us arbitrary: p F)
  case Nil
  then show ?case by simp
next
  case (Cons v us)
  from Cons.prems have "own_seg own h p F (v # (us @ ws)) r" by simp
  then show ?case
  proof (rule seg_ConsE)
    fix d s G H
    assume *: "p \<noteq> NULL" "store h p = Some (NodeObj \<lparr>node_data = d, node_next = s\<rparr>)"
      "own h d G v" "own_seg own h s H (us @ ws) r" "p \<notin> G" "p \<notin> H" "G \<inter> H = {}" "F = insert p (G \<union> H)"
    from Cons.IH [OF *(4)] obtain q A B where
      q: "own_seg own h s A us q" "own_seg own h q B ws r" "A \<inter> B = {}" "H = A \<union> B" by blast
    have "own_seg own h p (insert p (G \<union> A)) (v # us) q"
      using * q by (intro seg_ConsI [where d = d and q = s and G = G and H = A]) auto
    moreover have "insert p (G \<union> A) \<inter> B = {}" "F = insert p (G \<union> A) \<union> B"
      using * q(3,4) by auto
    ultimately show ?thesis using q(2) by blast
  qed
qed

lemma find_loop_skip:
  assumes "own_seg own h p F us q"
    and "\<And>e G v. own h e G v \<Longrightarrow> v \<in> set us \<Longrightarrow> \<exists>k. callc cf d e h = Some k \<and> k \<noteq> 0"
  shows "linked_list_find_loop callc cf d p h = linked_list_find_loop callc cf d q h"
  using assms
proof (induction us arbitrary: p F)
  case Nil
  then show ?case by simp
next
  case (Cons v us)
  from Cons.prems(1) show ?case
  proof (rule seg_ConsE)
    fix e s G H
    assume *: "p \<noteq> NULL" "load_node p h = Some \<lparr>node_data = e, node_next = s\<rparr>"
      "own h e G v" "own_seg own h s H us q"
    from Cons.prems(2) [OF *(3)] obtain k where "callc cf d e h = Some k" "k \<noteq> 0" by auto
    moreover have "linked_list_find_loop callc cf d s h = linked_list_find_loop callc cf d q h"
      by (rule Cons.IH [OF *(4)]) (simp add: Cons.prems(2))
    ultimately show ?thesis using *(1,2) by (simp add: linked_list_find_loop.simps [of _ _ _ p])
  qed
qed

text \<open>The datum at one position of a list may be replaced in place.\<close>

lemma ll_replace:
  assumes "own_ll own f c h l F (us @ v # ws)"
  obtains p q d s A B C where "load_list l h = Some \<lparr>free_function = f, compare_function = c, head = p\<rparr>"
    "l \<noteq> NULL" "own_seg own h p A us q" "q \<noteq> NULL" "load_node q h = Some \<lparr>node_data = d, node_next = s\<rparr>"
    "own h d B v" "B \<subseteq> F"
    "\<And>h' w. own h' d B w \<Longrightarrow> (\<And>x. x \<in> F - B \<Longrightarrow> store h' x = store h x) \<Longrightarrow>
       own_ll own f c h' l F (us @ w # ws)"
  using assms
proof (rule ll_list)
  fix p G
  assume *: "l \<noteq> NULL" "load_list l h = Some \<lparr>free_function = f, compare_function = c, head = p\<rparr>"
    "store h l = Some (ListObj \<lparr>free_function = f, compare_function = c, head = p\<rparr>)"
    "own_seg own h p G (us @ v # ws) NULL" "l \<notin> G" "F = insert l G"
  from seg_splitE [OF *(4)] obtain q A D where
    q: "own_seg own h p A us q" "own_seg own h q D (v # ws) NULL" "A \<inter> D = {}" "G = A \<union> D" by blast
  from q(2) show ?thesis
  proof (rule seg_ConsE)
    fix d s B C
    assume d: "q \<noteq> NULL" "load_node q h = Some \<lparr>node_data = d, node_next = s\<rparr>"
      "store h q = Some (NodeObj \<lparr>node_data = d, node_next = s\<rparr>)" "own h d B v"
      "own_seg own h s C ws NULL" "q \<notin> B" "q \<notin> C" "B \<inter> C = {}" "D = insert q (B \<union> C)"
    have "own_ll own f c h' l F (us @ w # ws)"
      if w: "own h' d B w" and same: "\<And>x. x \<in> F - B \<Longrightarrow> store h' x = store h x" for h' w
    proof -
      have "own_seg own h' p A us q"
        using q(3,4) d(9) *(6) by (intro seg_frame [OF q(1)] same) auto
      moreover have "own_seg own h' s C ws NULL"
        using q(4) d(8,9) *(6) by (intro seg_frame [OF d(5)] same) auto
      then have "own_seg own h' q D (w # ws) NULL"
        using d *(6) q(4) w same [of q] by (intro seg_ConsI [where d = d and q = s and G = B and H = C]) auto
      ultimately have "own_seg own h' p G (us @ w # ws) NULL"
        using q(3,4) by (metis seg_appendI)
      moreover have "l \<notin> B" using *(5) q(4) d(9) by auto
      ultimately show ?thesis using * same [of l] by (intro ll_I [where p = p and G = G]) auto
    qed
    then show ?thesis using that [OF *(2,1) q(1) d(1,2,4)] *(6) q(4) d(9) by blast
  qed
qed

end

section \<open>Destruction\<close>

text \<open>
  The contract of a free function: called on a datum, it frees exactly what the datum owns.
\<close>

locale owned_free = owned own
  for own :: "'d mem \<Rightarrow> addr \<Rightarrow> addr set \<Rightarrow> 'v \<Rightarrow> bool" +
  fixes callf :: "'d free_call" and ff :: free_function_t
  assumes free_contract: "own h d F v \<Longrightarrow> callf ff d h = Some (free_all F h)"
begin

lemma free_all_upd: "l \<in> F \<Longrightarrow> free_all F (h\<lparr>store := (store h)(l \<mapsto> x)\<rparr>) = free_all F h"
  by (auto simp: free_all_def restrict_map_def fun_eq_iff)

lemma remove_first_eq:
  assumes "own_ll own ff c h l F (v # vs)"
  obtains h' G where "linked_list_remove_first callf l h = Some (SUCCESS, h')"
    "own_ll own ff c h' l G vs" "G \<subseteq> F" "free_all G h' = free_all F h"
    "\<And>a. a \<notin> F \<Longrightarrow> store h' a = store h a"
  using assms
proof (rule ll_list)
  fix p A
  assume *: "l \<noteq> NULL" "load_list l h = Some \<lparr>free_function = ff, compare_function = c, head = p\<rparr>"
    "store h l = Some (ListObj \<lparr>free_function = ff, compare_function = c, head = p\<rparr>)"
    "own_seg own h p A (v # vs) NULL" "l \<notin> A" "F = insert l A"
  from *(4) show ?thesis
  proof (rule seg_ConsE)
    fix d q B C
    assume p: "p \<noteq> NULL" "load_node p h = Some \<lparr>node_data = d, node_next = q\<rparr>"
      "store h p = Some (NodeObj \<lparr>node_data = d, node_next = q\<rparr>)" "own h d B v"
      "own_seg own h q C vs NULL" "p \<notin> B" "p \<notin> C" "B \<inter> C = {}" "A = insert p (B \<union> C)"
    let ?l = "ListObj \<lparr>free_function = ff, compare_function = c, head = q\<rparr>"
    let ?h = "h\<lparr>store := (store h)(l \<mapsto> ?l)\<rparr>"
    let ?h' = "free_all (insert p B) ?h"
    have "own ?h d B v" using *(5) p(9) by (intro own_frame [OF p(4)]) auto
    then have B: "callf ff d ?h = Some (free_all B ?h)" by (rule free_contract)
    have lp: "l \<noteq> p" "l \<notin> B" "l \<notin> C" using *(5) p(9) by auto
    have "linked_list_get_first l True h = Some (SUCCESS, Some p)"
      using *(1,2) p(1) by (simp add: linked_list_get_first_def is_empty_eq [OF assms])
    moreover have "mem_free p (free_all B ?h) = Some ?h'"
      using p(1,3,6) lp by (subst mem_free_eq) simp_all
    ultimately have "linked_list_remove_first callf l h = Some (SUCCESS, ?h')"
      using *(1,2,3) p(2) B by (simp add: linked_list_remove_first_def out_ptr_def store_obj_def)
    moreover have "own_seg own ?h' q C vs NULL"
      using p(7,8) lp by (intro seg_frame [OF p(5)]) (auto simp: free_all_store restrict_map_def)
    then have "own_ll own ff c ?h' l (insert l C) vs"
      using *(1) lp by (intro ll_I [where p = q and G = C]) auto
    moreover have "free_all (insert l C) ?h' = free_all F h"
      using *(6) p(9) by (simp add: free_all_upd Un_assoc insert_commute Un_commute)
    moreover have "store ?h' a = store h a" if "a \<notin> F" for a
      using that *(6) p(9) by simp
    ultimately show ?thesis using that *(6) p(9) by blast
  qed
qed

lemma destroy_loop_eq:
  "own_ll own ff c h l F vs \<Longrightarrow>
   \<exists>h'. linked_list_destroy_loop callf l (vs = []) h = Some (SUCCESS, h') \<and>
     own_ll own ff c h' l {l} [] \<and> free_all {l} h' = free_all F h"
proof (induction vs arbitrary: h F)
  case Nil
  then have "F = {l}" by (auto simp: own_ll_def)
  with Nil show ?case by (simp add: linked_list_destroy_loop.simps)
next
  case (Cons v vs)
  from Cons.prems show ?case
  proof (rule remove_first_eq)
    fix h1 G
    assume *: "linked_list_remove_first callf l h = Some (SUCCESS, h1)"
      "own_ll own ff c h1 l G vs" "free_all G h1 = free_all F h"
    from Cons.IH [OF *(2)] obtain h' where
      "linked_list_destroy_loop callf l (vs = []) h1 = Some (SUCCESS, h')"
      "own_ll own ff c h' l {l} []" "free_all {l} h' = free_all G h1" by blast
    with * is_empty_eq [OF *(2)] show ?thesis
      by (simp add: linked_list_destroy_loop.simps [of _ _ False])
  qed
qed

text \<open>Destroying a list frees exactly what it owns: nothing leaks, nothing is freed twice.\<close>

lemma destroy_eq:
  assumes "own_ll own ff c h l F vs"
  shows "linked_list_destroy callf l h = Some (SUCCESS, free_all F h)"
proof -
  from destroy_loop_eq [OF assms] obtain h' where
    h': "linked_list_destroy_loop callf l (vs = []) h = Some (SUCCESS, h')"
      "own_ll own ff c h' l {l} []" "free_all {l} h' = free_all F h" by blast
  from h'(2) have "mem_free l h' = Some (free_all {l} h')"
    by (rule ll_list) (rule mem_free_eq)
  with h' is_empty_eq [OF assms] ll_self [OF assms] show ?thesis
    by (simp add: linked_list_destroy_def)
qed

end

section \<open>Lists of plain pointers\<close>

interpretation ptrs: owned own_ptr
  by unfold_locales (auto simp: own_ptr_def)

lemma create_eq:
  "heap_ok h \<Longrightarrow> malloc_ok h (brk h) \<Longrightarrow>
   \<exists>h'. linked_list_create True (Some f) c h = (SUCCESS, Some (Suc (brk h)), h') \<and>
     own_ll own f c h' (Suc (brk h)) {Suc (brk h)} [] \<and> same_except {Suc (brk h)} h h' \<and>
     heap_ok h' \<and> brk h' = Suc (brk h)"
  by (auto simp: linked_list_create_def malloc_eq own_ll_def same_except_def)

lemma create_fail:
  "\<not> malloc_ok h (brk h) \<Longrightarrow>
   linked_list_create True (Some f) c h = (FAILURE_COULD_NOT_MALLOC, None, h\<lparr>brk := Suc (brk h)\<rparr>)"
  by (simp add: linked_list_create_def malloc_eq)

end
