(* ===== verification/Objects.thy ===== *)
theory Objects imports Linked_List begin

text \<open>
  The structures of \<^verbatim>\<open>include/*.h\<close> that live on the heap, their well-formedness (the
  fixed array lengths), and the abstract values they represent.

  An array member is a byte list; \<open>wf_\<close> predicates state its length.  A block value and
  a chain value hold their lists directly; \<open>own_block\<close> and \<open>own_chain\<close> relate
  them to the pointer structures, with the exact set of addresses owned.
\<close>

section \<open>Structures\<close>

abbreviation (input) MAX_SSH_KEY_LENGTH :: nat where
  "MAX_SSH_KEY_LENGTH \<equiv> 4096"

abbreviation (input) MAX_SSH_SIGNATURE_LENGTH :: nat where
  "MAX_SSH_SIGNATURE_LENGTH \<equiv> 512"

abbreviation (input) SHA256_DIGEST_LENGTH :: nat where
  "SHA256_DIGEST_LENGTH \<equiv> 32"

abbreviation (input) AMOUNT_GENERATED_DURING_MINTING :: u64 where
  "AMOUNT_GENERATED_DURING_MINTING \<equiv> 1"

abbreviation (input) GENESIS_BLOCK_PROOF_OF_WORK :: u64 where
  "GENESIS_BLOCK_PROOF_OF_WORK \<equiv> 2017"

text \<open>\<open>struct { char bytes[4096]; }\<close> and \<open>struct { unsigned char digest[32]; }\<close>.\<close>

type_synonym ssh_key_t = "byte list"
type_synonym sha_256_t = "byte list"

record ssh_signature_t =
  sig_length :: u64
  sig_bytes :: "byte list"

record transaction_t =
  tx_created_at :: u64
  sender_public_key :: ssh_key_t
  recipient_public_key :: ssh_key_t
  amount :: u64
  sender_signature :: ssh_signature_t

record block_t =
  block_created_at :: u64
  transaction_list :: addr
  proof_of_work :: u64
  previous_block_hash :: sha_256_t

record blockchain_t =
  block_list :: addr
  num_leading_zero_bytes :: u64

record sockaddr_in6 =
  sin6_family :: u16
  sin6_port :: u16
  sin6_flowinfo :: u32
  sin6_addr :: "byte list"
  sin6_scope_id :: u32

record peer_info_t =
  listen_addr :: sockaddr_in6
  last_connected :: u64

record synchronized_blockchain_t =
  sync_blockchain :: addr
  version :: u64

datatype app_obj =
    TransactionObj transaction_t
  | BlockObj block_t
  | BlockchainObj blockchain_t
  | PeerObj peer_info_t
  | SyncObj synchronized_blockchain_t

type_synonym heap = "app_obj mem"

definition load_transaction :: "addr \<Rightarrow> heap \<Rightarrow> transaction_t option" where
  "load_transaction a h =
     (case load_data a h of Some (TransactionObj t) \<Rightarrow> Some t | _ \<Rightarrow> None)"

definition load_block :: "addr \<Rightarrow> heap \<Rightarrow> block_t option" where
  "load_block a h = (case load_data a h of Some (BlockObj b) \<Rightarrow> Some b | _ \<Rightarrow> None)"

definition load_blockchain :: "addr \<Rightarrow> heap \<Rightarrow> blockchain_t option" where
  "load_blockchain a h =
     (case load_data a h of Some (BlockchainObj c) \<Rightarrow> Some c | _ \<Rightarrow> None)"

definition load_peer :: "addr \<Rightarrow> heap \<Rightarrow> peer_info_t option" where
  "load_peer a h = (case load_data a h of Some (PeerObj p) \<Rightarrow> Some p | _ \<Rightarrow> None)"

definition load_sync :: "addr \<Rightarrow> heap \<Rightarrow> synchronized_blockchain_t option" where
  "load_sync a h = (case load_data a h of Some (SyncObj s) \<Rightarrow> Some s | _ \<Rightarrow> None)"

section \<open>Well-formed structures\<close>

definition wf_transaction :: "transaction_t \<Rightarrow> bool" where
  "wf_transaction t \<longleftrightarrow>
     length (sender_public_key t) = MAX_SSH_KEY_LENGTH \<and>
     length (recipient_public_key t) = MAX_SSH_KEY_LENGTH \<and>
     length (sig_bytes (sender_signature t)) = MAX_SSH_SIGNATURE_LENGTH"

section \<open>Abstract values and ownership\<close>

record block_v =
  bv_created_at :: u64
  bv_transactions :: "transaction_t list"
  bv_proof_of_work :: u64
  bv_previous_block_hash :: sha_256_t

record chain_v =
  cv_blocks :: "block_v list"
  cv_zeros :: u64

definition wf_block :: "block_v \<Rightarrow> bool" where
  "wf_block b \<longleftrightarrow>
     length (bv_previous_block_hash b) = SHA256_DIGEST_LENGTH \<and>
     (\<forall>t \<in> set (bv_transactions b). wf_transaction t)"

definition wf_chain :: "chain_v \<Rightarrow> bool" where
  "wf_chain c \<longleftrightarrow> (\<forall>b \<in> set (cv_blocks c). wf_block b)"

definition own_transaction :: "heap \<Rightarrow> addr \<Rightarrow> addr set \<Rightarrow> transaction_t \<Rightarrow> bool" where
  "own_transaction h a F t \<longleftrightarrow>
     a \<noteq> NULL \<and> F = {a} \<and> store h a = Some (DataObj (TransactionObj t))"

definition own_peer :: "heap \<Rightarrow> addr \<Rightarrow> addr set \<Rightarrow> peer_info_t \<Rightarrow> bool" where
  "own_peer h a F p \<longleftrightarrow> a \<noteq> NULL \<and> F = {a} \<and> store h a = Some (DataObj (PeerObj p))"

text \<open>
  A transaction list frees its elements with \<open>transaction_destroy\<close> or with
  \<open>free\<close> (the mining thread creates it with \<open>free\<close>); both release the same
  object.
\<close>

definition own_transaction_list :: "heap \<Rightarrow> addr \<Rightarrow> addr set \<Rightarrow> transaction_t list \<Rightarrow> bool" where
  "own_transaction_list h l F ts \<longleftrightarrow>
     (\<exists>f \<in> {FREE, TRANSACTION_DESTROY}. own_ll own_transaction f None h l F ts)"

definition own_block :: "heap \<Rightarrow> addr \<Rightarrow> addr set \<Rightarrow> block_v \<Rightarrow> bool" where
  "own_block h a F b \<longleftrightarrow>
     (\<exists>l G. a \<noteq> NULL \<and> a \<notin> G \<and> F = insert a G \<and>
        store h a = Some (DataObj (BlockObj
          \<lparr>block_created_at = bv_created_at b, transaction_list = l,
           proof_of_work = bv_proof_of_work b,
           previous_block_hash = bv_previous_block_hash b\<rparr>)) \<and>
        own_transaction_list h l G (bv_transactions b))"

definition own_chain :: "heap \<Rightarrow> addr \<Rightarrow> addr set \<Rightarrow> chain_v \<Rightarrow> bool" where
  "own_chain h a F c \<longleftrightarrow>
     (\<exists>l G. a \<noteq> NULL \<and> a \<notin> G \<and> F = insert a G \<and>
        store h a = Some (DataObj (BlockchainObj
          \<lparr>block_list = l, num_leading_zero_bytes = cv_zeros c\<rparr>)) \<and>
        own_ll own_block BLOCK_DESTROY None h l G (cv_blocks c))"

section \<open>Ownership of the data satisfies the list's interface\<close>

lemma load_transaction_store:
  "a \<noteq> NULL \<Longrightarrow> store h a = Some (DataObj (TransactionObj t)) \<Longrightarrow> load_transaction a h = Some t"
  by (simp add: load_transaction_def load_data_def load_obj_def)

lemma load_block_store:
  "a \<noteq> NULL \<Longrightarrow> store h a = Some (DataObj (BlockObj b)) \<Longrightarrow> load_block a h = Some b"
  by (simp add: load_block_def load_data_def load_obj_def)

lemma load_blockchain_store:
  "a \<noteq> NULL \<Longrightarrow> store h a = Some (DataObj (BlockchainObj c)) \<Longrightarrow> load_blockchain a h = Some c"
  by (simp add: load_blockchain_def load_data_def load_obj_def)

lemma load_peer_store:
  "a \<noteq> NULL \<Longrightarrow> store h a = Some (DataObj (PeerObj p)) \<Longrightarrow> load_peer a h = Some p"
  by (simp add: load_peer_def load_data_def load_obj_def)

lemma own_transaction_load: "own_transaction h a F t \<Longrightarrow> load_transaction a h = Some t"
  by (simp add: own_transaction_def load_transaction_store)

interpretation tx: owned own_transaction
  by unfold_locales (auto simp: own_transaction_def)

interpretation peer: owned own_peer
  by unfold_locales (auto simp: own_peer_def)

lemma own_transaction_listI:
  "own_ll own_transaction f None h l F ts \<Longrightarrow> f \<in> {FREE, TRANSACTION_DESTROY} \<Longrightarrow>
   own_transaction_list h l F ts"
  by (auto simp: own_transaction_list_def)

lemma own_transaction_listE:
  assumes "own_transaction_list h l F ts"
  obtains f where "f \<in> {FREE, TRANSACTION_DESTROY}" "own_ll own_transaction f None h l F ts"
  using assms by (auto simp: own_transaction_list_def)

lemma own_transaction_list_frame:
  assumes "own_transaction_list h l F ts" "\<And>a. a \<in> F \<Longrightarrow> store h' a = store h a"
  shows "own_transaction_list h' l F ts"
  using assms(1) tx.ll_frame [OF _ assms(2)] unfolding own_transaction_list_def by blast

lemma own_transaction_list_live: "own_transaction_list h l F ts \<Longrightarrow> a \<in> F \<Longrightarrow> store h a \<noteq> None"
  unfolding own_transaction_list_def using tx.ll_live by blast

lemma own_blockE:
  assumes "own_block h a F b"
  obtains l G where "a \<noteq> NULL" "a \<notin> G" "F = insert a G"
    "store h a = Some (DataObj (BlockObj
       \<lparr>block_created_at = bv_created_at b, transaction_list = l,
        proof_of_work = bv_proof_of_work b, previous_block_hash = bv_previous_block_hash b\<rparr>))"
    "own_transaction_list h l G (bv_transactions b)"
  using assms by (auto simp: own_block_def)

lemma own_block_load:
  assumes "own_block h d F b"
  obtains bt A where "load_block d h = Some bt" "previous_block_hash bt = bv_previous_block_hash b"
    "own_transaction_list h (transaction_list bt) A (bv_transactions b)"
    "proof_of_work bt = bv_proof_of_work b" "A \<subseteq> F" "block_created_at bt = bv_created_at b"
  using assms
proof (rule own_blockE)
  fix l G
  let ?bt = "\<lparr>block_created_at = bv_created_at b, transaction_list = l,
    proof_of_work = bv_proof_of_work b, previous_block_hash = bv_previous_block_hash b\<rparr>"
  assume *: "d \<noteq> NULL" "F = insert d G" "store h d = Some (DataObj (BlockObj ?bt))"
    "own_transaction_list h l G (bv_transactions b)"
  from that [of ?bt G] *(2,4) load_block_store [OF *(1,3)] show ?thesis by auto
qed

lemma own_block_frame:
  assumes "own_block h a F b" "\<And>x. x \<in> F \<Longrightarrow> store h' x = store h x"
  shows "own_block h' a F b"
  using assms(1)
proof (rule own_blockE)
  fix l G
  assume *: "a \<noteq> NULL" "a \<notin> G" "F = insert a G" "own_transaction_list h l G (bv_transactions b)"
    "store h a = Some (DataObj (BlockObj
       \<lparr>block_created_at = bv_created_at b, transaction_list = l,
        proof_of_work = bv_proof_of_work b, previous_block_hash = bv_previous_block_hash b\<rparr>))"
  have "own_transaction_list h' l G (bv_transactions b)"
    using *(3) assms(2) by (intro own_transaction_list_frame [OF *(4)]) auto
  with * assms(2) show ?thesis by (auto simp: own_block_def)
qed

lemma own_block_live: "own_block h a F b \<Longrightarrow> x \<in> F \<Longrightarrow> store h x \<noteq> None"
  by (erule own_blockE) (use own_transaction_list_live in force)

interpretation blk: owned own_block
  by unfold_locales (rule own_block_frame, auto dest: own_block_live elim: own_blockE)

lemma own_chainE:
  assumes "own_chain h a F c"
  obtains l G where "a \<noteq> NULL" "a \<notin> G" "F = insert a G"
    "store h a = Some (DataObj (BlockchainObj
       \<lparr>block_list = l, num_leading_zero_bytes = cv_zeros c\<rparr>))"
    "own_ll own_block BLOCK_DESTROY None h l G (cv_blocks c)"
  using assms by (auto simp: own_chain_def)

lemma own_chain_frame:
  assumes "own_chain h a F c" "\<And>x. x \<in> F \<Longrightarrow> store h' x = store h x"
  shows "own_chain h' a F c"
  using assms(1)
proof (rule own_chainE)
  fix l G
  assume *: "a \<noteq> NULL" "a \<notin> G" "F = insert a G"
    "store h a = Some (DataObj (BlockchainObj \<lparr>block_list = l, num_leading_zero_bytes = cv_zeros c\<rparr>))"
    "own_ll own_block BLOCK_DESTROY None h l G (cv_blocks c)"
  have "own_ll own_block BLOCK_DESTROY None h' l G (cv_blocks c)"
    using *(3) assms(2) by (intro blk.ll_frame [OF *(5)]) auto
  with * assms(2) show ?thesis by (auto simp: own_chain_def)
qed

lemma own_chain_live: "own_chain h a F c \<Longrightarrow> x \<in> F \<Longrightarrow> store h x \<noteq> None"
  by (erule own_chainE) (use blk.ll_live in force)

lemma own_chain_fresh: "own_chain h a F c \<Longrightarrow> heap_ok h \<Longrightarrow> Suc (brk h) \<notin> F"
  using heap_ok_fresh own_chain_live by blast

end
