(* ===== verification/Transaction.thy ===== *)
theory Transaction imports Objects begin

text \<open>
  Transactions (\<^verbatim>\<open>src/transaction.c\<close>).

  OpenSSL is not part of the repository; what the code calls of it is the record
  \<open>openssl\<close>, an argument of every function that uses it.  A key handle is an opaque
  number.  Passing OpenSSL a buffer that is shorter than the stated length, or freeing one
  of its objects twice, is undefined behaviour.
\<close>

section \<open>The OpenSSL functions the program calls\<close>

record openssl =
  bio_new_ok :: bool
  md_ctx_new_ok :: bool
  pem_read_private_key :: "byte list \<Rightarrow> nat option"
  pem_read_public_key :: "byte list \<Rightarrow> nat option"
  pkey_is_rsa :: "nat \<Rightarrow> bool"
  sign_init_ok :: "nat \<Rightarrow> bool"
  sign_update_ok :: bool
  sign_length :: "nat \<Rightarrow> byte list \<Rightarrow> nat option"
  sign_final :: "nat \<Rightarrow> byte list \<Rightarrow> byte list option"
  verify_init_ok :: bool
  verify_update_ok :: bool
  verify_final :: "nat \<Rightarrow> byte list \<Rightarrow> byte list \<Rightarrow> int"
  sha256 :: "byte list \<Rightarrow> byte list"

text \<open>The size of a SHA-256 digest, and an allocator that serves OpenSSL's contexts.\<close>

definition digest_ok :: "openssl \<Rightarrow> bool" where
  "digest_ok ssl \<longleftrightarrow> md_ctx_new_ok ssl \<and> (\<forall>m. length (sha256 ssl m) = SHA256_DIGEST_LENGTH)"

text \<open>
  A private and a public key that belong together: both parse, the private key is an RSA key
  that signs every message with at most 512 bytes, and the public key accepts these
  signatures.
\<close>

definition key_pair :: "openssl \<Rightarrow> ssh_key_t \<Rightarrow> ssh_key_t \<Rightarrow> bool" where
  "key_pair ssl priv pub \<longleftrightarrow>
     (\<exists>k p. pem_read_private_key ssl priv = Some k \<and> pem_read_public_key ssl pub = Some p \<and>
        pkey_is_rsa ssl k \<and> sign_init_ok ssl k \<and>
        (\<forall>m. \<exists>s n. sign_length ssl k m = Some n \<and> sign_final ssl k m = Some s \<and>
           length s \<le> MAX_SSH_SIGNATURE_LENGTH \<and> verify_final ssl p m s = 1))"

definition openssl_ready :: "openssl \<Rightarrow> bool" where
  "openssl_ready ssl \<longleftrightarrow>
     bio_new_ok ssl \<and> md_ctx_new_ok ssl \<and> sign_update_ok ssl \<and> verify_init_ok ssl \<and>
     verify_update_ok ssl"

section \<open>The memory image of a transaction\<close>

text \<open>
  The structure has no padding on a 64-bit host: all members are multiples of eight bytes.
\<close>

definition transaction_bytes :: "endianness \<Rightarrow> transaction_t \<Rightarrow> byte list" where
  "transaction_bytes e t =
     host_bytes e (tx_created_at t) @ sender_public_key t @ recipient_public_key t @
     host_bytes e (amount t) @ host_bytes e (sig_length (sender_signature t)) @
     sig_bytes (sender_signature t)"

text \<open>\<open>offsetof(transaction_t, sender_signature)\<close>\<close>

definition size_without_signature :: nat where
  "size_without_signature = 8 + MAX_SSH_KEY_LENGTH + MAX_SSH_KEY_LENGTH + 8"

definition signed_bytes :: "endianness \<Rightarrow> transaction_t \<Rightarrow> byte list" where
  "signed_bytes e t = take size_without_signature (transaction_bytes e t)"

section \<open>Operations\<close>

definition transaction_generate_signature ::
  "endianness \<Rightarrow> openssl \<Rightarrow> ssh_signature_t option \<Rightarrow> addr \<Rightarrow> ssh_key_t option \<Rightarrow> heap \<Rightarrow>
   (return_code_t \<times> ssh_signature_t option) option" where
  "transaction_generate_signature e ssl signature transaction sender_private_key h =
     (case (signature, sender_private_key) of
        (Some sg, Some key) \<Rightarrow>
          if transaction = NULL then Some (FAILURE_INVALID_INPUT, None)
          else if \<not> bio_new_ok ssl then Some (FAILURE_OPENSSL_FUNCTION, None)
          else (case pem_read_private_key ssl key of
              None \<Rightarrow> Some (FAILURE_OPENSSL_FUNCTION, None)
            | Some private_key \<Rightarrow>
                if \<not> pkey_is_rsa ssl private_key
                then None \<comment> \<open>the memory BIO, already freed, is freed again\<close>
                else if \<not> md_ctx_new_ok ssl then Some (FAILURE_OPENSSL_FUNCTION, None)
                else if \<not> sign_init_ok ssl private_key then Some (FAILURE_OPENSSL_FUNCTION, None)
                else do {
                  t \<leftarrow> load_transaction transaction h;
                  if \<not> sign_update_ok ssl then Some (FAILURE_OPENSSL_FUNCTION, None)
                  else (case sign_length ssl private_key (signed_bytes e t) of
                      None \<Rightarrow> Some (FAILURE_OPENSSL_FUNCTION, None)
                    | Some _ \<Rightarrow>
                        (case sign_final ssl private_key (signed_bytes e t) of
                            None \<Rightarrow> Some (FAILURE_OPENSSL_FUNCTION, None)
                          | Some s \<Rightarrow> do {
                              bytes \<leftarrow> store_bytes (sig_bytes sg) 0 s;
                              Some (SUCCESS,
                                    Some \<lparr>sig_length = of_nat (length s), sig_bytes = bytes\<rparr>)
                            }))
                })
      | _ \<Rightarrow> Some (FAILURE_INVALID_INPUT, None))"

definition transaction_create ::
  "endianness \<Rightarrow> openssl \<Rightarrow> u64 \<Rightarrow> bool \<Rightarrow> ssh_key_t option \<Rightarrow> ssh_key_t option \<Rightarrow> u64 \<Rightarrow>
   ssh_key_t option \<Rightarrow> heap \<Rightarrow> (return_code_t \<times> addr option \<times> heap) option" where
  "transaction_create e ssl now out sender recipient amt priv h =
     (case (sender, recipient, priv) of
        (Some s, Some r, Some k) \<Rightarrow>
          if \<not> out then Some (FAILURE_INVALID_INPUT, None, h)
          else (case malloc (DataObj (TransactionObj
                  \<lparr>tx_created_at = now, sender_public_key = s, recipient_public_key = r,
                   amount = amt,
                   sender_signature =
                     \<lparr>sig_length = 0, sig_bytes = replicate MAX_SSH_SIGNATURE_LENGTH 0\<rparr>\<rparr>)) h of
              (new_transaction, h) \<Rightarrow>
                if new_transaction = NULL then Some (FAILURE_COULD_NOT_MALLOC, None, h)
                else do {
                  t \<leftarrow> load_transaction new_transaction h;
                  (return_code, sg) \<leftarrow> transaction_generate_signature e ssl
                    (Some (sender_signature t)) new_transaction (Some k) h;
                  if return_code \<noteq> SUCCESS then Some (return_code, None, h)
                  else do {
                    sg \<leftarrow> sg;
                    h \<leftarrow> store_obj new_transaction
                           (DataObj (TransactionObj (t\<lparr>sender_signature := sg\<rparr>))) h;
                    Some (return_code, Some new_transaction, h)
                  }
                })
      | _ \<Rightarrow> Some (FAILURE_INVALID_INPUT, None, h))"

definition transaction_destroy :: "addr \<Rightarrow> heap \<Rightarrow> (return_code_t \<times> heap) option" where
  "transaction_destroy transaction h =
     (if transaction = NULL then Some (FAILURE_INVALID_INPUT, h)
      else do {
        h \<leftarrow> mem_free transaction h;
        Some (SUCCESS, h)
      })"

definition transaction_verify_signature ::
  "endianness \<Rightarrow> openssl \<Rightarrow> bool \<Rightarrow> addr \<Rightarrow> heap \<Rightarrow> (return_code_t \<times> bool option) option" where
  "transaction_verify_signature e ssl out transaction h =
     (if \<not> out \<or> transaction = NULL then Some (FAILURE_INVALID_INPUT, None)
      else do {
        t \<leftarrow> load_transaction transaction h;
        if \<not> bio_new_ok ssl then Some (FAILURE_OPENSSL_FUNCTION, None)
        else (case pem_read_public_key ssl (sender_public_key t) of
            None \<Rightarrow> Some (FAILURE_OPENSSL_FUNCTION, None)
          | Some public_key \<Rightarrow>
              if \<not> md_ctx_new_ok ssl then Some (FAILURE_OPENSSL_FUNCTION, None)
              else if \<not> verify_init_ok ssl then Some (FAILURE_OPENSSL_FUNCTION, None)
              else if \<not> verify_update_ok ssl then Some (FAILURE_OPENSSL_FUNCTION, None)
              else do {
                s \<leftarrow> load_bytes (sig_bytes (sender_signature t)) 0
                       (unat (sig_length (sender_signature t)));
                Some (SUCCESS, Some (verify_final ssl public_key (signed_bytes e t) s = 1))
              })
      })"

section \<open>The signed part of a transaction\<close>

lemma length_transaction_bytes: "wf_transaction t \<Longrightarrow> length (transaction_bytes e t) = 8728"
  by (simp add: transaction_bytes_def wf_transaction_def)

lemma signed_bytes_eq:
  "wf_transaction t \<Longrightarrow>
   signed_bytes e t =
     host_bytes e (tx_created_at t) @ sender_public_key t @ recipient_public_key t @
     host_bytes e (amount t)"
  by (simp add: signed_bytes_def transaction_bytes_def size_without_signature_def wf_transaction_def)

lemma host_bytes_u64_inj:
  assumes "host_bytes e (x :: u64) = host_bytes e y"
  shows "x = y"
proof -
  from assms have "host_word e (host_bytes e x) = (host_word e (host_bytes e y) :: u64)"
    by (rule arg_cong)
  then show ?thesis by (simp add: host_word_host_bytes)
qed

text \<open>
  The bytes that are signed determine every field but the signature: two transactions of
  the declared layout with the same signed bytes agree on creation time, sender, recipient
  and amount.
\<close>

lemma signed_bytes_cover_all_fields:
  assumes "wf_transaction t" "wf_transaction t'" "signed_bytes e t = signed_bytes e t'"
  shows "tx_created_at t = tx_created_at t' \<and> sender_public_key t = sender_public_key t' \<and>
    recipient_public_key t = recipient_public_key t' \<and> amount t = amount t'"
proof -
  have "host_bytes e (tx_created_at t) = host_bytes e (tx_created_at t') \<and>
      sender_public_key t = sender_public_key t' \<and>
      recipient_public_key t = recipient_public_key t' \<and>
      host_bytes e (amount t) = host_bytes e (amount t')"
    using assms(3) unfolding signed_bytes_eq [OF assms(1)] signed_bytes_eq [OF assms(2)]
    using assms(1,2) by (simp add: wf_transaction_def)
  then show ?thesis by (blast dest: host_bytes_u64_inj)
qed

definition zero_transaction :: transaction_t where
  "zero_transaction =
     \<lparr>tx_created_at = 0, sender_public_key = replicate 4096 0,
      recipient_public_key = replicate 4096 0, amount = 1,
      sender_signature = \<lparr>sig_length = 0, sig_bytes = replicate 512 0\<rparr>\<rparr>"

lemma wf_zero_transaction: "wf_transaction zero_transaction"
  by (simp add: wf_transaction_def zero_transaction_def)

lemma transaction_bytes_inj:
  assumes "wf_transaction t" "wf_transaction t'" "transaction_bytes e t = transaction_bytes e t'"
  shows "t = t'"
proof -
  have "host_bytes e (tx_created_at t) = host_bytes e (tx_created_at t') \<and>
      sender_public_key t = sender_public_key t' \<and>
      recipient_public_key t = recipient_public_key t' \<and>
      host_bytes e (amount t) = host_bytes e (amount t') \<and>
      host_bytes e (sig_length (sender_signature t)) = host_bytes e (sig_length (sender_signature t')) \<and>
      sig_bytes (sender_signature t) = sig_bytes (sender_signature t')"
    using assms by (simp add: transaction_bytes_def wf_transaction_def)
  then show ?thesis
    by (intro transaction_t.equality ssh_signature_t.equality) (auto dest: host_bytes_u64_inj)
qed

section \<open>Signing and verifying\<close>

text \<open>Verification depends on the transaction's contents only.\<close>

definition signature_check :: "endianness \<Rightarrow> openssl \<Rightarrow> transaction_t \<Rightarrow> (return_code_t \<times> bool option) option" where
  "signature_check e ssl t =
     (if \<not> bio_new_ok ssl then Some (FAILURE_OPENSSL_FUNCTION, None)
      else (case pem_read_public_key ssl (sender_public_key t) of
          None \<Rightarrow> Some (FAILURE_OPENSSL_FUNCTION, None)
        | Some k \<Rightarrow>
            if \<not> md_ctx_new_ok ssl \<or> \<not> verify_init_ok ssl \<or> \<not> verify_update_ok ssl
            then Some (FAILURE_OPENSSL_FUNCTION, None)
            else map_option (\<lambda>s. (SUCCESS, Some (verify_final ssl k (signed_bytes e t) s = 1)))
                   (load_bytes (sig_bytes (sender_signature t)) 0
                     (unat (sig_length (sender_signature t))))))"

lemma verify_signature_eq:
  "load_transaction a h = Some t \<Longrightarrow> a \<noteq> NULL \<Longrightarrow>
   transaction_verify_signature e ssl True a h = signature_check e ssl t"
  by (auto simp: transaction_verify_signature_def signature_check_def map_conv_bind_option comp_def
      split: option.splits)

text \<open>The signature buffer starts with the signature, and its length is recorded.\<close>

lemma generate_signature_key_pair:
  assumes ready: "openssl_ready ssl" and keys: "key_pair ssl priv pub"
    and t: "load_transaction a h = Some t" "a \<noteq> NULL"
    and sg: "length (sig_bytes sg) = MAX_SSH_SIGNATURE_LENGTH"
  obtains s p where
    "transaction_generate_signature e ssl (Some sg) a (Some priv) h =
       Some (SUCCESS, Some \<lparr>sig_length = of_nat (length s),
         sig_bytes = s @ drop (length s) (sig_bytes sg)\<rparr>)"
    "length s \<le> MAX_SSH_SIGNATURE_LENGTH" "pem_read_public_key ssl pub = Some p"
    "verify_final ssl p (signed_bytes e t) s = 1"
proof -
  from keys obtain k p where k: "pem_read_private_key ssl priv = Some k"
    "pem_read_public_key ssl pub = Some p" "pkey_is_rsa ssl k" "sign_init_ok ssl k"
    and sign: "\<And>m. \<exists>s n. sign_length ssl k m = Some n \<and> sign_final ssl k m = Some s \<and>
      length s \<le> MAX_SSH_SIGNATURE_LENGTH \<and> verify_final ssl p m s = 1"
    unfolding key_pair_def by blast
  from sign [of "signed_bytes e t"] obtain s n where s: "sign_length ssl k (signed_bytes e t) = Some n"
    "sign_final ssl k (signed_bytes e t) = Some s"
    "length s \<le> MAX_SSH_SIGNATURE_LENGTH" "verify_final ssl p (signed_bytes e t) s = 1" by blast
  have "transaction_generate_signature e ssl (Some sg) a (Some priv) h =
      Some (SUCCESS, Some \<lparr>sig_length = of_nat (length s),
        sig_bytes = s @ drop (length s) (sig_bytes sg)\<rparr>)"
    using ready k s(1-3) t sg
    by (simp add: transaction_generate_signature_def openssl_ready_def store_bytes_def)
  with that s k show ?thesis by blast
qed

lemma transaction_create_signed:
  assumes "heap_ok h" "malloc_ok h (brk h)" "openssl_ready ssl" "key_pair ssl priv sender"
    and "length sender = MAX_SSH_KEY_LENGTH" "length recipient = MAX_SSH_KEY_LENGTH"
  shows "\<exists>h' a t. transaction_create e ssl now True (Some sender) (Some recipient) amt (Some priv) h =
      Some (SUCCESS, Some a, h') \<and>
    own_transaction h' a {a} t \<and> a = Suc (brk h) \<and> brk h' = a \<and> same_except {a} h h' \<and> heap_ok h' \<and>
    wf_transaction t \<and> tx_created_at t = now \<and> sender_public_key t = sender \<and>
    recipient_public_key t = recipient \<and> amount t = amt \<and>
    sig_length (sender_signature t) \<le> 512 \<and>
    signature_check e ssl t = Some (SUCCESS, Some True)"
proof -
  let ?a = "Suc (brk h)"
  let ?sg = "\<lparr>sig_length = 0, sig_bytes = replicate MAX_SSH_SIGNATURE_LENGTH 0\<rparr> :: ssh_signature_t"
  let ?t = "\<lparr>tx_created_at = now, sender_public_key = sender, recipient_public_key = recipient,
    amount = amt, sender_signature = ?sg\<rparr>"
  let ?h = "h\<lparr>brk := ?a, store := (store h)(?a \<mapsto> DataObj (TransactionObj ?t))\<rparr>"
  have t: "load_transaction ?a ?h = Some ?t"
    by (simp add: load_transaction_store)
  obtain s p where s: "transaction_generate_signature e ssl (Some ?sg) ?a (Some priv) ?h =
       Some (SUCCESS, Some \<lparr>sig_length = of_nat (length s), sig_bytes = s @ drop (length s) (sig_bytes ?sg)\<rparr>)"
    "length s \<le> MAX_SSH_SIGNATURE_LENGTH" "pem_read_public_key ssl sender = Some p"
    "verify_final ssl p (signed_bytes e ?t) s = 1"
    by (rule generate_signature_key_pair [OF assms(3,4) t, where e = e and sg = ?sg]) simp_all
  let ?sg' = "\<lparr>sig_length = of_nat (length s), sig_bytes = s @ drop (length s) (sig_bytes ?sg)\<rparr>"
  let ?t' = "?t\<lparr>sender_signature := ?sg'\<rparr>"
  let ?h' = "?h\<lparr>store := (store ?h)(?a \<mapsto> DataObj (TransactionObj ?t'))\<rparr>"
  have create: "transaction_create e ssl now True (Some sender) (Some recipient) amt (Some priv) h =
      Some (SUCCESS, Some ?a, ?h')"
    using assms(2) t s(1) by (simp add: transaction_create_def malloc_eq store_obj_def)
  have wf: "wf_transaction ?t" "wf_transaction ?t'"
    using assms(5,6) s(2) by (simp_all add: wf_transaction_def)
  have "signature_check e ssl ?t' = Some (SUCCESS, Some True)"
    using assms(3) s(2-4) signed_bytes_eq [OF wf(1), of e] signed_bytes_eq [OF wf(2), of e]
    by (simp add: signature_check_def openssl_ready_def load_bytes_def)
  moreover have "(of_nat (length s) :: u64) \<le> 512"
    using s(2) by (simp add: word_le_nat_alt)
  ultimately show ?thesis
    using create wf(2) assms(1) heap_ok_alloc [of h]
    by (intro exI [of _ ?h'] exI [of _ ?a] exI [of _ ?t'])
      (simp add: own_transaction_def same_except_def)
qed

text \<open>
  C26. A transaction created with a matching key pair is well-formed, carries the given
  fields, and its signature verifies; nothing else on the heap changes.
\<close>

theorem transaction_create_verifies:
  assumes "heap_ok h" "malloc_ok h (brk h)" "openssl_ready ssl" "key_pair ssl priv sender"
    and "length sender = MAX_SSH_KEY_LENGTH" "length recipient = MAX_SSH_KEY_LENGTH"
  shows "\<exists>h' a t. transaction_create e ssl now True (Some sender) (Some recipient) amt (Some priv) h =
      Some (SUCCESS, Some a, h') \<and>
    own_transaction h' a {a} t \<and> a = Suc (brk h) \<and> brk h' = a \<and> same_except {a} h h' \<and> heap_ok h' \<and>
    wf_transaction t \<and> tx_created_at t = now \<and> sender_public_key t = sender \<and>
    recipient_public_key t = recipient \<and> amount t = amt \<and>
    sig_length (sender_signature t) \<le> 512 \<and>
    transaction_verify_signature e ssl True a h' = Some (SUCCESS, Some True)"
  using transaction_create_signed [OF assms, of e now amt] own_transaction_load verify_signature_eq
  by (force simp: own_transaction_def)

text \<open>A concrete instance of the OpenSSL functions and an empty heap, for the witnesses.\<close>

definition example_openssl :: openssl where
  "example_openssl =
     \<lparr>bio_new_ok = True, md_ctx_new_ok = True,
      pem_read_private_key = (\<lambda>bs. Some 7), pem_read_public_key = (\<lambda>bs. Some 7),
      pkey_is_rsa = (\<lambda>k. k = 7), sign_init_ok = (\<lambda>k. True), sign_update_ok = True,
      sign_length = (\<lambda>k m. Some 1), sign_final = (\<lambda>k m. Some [of_nat k]),
      verify_init_ok = True, verify_update_ok = True,
      verify_final = (\<lambda>p m s. if s = [of_nat p] then 1 else 0),
      sha256 = (\<lambda>m. replicate 32 0)\<rparr>"

definition empty_heap :: heap where
  "empty_heap = \<lparr>store = Map.empty, brk = 0, malloc_ok = (\<lambda>_. True), junk = 0xAB\<rparr>"

lemma empty_heap_simps [simp]:
  "heap_ok empty_heap" "malloc_ok empty_heap n" "brk empty_heap = 0" "store empty_heap a = None"
  by (simp_all add: empty_heap_def heap_ok_def)

lemma example_openssl_ok:
  "openssl_ready example_openssl" "key_pair example_openssl k k'" "digest_ok example_openssl"
  by (simp_all add: openssl_ready_def key_pair_def digest_ok_def example_openssl_def)

theorem transaction_create_verifies_witness:
  "\<exists>h' a t. transaction_create Little example_openssl 5 True (Some (replicate 4096 1))
      (Some (replicate 4096 2)) 9 (Some []) empty_heap = Some (SUCCESS, Some a, h') \<and>
    amount t = 9 \<and> own_transaction h' a {a} t \<and>
    transaction_verify_signature Little example_openssl True a h' = Some (SUCCESS, Some True)"
proof -
  have "length (replicate 4096 (1 :: byte)) = MAX_SSH_KEY_LENGTH"
    "length (replicate 4096 (2 :: byte)) = MAX_SSH_KEY_LENGTH" by simp_all
  from transaction_create_verifies [OF empty_heap_simps(1,2) example_openssl_ok(1,2) this,
      where e = Little and now = 5 and amt = 9 and priv = "[]"]
  show ?thesis by blast
qed

section \<open>Failures\<close>

text \<open>
  \<open>transaction_create\<close> hands out a transaction only on success: with any arguments,
  any OpenSSL behaviour and any allocator, a returned failure code comes with no transaction,
  and success with exactly one new object holding a signature that fits its array.
\<close>

lemma transaction_create_outcome:
  assumes "transaction_create e ssl now out sender recipient amt priv h = Some (rc, res, h')"
  shows "(rc = SUCCESS \<longleftrightarrow> res \<noteq> None) \<and>
    (\<forall>a. res = Some a \<longrightarrow> a = Suc (brk h) \<and>
      (\<exists>t. load_transaction a h' = Some t \<and> amount t = amt \<and> tx_created_at t = now \<and>
         Some (sender_public_key t) = sender \<and> Some (recipient_public_key t) = recipient \<and>
         length (sig_bytes (sender_signature t)) = MAX_SSH_SIGNATURE_LENGTH \<and>
         unat (sig_length (sender_signature t)) \<le> MAX_SSH_SIGNATURE_LENGTH))"
  using assms
  by (auto simp: transaction_create_def transaction_generate_signature_def malloc_eq bind_Some_iff
      load_transaction_store store_obj_def store_bytes_def
      split: option.splits if_splits prod.splits)

text \<open>
  A private key that does not parse makes \<open>transaction_create\<close> fail, and the
  transaction object it has allocated is still live afterwards although no pointer to it is
  returned: the failure path leaks it.
\<close>

lemma transaction_create_leaks_on_bad_key:
  assumes "malloc_ok h (brk h)" "pem_read_private_key ssl priv = None"
  shows "\<exists>h'. transaction_create e ssl now True (Some s) (Some r) amt (Some priv) h =
      Some (FAILURE_OPENSSL_FUNCTION, None, h') \<and> store h' (Suc (brk h)) \<noteq> None"
  using assms
  by (simp add: transaction_create_def malloc_eq transaction_generate_signature_def
      load_transaction_store)



section \<open>Releasing a transaction\<close>

lemma transaction_destroy_eq:
  "own_transaction h a F t \<Longrightarrow> transaction_destroy a h = Some (SUCCESS, free_all F h)"
  by (auto simp: own_transaction_def transaction_destroy_def mem_free_eq)

end
