(* ===== verification/Block.thy ===== *)
theory Block imports Transaction begin

text \<open>
  Blocks (\<^verbatim>\<open>src/block.c\<close>): creation, the genesis block, destruction, and the hash of a
  block's contents.

  The free function of a transaction list is \<open>transaction_destroy\<close> or \<open>free\<close>;
  \<open>leaf_free\<close> gives both their meaning, and \<open>app_free\<close> adds
  \<open>block_destroy\<close>, the free function of a block list.
\<close>

section \<open>Operations\<close>

definition leaf_free :: "app_obj free_call" where
  "leaf_free f d h =
     (case f of
        FREE \<Rightarrow> mem_free d h
      | TRANSACTION_DESTROY \<Rightarrow> map_option snd (transaction_destroy d h)
      | BLOCK_DESTROY \<Rightarrow> None)"

definition block_create ::
  "bool \<Rightarrow> addr \<Rightarrow> u64 \<Rightarrow> sha_256_t \<Rightarrow> u64 \<Rightarrow> heap \<Rightarrow> return_code_t \<times> addr option \<times> heap" where
  "block_create out tx_list pow prev now h =
     (if \<not> out \<or> tx_list = NULL then (FAILURE_INVALID_INPUT, None, h)
      else (case malloc (DataObj (BlockObj
               \<lparr>block_created_at = now, transaction_list = tx_list, proof_of_work = pow,
                previous_block_hash = prev\<rparr>)) h of
          (new_block, h) \<Rightarrow>
            if new_block = NULL then (FAILURE_COULD_NOT_MALLOC, None, h)
            else (SUCCESS, Some new_block, h)))"

definition block_create_genesis_block ::
  "bool \<Rightarrow> u64 \<Rightarrow> heap \<Rightarrow> return_code_t \<times> addr option \<times> heap" where
  "block_create_genesis_block out now h =
     (if \<not> out then (FAILURE_INVALID_INPUT, None, h)
      else (case linked_list_create True (Some TRANSACTION_DESTROY) None h of
          (return_code, tx_list, h) \<Rightarrow>
            if return_code \<noteq> SUCCESS then (return_code, None, h)
            else block_create True (out_ptr tx_list) GENESIS_BLOCK_PROOF_OF_WORK
                   (replicate SHA256_DIGEST_LENGTH 0) now h))"

definition block_destroy :: "addr \<Rightarrow> heap \<Rightarrow> (return_code_t \<times> heap) option" where
  "block_destroy block h =
     (if block = NULL then Some (FAILURE_INVALID_INPUT, h)
      else do {
        b \<leftarrow> load_block block h;
        (return_code, h) \<leftarrow> linked_list_destroy leaf_free (transaction_list b) h;
        h \<leftarrow> mem_free block h;
        Some (return_code, h)
      })"

definition app_free :: "app_obj free_call" where
  "app_free f d h =
     (case f of
        BLOCK_DESTROY \<Rightarrow> map_option snd (block_destroy d h)
      | _ \<Rightarrow> leaf_free f d h)"

text \<open>The loop of \<open>EVP_DigestUpdate\<close> over the transactions: the bytes fed to the digest.\<close>

partial_function (option) block_hash_loop ::
  "endianness \<Rightarrow> addr \<Rightarrow> byte list \<Rightarrow> heap \<Rightarrow> byte list option" where
  "block_hash_loop e node digested h =
     (if node = NULL then Some digested
      else do {
        n \<leftarrow> load_node node h;
        t \<leftarrow> load_transaction (node_data n) h;
        block_hash_loop e (node_next n) (digested @ transaction_bytes e t) h
      })"

definition block_hash ::
  "endianness \<Rightarrow> openssl \<Rightarrow> addr \<Rightarrow> bool \<Rightarrow> heap \<Rightarrow> (return_code_t \<times> sha_256_t option) option" where
  "block_hash e ssl block out h =
     (if block = NULL \<or> \<not> out then Some (FAILURE_INVALID_INPUT, None)
      else if \<not> md_ctx_new_ok ssl then None \<comment> \<open>the digest context is used unchecked\<close>
      else do {
        b \<leftarrow> load_block block h;
        l \<leftarrow> load_list (transaction_list b) h;
        m \<leftarrow> block_hash_loop e (head l)
               (host_bytes e (block_created_at b) @ host_bytes e (proof_of_work b) @
                previous_block_hash b) h;
        Some (SUCCESS, Some (sha256 ssl m))
      })"

section \<open>The hashed image of a block value\<close>

definition block_image :: "endianness \<Rightarrow> block_v \<Rightarrow> byte list" where
  "block_image e b =
     host_bytes e (bv_created_at b) @ host_bytes e (bv_proof_of_work b) @
     bv_previous_block_hash b @ concat (map (transaction_bytes e) (bv_transactions b))"

definition hash_of :: "endianness \<Rightarrow> openssl \<Rightarrow> block_v \<Rightarrow> sha_256_t" where
  "hash_of e ssl b = sha256 ssl (block_image e b)"

section \<open>Free functions satisfy the list's contract\<close>

interpretation tx_destroy: owned_free own_transaction leaf_free TRANSACTION_DESTROY
  by unfold_locales (simp add: leaf_free_def transaction_destroy_eq)

interpretation tx_free: owned_free own_transaction leaf_free FREE
  by unfold_locales (auto simp: leaf_free_def own_transaction_def mem_free_eq)

interpretation peer_free: owned_free own_peer leaf_free FREE
  by unfold_locales (auto simp: leaf_free_def own_peer_def mem_free_eq)

lemma transaction_list_destroy_eq:
  "own_transaction_list h l F ts \<Longrightarrow> linked_list_destroy leaf_free l h = Some (SUCCESS, free_all F h)"
  by (auto simp: own_transaction_list_def tx_destroy.destroy_eq tx_free.destroy_eq)

lemma block_destroy_eq:
  assumes "own_block h a F b"
  shows "block_destroy a h = Some (SUCCESS, free_all F h)"
  using assms
proof (rule own_blockE)
  fix l G
  assume *: "a \<noteq> NULL" "a \<notin> G" "F = insert a G"
    "store h a = Some (DataObj (BlockObj
       \<lparr>block_created_at = bv_created_at b, transaction_list = l,
        proof_of_work = bv_proof_of_work b, previous_block_hash = bv_previous_block_hash b\<rparr>))"
    "own_transaction_list h l G (bv_transactions b)"
  have "mem_free a (free_all G h) = Some (free_all F h)"
    using * by (subst mem_free_eq) simp_all
  with * show ?thesis
    by (simp add: block_destroy_def load_block_store transaction_list_destroy_eq)
qed

interpretation blk_destroy: owned_free own_block app_free BLOCK_DESTROY
  by unfold_locales (simp add: app_free_def block_destroy_eq)

section \<open>Hashing\<close>

lemma block_hash_loop_eq:
  "own_seg own_transaction h p F ts NULL \<Longrightarrow>
   block_hash_loop e p acc h = Some (acc @ concat (map (transaction_bytes e) ts))"
proof (induction ts arbitrary: p F acc)
  case Nil
  then show ?case by (simp add: block_hash_loop.simps)
next
  case (Cons t ts)
  from Cons.prems show ?case
    by (rule tx.seg_ConsE)
      (simp add: block_hash_loop.simps [of _ p] own_transaction_load Cons.IH)
qed

lemma block_hash_eq:
  assumes "own_block h a F b" "md_ctx_new_ok ssl"
  shows "block_hash e ssl a True h = Some (SUCCESS, Some (hash_of e ssl b))"
  using assms(1)
proof (rule own_blockE)
  fix l G
  assume *: "a \<noteq> NULL" "own_transaction_list h l G (bv_transactions b)"
    "store h a = Some (DataObj (BlockObj
       \<lparr>block_created_at = bv_created_at b, transaction_list = l,
        proof_of_work = bv_proof_of_work b, previous_block_hash = bv_previous_block_hash b\<rparr>))"
  from *(2) obtain f where "own_ll own_transaction f None h l G (bv_transactions b)"
    by (rule own_transaction_listE)
  then show ?thesis
    by (rule tx.ll_list)
      (simp add: block_hash_def assms(2) *(1,3) load_block_store block_hash_loop_eq
        hash_of_def block_image_def)
qed

text \<open>Lists of chunks of equal length are determined by their concatenation.\<close>

lemma concat_map_inj:
  assumes "\<And>x. x \<in> set xs \<union> set ys \<Longrightarrow> length (f x) = n" "0 < n"
    and "\<And>x y. x \<in> set xs \<Longrightarrow> y \<in> set ys \<Longrightarrow> f x = f y \<Longrightarrow> x = y"
    and "concat (map f xs) = concat (map f ys)"
  shows "xs = ys"
  using assms
proof (induction xs arbitrary: ys)
  case Nil
  then show ?case by (cases ys) auto
next
  case (Cons x xs)
  from Cons.prems obtain y ys' where ys: "ys = y # ys'"
    by (cases ys) auto
  from Cons.prems(4) Cons.prems(1) [of x] Cons.prems(1) [of y]
  have "f x = f y" "concat (map f xs) = concat (map f ys')"
    unfolding ys by simp_all
  moreover have "x = y" using Cons.prems(3) calculation(1) unfolding ys by simp
  moreover have "xs = ys'"
    using Cons.prems calculation(2) unfolding ys by (intro Cons.IH) simp_all
  ultimately show ?case using ys by simp
qed

text \<open>The hashed bytes determine a well-formed block.\<close>

lemma block_image_inj:
  assumes "wf_block b" "wf_block b'" "block_image e b = block_image e b'"
  shows "b = b'"
proof -
  have parts: "host_bytes e (bv_created_at b) = host_bytes e (bv_created_at b')"
    "host_bytes e (bv_proof_of_work b) = host_bytes e (bv_proof_of_work b')"
    "bv_previous_block_hash b = bv_previous_block_hash b'"
    "concat (map (transaction_bytes e) (bv_transactions b)) =
     concat (map (transaction_bytes e) (bv_transactions b'))"
    using assms by (simp_all add: block_image_def wf_block_def)
  have "bv_transactions b = bv_transactions b'"
  proof (rule concat_map_inj [OF _ _ _ parts(4)])
    show "length (transaction_bytes e t) = 8728"
      if "t \<in> set (bv_transactions b) \<union> set (bv_transactions b')" for t
      using that assms(1,2) by (auto simp: wf_block_def length_transaction_bytes)
    show "t = t'" if "t \<in> set (bv_transactions b)" "t' \<in> set (bv_transactions b')"
      "transaction_bytes e t = transaction_bytes e t'" for t t'
      using that assms(1,2) by (auto simp: wf_block_def intro: transaction_bytes_inj)
  qed simp
  with parts show ?thesis
    by (auto intro!: block_v.equality dest: host_bytes_u64_inj)
qed

definition genesis_v :: "u64 \<Rightarrow> block_v" where
  "genesis_v now =
     \<lparr>bv_created_at = now, bv_transactions = [], bv_proof_of_work = GENESIS_BLOCK_PROOF_OF_WORK,
      bv_previous_block_hash = replicate SHA256_DIGEST_LENGTH 0\<rparr>"

lemma wf_genesis_v: "wf_block (genesis_v now)"
  by (simp add: wf_block_def genesis_v_def)

text \<open>
  The hash covers the whole block: two blocks with the same hash are equal in creation time,
  proof of work, previous hash and every field of every transaction, or their different images
  are a SHA-256 collision.
\<close>

lemma block_hash_covers_contents:
  assumes "own_block h a F b" "own_block h' a' F' b'" "wf_block b" "wf_block b'" "md_ctx_new_ok ssl"
    and "block_hash e ssl a True h = block_hash e ssl a' True h'"
  shows "b = b' \<or>
    (block_image e b \<noteq> block_image e b' \<and>
     sha256 ssl (block_image e b) = sha256 ssl (block_image e b'))"
  using assms(6) block_image_inj [OF assms(3,4), of e]
  unfolding block_hash_eq [OF assms(1,5)] block_hash_eq [OF assms(2,5)] hash_of_def by blast

section \<open>Creation\<close>

text \<open>
  Creating the genesis block either yields a block that owns one new empty transaction
  list and holds the genesis constants, or reports that memory ran out.
\<close>

lemma block_create_genesis_block_outcome:
  assumes "heap_ok h"
  shows "(\<exists>h' a. block_create_genesis_block True now h = (SUCCESS, Some a, h') \<and>
      own_block h' a {Suc (brk h), a} (genesis_v now) \<and> a = Suc (Suc (brk h)) \<and> brk h' = a \<and>
      same_except {Suc (brk h), a} h h' \<and> heap_ok h') \<or>
    (\<exists>h'. block_create_genesis_block True now h = (FAILURE_COULD_NOT_MALLOC, None, h') \<and>
      \<not> (malloc_ok h (brk h) \<and> malloc_ok h (Suc (brk h))))"
proof (cases "malloc_ok h (brk h) \<and> malloc_ok h (Suc (brk h))")
  case True
  then show ?thesis
    using assms
    by (auto simp: block_create_genesis_block_def linked_list_create_def block_create_def
        malloc_eq out_ptr_def own_block_def own_transaction_list_def own_ll_def genesis_v_def
        same_except_def heap_ok_def intro: le_SucI)
next
  case False
  then show ?thesis
    by (auto simp: block_create_genesis_block_def linked_list_create_def block_create_def
        malloc_eq out_ptr_def)
qed

end
