(* ===== verification/Wire.thy ===== *)
theory Wire imports Objects begin

text \<open>
  Wire formats: the interface between an encoding and the C code that parses it.

  A parser works on a buffer, the size the caller states for it, and an offset.  It returns
  \<open>None\<close> when the C code would read outside the buffer, \<open>Inl\<close> an error code, or
  \<open>Inr\<close> a value and the next offset.  The locale \<open>wire_parser\<close> states the contract
  of a parser for one encoding: it reads every encoding back, and whatever it accepts is the
  encoding of what it returns.  \<open>slack\<close> is the number of bytes the parser may read
  beyond the stated size.  The contract is lifted once from elements to counted lists; blocks
  and blockchains are instances.
\<close>

section \<open>Parsers\<close>

type_synonym 'a parser =
  "endianness \<Rightarrow> byte list \<Rightarrow> u64 \<Rightarrow> nat \<Rightarrow> (return_code_t + 'a \<times> nat) option"

text \<open>
  \<open>total_read_size = next + n - buffer; if (total_read_size > buffer_size) ...\<close>:
  the sum is converted to 64 bits for the comparison.
\<close>

definition too_small :: "u64 \<Rightarrow> nat \<Rightarrow> nat \<Rightarrow> bool" where
  "too_small buffer_size off n \<longleftrightarrow> (of_nat (off + n) :: u64) > buffer_size"

text \<open>An integer field: the size check, the load and the conversion to host order.\<close>

definition parse_word :: "(endianness \<Rightarrow> 'a::len word \<Rightarrow> 'a word) \<Rightarrow> 'a word parser" where
  "parse_word from_wire e buf buffer_size off =
     (if too_small buffer_size off (LENGTH('a) div 8) then Some (Inl FAILURE_BUFFER_TOO_SMALL)
      else do {
        w \<leftarrow> load_word e buf off;
        Some (Inr (from_wire e w, off + LENGTH('a) div 8))
      })"

definition parse_u64 :: "u64 parser" where
  "parse_u64 = parse_word betoh64"

definition parse_u32 :: "u32 parser" where
  "parse_u32 = parse_word ntoh"

definition parse_u16 :: "u16 parser" where
  "parse_u16 = parse_word ntoh"

text \<open>A byte array of \<open>n\<close> bytes: the size check and the copying loop.\<close>

definition parse_array :: "nat \<Rightarrow> byte list parser" where
  "parse_array n e buf buffer_size off =
     (if too_small buffer_size off n then Some (Inl FAILURE_BUFFER_TOO_SMALL)
      else map_option Inr (load_loop buf off n))"

text \<open>Sequencing: an error ends the parse.\<close>

definition parse_then ::
  "(return_code_t + 'a \<times> nat) option \<Rightarrow> ('a \<Rightarrow> nat \<Rightarrow> (return_code_t + 'b) option) \<Rightarrow>
   (return_code_t + 'b) option" where
  "parse_then m f =
     (case m of None \<Rightarrow> None | Some (Inl rc) \<Rightarrow> Some (Inl rc) | Some (Inr (x, off)) \<Rightarrow> f x off)"

text \<open>A counted sequence of elements.\<close>

fun parse_list :: "'a parser \<Rightarrow> nat \<Rightarrow> 'a list parser" where
  "parse_list parse 0 e buf buffer_size off = Some (Inr ([], off))"
| "parse_list parse (Suc n) e buf buffer_size off =
     parse_then (parse e buf buffer_size off) (\<lambda>x off.
       parse_then (parse_list parse n e buf buffer_size off) (\<lambda>xs off.
         Some (Inr (x # xs, off))))"

section \<open>The contract\<close>

text \<open>The bytes \<open>bs\<close> stand in the buffer at an offset.\<close>

definition holds_at :: "byte list \<Rightarrow> nat \<Rightarrow> byte list \<Rightarrow> bool" where
  "holds_at buf off bs \<longleftrightarrow> load_bytes buf off (length bs) = Some bs"

text \<open>
  A parse that starts at \<open>off\<close> does not leave the buffer, and what it returns is the
  value encoded there.
\<close>

definition sound_parse ::
  "('a \<Rightarrow> byte list) \<Rightarrow> ('a \<Rightarrow> bool) \<Rightarrow> byte list \<Rightarrow> nat \<Rightarrow> nat \<Rightarrow>
   (return_code_t + 'a \<times> nat) option \<Rightarrow> bool" where
  "sound_parse enc shape buf limit off m \<longleftrightarrow>
     (\<exists>r. m = Some r \<and> r \<noteq> Inl SUCCESS \<and>
        (\<forall>x off'. r = Inr (x, off') \<longrightarrow>
           shape x \<and> holds_at buf off (enc x) \<and> off' = off + length (enc x) \<and> off' \<le> limit))"

locale wire_parser =
  fixes enc :: "'a \<Rightarrow> byte list"
    and wf :: "'a \<Rightarrow> bool"
    and shape :: "'a \<Rightarrow> bool"
    and parse :: "'a parser"
    and slack :: nat
  assumes enc_nonempty: "shape x \<Longrightarrow> enc x \<noteq> []"
    and parse_enc:
      "wf x \<Longrightarrow> holds_at buf off (enc x) \<Longrightarrow> off + length (enc x) \<le> unat buffer_size \<Longrightarrow>
       parse e buf buffer_size off = Some (Inr (x, off + length (enc x)))"
    and parse_sound:
      "unat buffer_size + slack \<le> length buf \<Longrightarrow> length buf < 2 ^ 63 \<Longrightarrow> off < 2 ^ 63 \<Longrightarrow>
       sound_parse enc shape buf (unat buffer_size + slack) off (parse e buf buffer_size off)"

section \<open>Composing parsers\<close>

lemma parse_then_simps [codec_simps]:
  "parse_then None f = None"
  "parse_then (Some (Inl rc)) f = Some (Inl rc)"
  "parse_then (Some (Inr (x, off))) f = f x off"
  by (simp_all add: parse_then_def)

lemma parse_then_id: "parse_then m (\<lambda>x off. Some (Inr (x, off))) = m"
  by (auto simp: parse_then_def split: option.split sum.split)

lemma holds_at_Nil [codec_simps]: "holds_at buf off [] \<longleftrightarrow> off \<le> length buf"
  by (simp add: holds_at_def load_bytes_def)

lemma holds_at_append [codec_simps]:
  "holds_at buf off (as @ bs) \<longleftrightarrow> holds_at buf off as \<and> holds_at buf (off + length as) bs"
proof -
  have "take (length as + length bs) (drop off buf) =
      take (length as) (drop off buf) @ take (length bs) (drop (off + length as) buf)"
    by (simp add: take_add add.commute)
  moreover have "length (take (length as) (drop off buf)) = length as"
    if "off + length as \<le> length buf" using that by simp
  ultimately show ?thesis
    by (auto simp: holds_at_def load_bytes_def add.assoc split: if_splits)
qed

lemma holds_at_app: "holds_at (pre @ bs @ post) (length pre) bs"
  by (simp add: holds_at_def load_bytes_app)

lemma holds_at_length: "holds_at buf off bs \<Longrightarrow> off + length bs \<le> length buf"
  by (simp add: holds_at_def load_bytes_def split: if_splits)

lemma sound_parse_mono:
  assumes "sound_parse enc shape buf limit off m" "limit \<le> limit'" "\<And>x. shape x \<Longrightarrow> shape' x"
  shows "sound_parse enc shape' buf limit' off m"
  using assms unfolding sound_parse_def by fastforce

text \<open>
  One field and the rest: \<open>acc\<close> are the bytes of the fields before, from the start
  \<open>off0\<close> of the whole value.
\<close>

lemma sound_parse_then:
  assumes field: "sound_parse enc1 shape1 buf limit off m"
    and acc: "holds_at buf off0 acc" "off = off0 + length acc"
    and rest: "\<And>x. shape1 x \<Longrightarrow> holds_at buf off0 (acc @ enc1 x) \<Longrightarrow>
      off0 + length (acc @ enc1 x) \<le> limit \<Longrightarrow>
      sound_parse enc shape buf limit off0 (f x (off0 + length (acc @ enc1 x)))"
  shows "sound_parse enc shape buf limit off0 (parse_then m f)"
proof -
  from field obtain r where r: "m = Some r" "\<And>x off'. r = Inr (x, off') \<Longrightarrow>
      shape1 x \<and> holds_at buf off (enc1 x) \<and> off' = off + length (enc1 x) \<and> off' \<le> limit"
      "r \<noteq> Inl SUCCESS"
    unfolding sound_parse_def by blast
  show ?thesis
  proof (cases r)
    case (Inl rc)
    with r(1,3) show ?thesis by (simp add: sound_parse_def parse_then_def)
  next
    case (Inr xo)
    obtain x off1 where xo: "xo = (x, off1)" by force
    with r(2) Inr have x: "shape1 x" "holds_at buf off (enc1 x)" "off1 = off + length (enc1 x)"
      "off1 \<le> limit" by auto
    then have "sound_parse enc shape buf limit off0 (f x (off0 + length (acc @ enc1 x)))"
      using acc by (intro rest) (simp_all add: holds_at_append add.assoc)
    with r(1) Inr xo x(3) acc(2) show ?thesis by (simp add: parse_then_def add.assoc)
  qed
qed

lemma sound_parse_done:
  "shape x \<Longrightarrow> holds_at buf off0 (enc x) \<Longrightarrow> off' = off0 + length (enc x) \<Longrightarrow> off' \<le> limit \<Longrightarrow>
   sound_parse enc shape buf limit off0 (Some (Inr (x, off')))"
  by (simp add: sound_parse_def)

lemma sound_parse_error: "rc \<noteq> SUCCESS \<Longrightarrow> sound_parse enc shape buf limit off0 (Some (Inl rc))"
  by (simp add: sound_parse_def)

section \<open>Counted lists\<close>

context wire_parser begin

lemma list_enc:
  assumes "\<forall>x \<in> set xs. wf x" "holds_at buf off (concat (map enc xs))"
    "off + length (concat (map enc xs)) \<le> unat buffer_size"
  shows "parse_list parse (length xs) e buf buffer_size off =
    Some (Inr (xs, off + length (concat (map enc xs))))"
  using assms
proof (induction xs arbitrary: off)
  case Nil
  then show ?case by simp
next
  case (Cons x xs)
  then have "parse e buf buffer_size off = Some (Inr (x, off + length (enc x)))"
    by (intro parse_enc) (simp_all add: codec_simps)
  moreover have "parse_list parse (length xs) e buf buffer_size (off + length (enc x)) =
      Some (Inr (xs, off + length (enc x) + length (concat (map enc xs))))"
    using Cons.prems by (intro Cons.IH) (simp_all add: codec_simps)
  ultimately show ?case by (simp add: codec_simps add.assoc)
qed

lemma list_sound:
  assumes "unat buffer_size + slack \<le> length buf" "length buf < 2 ^ 63" "off \<le> unat buffer_size + slack"
  shows "sound_parse (\<lambda>xs. concat (map enc xs)) (\<lambda>xs. length xs = n \<and> (\<forall>x \<in> set xs. shape x)) buf
    (unat buffer_size + slack) off (parse_list parse n e buf buffer_size off)"
  using assms(3)
proof (induction n arbitrary: off)
  case 0
  then show ?case using assms(1) by (simp add: sound_parse_def codec_simps)
next
  case (Suc n)
  have off: "off < 2 ^ 63" "off \<le> length buf" using Suc.prems assms(1,2) by simp_all
  show ?case unfolding parse_list.simps
  proof (rule sound_parse_then [OF parse_sound [OF assms(1,2) off(1)], where acc = "[]"])
    fix x
    assume x: "shape x" "holds_at buf off ([] @ enc x)"
      "off + length ([] @ enc x) \<le> unat buffer_size + slack"
    show "sound_parse (\<lambda>xs. concat (map enc xs)) (\<lambda>xs. length xs = Suc n \<and> (\<forall>x \<in> set xs. shape x)) buf
        (unat buffer_size + slack) off
        (parse_then (parse_list parse n e buf buffer_size (off + length ([] @ enc x)))
          (\<lambda>xs off. Some (Inr (x # xs, off))))"
      by (rule sound_parse_then [OF Suc.IH [OF x(3)] x(2) refl], rule sound_parse_done)
        (use x(1) in auto)
  qed (use off in \<open>simp_all add: codec_simps\<close>)
qed

text \<open>The parser as one field of a larger parse.\<close>

lemma step:
  assumes "unat buffer_size + sl \<le> length buf" "length buf < 2 ^ 63" "slack \<le> sl"
    and "holds_at buf off0 acc" "off0 + length acc \<le> unat buffer_size + sl"
    and "\<And>x. shape x \<Longrightarrow> holds_at buf off0 (acc @ enc x) \<Longrightarrow>
      off0 + length (acc @ enc x) \<le> unat buffer_size + sl \<Longrightarrow>
      sound_parse enc' shape' buf (unat buffer_size + sl) off0 (f x (off0 + length (acc @ enc x)))"
  shows "sound_parse enc' shape' buf (unat buffer_size + sl) off0
    (parse_then (parse e buf buffer_size (off0 + length acc)) f)"
proof (rule sound_parse_then [OF _ assms(4) refl])
  have "off0 + length acc < 2 ^ 63" "unat buffer_size + slack \<le> length buf" using assms(1-3,5) by simp_all
  then have "sound_parse enc shape buf (unat buffer_size + slack) (off0 + length acc)
      (parse e buf buffer_size (off0 + length acc))"
    using assms(2) by (intro parse_sound)
  then show "sound_parse enc shape buf (unat buffer_size + sl) (off0 + length acc)
      (parse e buf buffer_size (off0 + length acc))"
    by (rule sound_parse_mono) (use assms(3) in simp_all)
qed (rule assms(6))

text \<open>The elements of a list that is accepted fit the buffer, so a huge count is refused.\<close>

lemma list_length_bound: "\<forall>x \<in> set xs. shape x \<Longrightarrow> length xs \<le> length (concat (map enc xs))"
proof (induction xs)
  case (Cons x xs)
  then have "0 < length (enc x)" using enc_nonempty [of x] by simp
  with Cons show ?case by (simp add: Suc_le_eq add_strict_increasing)
qed simp

end

section \<open>Fields\<close>

lemma too_small_iff:
  "off + n < 2 ^ 64 \<Longrightarrow> too_small buffer_size off n \<longleftrightarrow> unat buffer_size < off + n"
  unfolding too_small_def by (rule u64_less_of_nat)

lemma fits: "off + n \<le> unat (buffer_size :: u64) \<Longrightarrow> \<not> too_small buffer_size off n"
  using unsigned_less [of buffer_size, where 'a = nat] by (subst too_small_iff) simp_all

context wire_codec begin

lemma load_wire:
  assumes "load_bytes buf off (LENGTH('a) div 8) = Some bs"
  shows "\<exists>w. load_word e buf off = Some w \<and> be_bytes (from_wire e w) = bs"
proof -
  have "length bs = LENGTH('a) div 8" using assms by (rule load_bytes_length)
  then have "be_bytes (from_wire e (host_word e bs)) = bs"
    by (simp add: load_from_wire be_bytes_be_word whole_bytes)
  with assms show ?thesis by (simp add: load_word_def)
qed

lemma word_enc:
  assumes "holds_at buf off (be_bytes (x :: 'a word))" "off + length (be_bytes x) \<le> unat buffer_size"
  shows "parse_word from_wire e buf buffer_size off = Some (Inr (x, off + length (be_bytes x)))"
  using assms fits [of off "LENGTH('a) div 8" buffer_size]
  by (simp add: parse_word_def load_word_def holds_at_def load_be_bytes)

lemma word_sound:
  assumes "unat buffer_size \<le> length buf" "off < 2 ^ 63" "LENGTH('a) \<le> 64"
  shows "sound_parse (be_bytes :: 'a word \<Rightarrow> byte list) (\<lambda>_. True) buf (unat buffer_size) off
    (parse_word from_wire e buf buffer_size off)"
proof -
  let ?n = "LENGTH('a) div 8"
  have "?n \<le> 8" using assms(3) by simp
  then have "off + ?n < 2 ^ 64" using assms(2) by simp
  then have small: "too_small buffer_size off ?n \<longleftrightarrow> unat buffer_size < off + ?n" by (rule too_small_iff)
  show ?thesis
  proof (cases "unat buffer_size < off + ?n")
    case True
    with small show ?thesis by (simp add: parse_word_def sound_parse_def)
  next
    case False
    then have "load_bytes buf off ?n = Some (take ?n (drop off buf))"
      using assms(1) by (simp add: load_bytes_def)
    from load_wire [OF this, of e] obtain w where
      "load_word e buf off = Some w" "be_bytes (from_wire e w) = take ?n (drop off buf)" by blast
    with small False assms(1) show ?thesis
      by (simp add: parse_word_def sound_parse_def holds_at_def load_bytes_def)
  qed
qed

end

lemma be_bytes_nonempty: "8 \<le> LENGTH('a::len) \<Longrightarrow> be_bytes (x :: 'a word) \<noteq> []"
  using length_be_bytes [of x] by (cases "be_bytes x") auto

interpretation u64_wire: wire_parser "be_bytes :: u64 \<Rightarrow> byte list" "\<lambda>_. True" "\<lambda>_. True" parse_u64 0
  using wire64.word_enc wire64.word_sound
  by unfold_locales (simp_all add: parse_u64_def be_bytes_nonempty)

interpretation u32_wire: wire_parser "be_bytes :: u32 \<Rightarrow> byte list" "\<lambda>_. True" "\<lambda>_. True" parse_u32 0
  using wire32.word_enc wire32.word_sound
  by unfold_locales (simp_all add: parse_u32_def be_bytes_nonempty)

interpretation u16_wire: wire_parser "be_bytes :: u16 \<Rightarrow> byte list" "\<lambda>_. True" "\<lambda>_. True" parse_u16 0
  using wire16.word_enc wire16.word_sound
  by unfold_locales (simp_all add: parse_u16_def be_bytes_nonempty)

lemmas word_parsers = parse_word_def parse_u64_def parse_u32_def parse_u16_def

lemma parse_u64_cases:
  "parse_u64 e buf buffer_size off = None \<or>
   parse_u64 e buf buffer_size off = Some (Inl FAILURE_BUFFER_TOO_SMALL) \<or>
   (\<exists>x. parse_u64 e buf buffer_size off = Some (Inr (x, off + 8)))"
  by (auto simp: word_parsers bind_Some_iff split: option.splits)

lemma parse_array_enc:
  "length bs = n \<Longrightarrow> holds_at buf off bs \<Longrightarrow> off + n \<le> unat buffer_size \<Longrightarrow>
   parse_array n e buf buffer_size off = Some (Inr (bs, off + n))"
  using fits [of off n buffer_size] holds_at_length [of buf off bs]
  by (simp add: parse_array_def load_loop_eq holds_at_def)

lemma load_loop_sound:
  "off + n \<le> length buf \<Longrightarrow> off + n \<le> limit \<Longrightarrow>
   sound_parse id (\<lambda>bs. length bs = n) buf limit off (map_option Inr (load_loop buf off n))"
  by (simp add: load_loop_eq load_bytes_def sound_parse_def holds_at_def)

lemma parse_array_sound:
  assumes "unat buffer_size \<le> length buf" "off < 2 ^ 63" "n \<le> 2 ^ 16"
  shows "sound_parse id (\<lambda>bs. length bs = n) buf (unat buffer_size) off
    (parse_array n e buf buffer_size off)"
proof -
  have "off + n < 2 ^ 64" using assms(2,3) by simp
  then have "too_small buffer_size off n \<longleftrightarrow> unat buffer_size < off + n" by (rule too_small_iff)
  then show ?thesis
    using assms(1) load_loop_sound [of off n buf "unat buffer_size"]
    by (simp add: parse_array_def sound_parse_error)
qed

text \<open>The same with slack, as parts of a larger parse.\<close>

lemma array_sound:
  "unat buffer_size + slack \<le> length buf \<Longrightarrow> off < 2 ^ 63 \<Longrightarrow> n \<le> 2 ^ 16 \<Longrightarrow>
   sound_parse id (\<lambda>bs. length bs = n) buf (unat buffer_size + slack) off
     (parse_array n e buf buffer_size off)"
  by (rule sound_parse_mono [OF parse_array_sound]) simp_all

lemmas u64_step = u64_wire.step [OF _ _ le0]
  and u32_step = u32_wire.step [OF _ _ le0]
  and u16_step = u16_wire.step [OF _ _ le0]

lemma array_step:
  assumes "unat buffer_size + slack \<le> length buf" "length buf < 2 ^ 63" "n \<le> 2 ^ 16"
    and "holds_at buf off0 acc" "off0 + length acc \<le> unat buffer_size + slack"
    and "\<And>bs. length bs = n \<Longrightarrow> holds_at buf off0 (acc @ bs) \<Longrightarrow>
      off0 + length (acc @ bs) \<le> unat buffer_size + slack \<Longrightarrow>
      sound_parse enc shape buf (unat buffer_size + slack) off0 (f bs (off0 + length (acc @ bs)))"
  shows "sound_parse enc shape buf (unat buffer_size + slack) off0
    (parse_then (parse_array n e buf buffer_size (off0 + length acc)) f)"
proof (rule sound_parse_then [OF _ assms(4) refl])
  have "off0 + length acc < 2 ^ 63" using assms(1,2,5) by simp
  then show "sound_parse id (\<lambda>bs. length bs = n) buf (unat buffer_size + slack) (off0 + length acc)
      (parse_array n e buf buffer_size (off0 + length acc))"
    using assms(3) by (rule array_sound [OF assms(1)])
qed (use assms(6) in simp)

text \<open>A parse that starts with a 64-bit field fails at an offset beyond the stated size.\<close>

lemma u64_start:
  assumes "unat buffer_size + slack \<le> length buf" "off < 2 ^ 63"
    and "off \<le> unat buffer_size + slack \<Longrightarrow> sound_parse enc shape buf (unat buffer_size + slack) off
      (parse_then (parse_u64 e buf buffer_size (off + length ([] :: byte list))) f)"
  shows "sound_parse enc shape buf (unat buffer_size + slack) off
    (parse_then (parse_u64 e buf buffer_size off) f)"
proof (cases "off \<le> unat buffer_size + slack")
  case True
  then show ?thesis using assms(3) by simp
next
  case False
  then have "too_small buffer_size off 8" using assms(2) by (subst too_small_iff) simp_all
  then show ?thesis by (simp add: word_parsers parse_then_simps sound_parse_error)
qed

section \<open>What a parse returns has the right shape\<close>

lemma parse_then_Inr:
  "parse_then m f = Some (Inr y) \<longleftrightarrow> (\<exists>x off. m = Some (Inr (x, off)) \<and> f x off = Some (Inr y))"
  by (auto simp: parse_then_def split: option.splits sum.splits)

lemma parse_list_shape:
  assumes "parse_list parse n e buf sz off = Some (Inr (xs, off'))"
    and "\<And>x off off'. parse e buf sz off = Some (Inr (x, off')) \<Longrightarrow> P x"
  shows "length xs = n \<and> (\<forall>x \<in> set xs. P x)"
  using assms(1)
proof (induction n arbitrary: xs off)
  case (Suc n)
  then show ?case using assms(2) by (fastforce simp: parse_then_Inr)
qed simp

lemma parse_array_length: "parse_array n e buf sz off = Some (Inr (bs, off')) \<Longrightarrow> length bs = n"
  by (auto simp: parse_array_def dest: load_loop_length split: if_splits)

end
