(* ===== verification/Buffers.thy ===== *)
theory Buffers imports Wire begin

text \<open>
  What the serialisers and deserialisers share: growing a buffer field by field, and building
  a structure on the heap while reading, with everything released when an error ends the read.
\<close>

section \<open>Growing a buffer\<close>

text \<open>
  The state of the serialiser: the buffer and \<open>size\<close>.  When \<open>realloc\<close> fails, the
  only copy of the old pointer is overwritten with NULL; the error is then returned.
\<close>

type_synonym serializer = "(return_code_t \<times> byte list \<times> u64 \<times> heap) option"

text \<open>
  One step of the serialiser: appends \<open>bs\<close> to the buffer, or fails because memory ran
  out.  Only the allocator's counter changes.
\<close>

definition appends :: "byte list \<Rightarrow> byte list \<Rightarrow> heap \<Rightarrow> serializer \<Rightarrow> bool" where
  "appends bs buf h r \<longleftrightarrow>
     (\<exists>h'. same_except {} h h' \<and>
        (r = Some (SUCCESS, buf @ bs, of_nat (length (buf @ bs)), h') \<or>
         (\<exists>sz. r = Some (FAILURE_COULD_NOT_MALLOC, [], sz, h')) \<and> (\<exists>n. \<not> malloc_ok h n)))"

lemma same_except_brk: "same_except {} h (h\<lparr>brk := Suc (brk h)\<rparr>)"
  by (simp add: same_except_def)

lemma appends_then:
  assumes "appends as buf h m"
    and "\<And>h'. same_except {} h h' \<Longrightarrow>
      appends bs (buf @ as) h' (f SUCCESS (buf @ as) (of_nat (length (buf @ as))) h')"
    and "\<And>sz h'. f FAILURE_COULD_NOT_MALLOC [] sz h' = Some (FAILURE_COULD_NOT_MALLOC, [], sz, h')"
  shows "appends (as @ bs) buf h (Option.bind m (\<lambda>(rc, buf, sz, h). f rc buf sz h))"
proof -
  from assms(1) obtain h' where h': "same_except {} h h'"
    "m = Some (SUCCESS, buf @ as, of_nat (length (buf @ as)), h') \<or>
     (\<exists>sz. m = Some (FAILURE_COULD_NOT_MALLOC, [], sz, h')) \<and> (\<exists>n. \<not> malloc_ok h n)"
    unfolding appends_def by blast
  from h'(2) show ?thesis
  proof
    assume m: "m = Some (SUCCESS, buf @ as, of_nat (length (buf @ as)), h')"
    from assms(2) [OF h'(1)] obtain h'' where "same_except {} h' h''"
      "f SUCCESS (buf @ as) (of_nat (length (buf @ as))) h' =
         Some (SUCCESS, (buf @ as) @ bs, of_nat (length ((buf @ as) @ bs)), h'') \<or>
       (\<exists>sz. f SUCCESS (buf @ as) (of_nat (length (buf @ as))) h' =
         Some (FAILURE_COULD_NOT_MALLOC, [], sz, h'')) \<and> (\<exists>n. \<not> malloc_ok h' n)"
      unfolding appends_def by blast
    moreover from this(1) have "same_except {} h h''"
      using same_except_trans [OF h'(1)] by fastforce
    moreover have "malloc_ok h' = malloc_ok h" using h'(1) by (simp add: same_except_def)
    ultimately show ?thesis unfolding appends_def m by (auto simp: add.assoc)
  next
    assume "(\<exists>sz. m = Some (FAILURE_COULD_NOT_MALLOC, [], sz, h')) \<and> (\<exists>n. \<not> malloc_ok h n)"
    with h'(1) assms(3) show ?thesis unfolding appends_def by auto
  qed
qed

context wire_codec begin

lemma store_next:
  "off = length pre \<Longrightarrow> k + LENGTH('a) div 8 \<le> length R \<Longrightarrow>
   store_word e (pre @ drop k R) off (to_wire e (x :: 'a word)) =
     Some ((pre @ be_bytes x) @ drop (k + LENGTH('a) div 8) R)"
  by (simp add: store_word_def store_to_wire store_bytes_next)

end

lemma store_wire:
  "off = length pre \<Longrightarrow> k + 8 \<le> length R \<Longrightarrow>
   store_word e (pre @ drop k R) off (htobe64 e x) = Some ((pre @ be_bytes x) @ drop (k + 8) R)"
  using wire64.store_next by simp

lemma store_wire_32:
  "off = length pre \<Longrightarrow> k + 4 \<le> length R \<Longrightarrow>
   store_word e (pre @ drop k R) off (hton e (x :: u32)) = Some ((pre @ be_bytes x) @ drop (k + 4) R)"
  using wire32.store_next by simp

lemma store_wire_16:
  "off = length pre \<Longrightarrow> k + 2 \<le> length R \<Longrightarrow>
   store_word e (pre @ drop k R) off (hton e (x :: u16)) = Some ((pre @ be_bytes x) @ drop (k + 2) R)"
  using wire16.store_next by simp

lemmas store_fields = store_wire store_wire_32 store_wire_16 store_loop_next

lemma appends_after:
  assumes "appends bs (buf @ as) h' r" "same_except {} h h'"
  shows "appends (as @ bs) buf h r"
proof -
  have "same_except {} h h''" if "same_except {} h' h''" for h''
    using same_except_trans [OF assms(2) that] by simp
  moreover have "malloc_ok h' = malloc_ok h" using assms(2) by (simp add: same_except_def)
  ultimately show ?thesis using assms(1) unfolding appends_def by (auto simp: add.assoc)
qed

lemma length_concat_const:
  "\<forall>x \<in> set xs. length (f x) = n \<Longrightarrow> length (concat (map f xs)) = n * length xs"
  by (induction xs) simp_all

section \<open>Building and releasing\<close>

text \<open>Exactly the objects \<open>K\<close> are gone.\<close>

definition cleaned :: "addr set \<Rightarrow> heap \<Rightarrow> heap \<Rightarrow> bool" where
  "cleaned K h h' \<longleftrightarrow> same_except {} (free_all K h) h' \<and> heap_ok h'"

text \<open>The objects \<open>K\<close> became \<open>K'\<close> by adding new ones; nothing else changed.\<close>

definition grows :: "addr set \<Rightarrow> heap \<Rightarrow> addr set \<Rightarrow> heap \<Rightarrow> bool" where
  "grows K h K' h' \<longleftrightarrow>
     same_except K' h h' \<and> K \<subseteq> K' \<and> (\<forall>a \<in> K' - K. store h a = None) \<and> heap_ok h'"

lemma grows_refl: "heap_ok h \<Longrightarrow> grows K h K h"
  by (simp add: grows_def)

lemma grows_trans: "grows K h K1 h1 \<Longrightarrow> grows K1 h1 K2 h2 \<Longrightarrow> grows K h K2 h2"
  unfolding grows_def same_except_def by (auto simp: subset_iff)

lemma grows_cleaned:
  assumes "grows K h K1 h1" "cleaned K1 h1 h'"
  shows "cleaned K h h'"
  unfolding cleaned_def
proof
  have h1: "same_except K1 h h1" "K \<subseteq> K1" "\<And>a. a \<in> K1 \<Longrightarrow> a \<notin> K \<Longrightarrow> store h a = None"
    using assms(1) by (auto simp: grows_def)
  have h': "same_except {} (free_all K1 h1) h'" "heap_ok h'" using assms(2) by (auto simp: cleaned_def)
  have "store h' a = store (free_all K h) a" for a
    using h1 same_except_store [OF h'(1), of a] same_except_store [OF h1(1), of a]
    by (cases "a \<in> K1"; cases "a \<in> K") auto
  then show "same_except {} (free_all K h) h'"
    using h1(1) h'(1) by (auto simp: same_except_def)
  show "heap_ok h'" by (fact h'(2))
qed

lemma cleaned_free_all: "heap_ok h \<Longrightarrow> cleaned K h (free_all K h)"
  by (auto simp: cleaned_def)

lemma cleaned_brk: "heap_ok h \<Longrightarrow> cleaned K h (free_all K (h\<lparr>brk := Suc (brk h)\<rparr>))"
  using heap_ok_free_all [OF heap_ok_brk, of h K]
  by (auto simp: cleaned_def same_except_def free_all_store)

lemma grows_brk: "heap_ok h \<Longrightarrow> grows K h K (h\<lparr>brk := Suc (brk h)\<rparr>)"
  by (auto simp: grows_def same_except_def)

lemma grows_alloc:
  assumes "heap_ok h"
  shows "grows K h (insert (Suc (brk h)) K)
    (h\<lparr>brk := Suc (brk h), store := (store h)(Suc (brk h) \<mapsto> v)\<rparr>)"
  using heap_ok_fresh [OF assms] heap_ok_alloc [OF assms] by (auto simp: grows_def same_except_def)

lemma grows_update:
  assumes "heap_ok h" "a \<in> K" "store h a = Some w"
  shows "grows K h K (h\<lparr>store := (store h)(a \<mapsto> v)\<rparr>)"
  using assms heap_ok_update [OF assms(1,3)] by (auto simp: grows_def same_except_def)

lemma cleaned_empty: "cleaned {} h h' \<Longrightarrow> store h' = store h \<and> heap_ok h'"
  by (auto simp: cleaned_def same_except_def fun_eq_iff)

section \<open>Loops that build what a parser reads\<close>

text \<open>
  The result \<open>res\<close> of a loop started with the objects \<open>K\<close> on the heap \<open>h\<close>,
  against the result \<open>r\<close> of the parser: memory ran out and everything is cleaned up, or
  the parser's error is returned and everything is cleaned up, or what was read is on the heap.
\<close>

definition loop_result ::
  "('x \<Rightarrow> addr set \<Rightarrow> heap \<Rightarrow> bool) \<Rightarrow> addr set \<Rightarrow> heap \<Rightarrow> (return_code_t + 'x \<times> nat) option \<Rightarrow>
   (return_code_t \<times> nat \<times> heap) option \<Rightarrow> bool" where
  "loop_result good K h r res \<longleftrightarrow>
     (\<exists>h'. res = Some (FAILURE_COULD_NOT_MALLOC, 0, h') \<and> cleaned K h h' \<and> (\<exists>n. \<not> malloc_ok h n)) \<or>
     (case r of
        None \<Rightarrow> res = None
      | Some (Inl rc) \<Rightarrow> \<exists>h'. res = Some (rc, 0, h') \<and> cleaned K h h' \<and> rc \<noteq> SUCCESS
      | Some (Inr (x, off)) \<Rightarrow> \<exists>h' K'. res = Some (SUCCESS, off, h') \<and> grows K h K' h' \<and> good x K' h')"

lemma loop_result_malloc:
  "res = Some (FAILURE_COULD_NOT_MALLOC, 0, h') \<Longrightarrow> cleaned K h h' \<Longrightarrow> \<not> malloc_ok h n \<Longrightarrow>
   loop_result good K h r res"
  unfolding loop_result_def by blast

lemma grows_malloc_ok: "grows K h K1 h1 \<Longrightarrow> malloc_ok h1 = malloc_ok h"
  by (simp add: grows_def same_except_def)

lemma loop_result_grows:
  assumes "grows K h K1 h1" "loop_result good K1 h1 r res"
  shows "loop_result good K h r res"
  using assms(2) grows_cleaned [OF assms(1)] grows_malloc_ok [OF assms(1)] grows_trans [OF assms(1)]
  unfolding loop_result_def
  by (auto split: option.splits sum.splits)

text \<open>
  Running one part after another: the second starts from the objects and the offset the first
  ended with.
\<close>

lemma loop_result_bind:
  assumes "grows K h K1 h1" "loop_result good' K1 h1 r m"
    and "\<And>x off h2 K2. r = Some (Inr (x, off)) \<Longrightarrow> grows K h K2 h2 \<Longrightarrow> good' x K2 h2 \<Longrightarrow>
      loop_result good K2 h2 (g x off) (f off h2)"
  shows "loop_result good K h (parse_then r g)
    (Option.bind m (\<lambda>(rc, off, h). if rc \<noteq> SUCCESS then Some (rc, off, h) else f off h))"
proof -
  consider (malloc) h' where "m = Some (FAILURE_COULD_NOT_MALLOC, 0, h')" "cleaned K1 h1 h'"
      "\<exists>n. \<not> malloc_ok h1 n"
    | (fault) "r = None" "m = None"
    | (error) rc h' where "r = Some (Inl rc)" "m = Some (rc, 0, h')" "cleaned K1 h1 h'" "rc \<noteq> SUCCESS"
    | (finished) x off h' K' where "r = Some (Inr (x, off))" "m = Some (SUCCESS, off, h')"
      "grows K1 h1 K' h'" "good' x K' h'"
    using assms(2) unfolding loop_result_def by (auto split: option.splits sum.splits)
  then show ?thesis
  proof cases
    case malloc
    then show ?thesis
      using grows_cleaned [OF assms(1) malloc(2)] grows_malloc_ok [OF assms(1)]
      unfolding loop_result_def by auto
  next
    case fault
    then show ?thesis by (simp add: loop_result_def parse_then_simps)
  next
    case error
    then show ?thesis
      using grows_cleaned [OF assms(1)] by (auto simp: loop_result_def parse_then_simps)
  next
    case finished
    have g: "grows K h K' h'" by (rule grows_trans [OF assms(1) finished(3)])
    from assms(3) [OF finished(1) this finished(4)] finished(1,2) show ?thesis
      by (auto simp: parse_then_simps intro: loop_result_grows [OF g])
  qed
qed

lemma loop_result_cons:
  assumes "grows K h K1 h1" "loop_result good' K1 h1 r res"
    and "\<And>x K' h'. good' x K' h' \<Longrightarrow> good (f x) K' h'"
  shows "loop_result good K h (parse_then r (\<lambda>x off. Some (Inr (f x, off)))) res"
proof (rule loop_result_grows [OF assms(1)])
  show "loop_result good K1 h1 (parse_then r (\<lambda>x off. Some (Inr (f x, off)))) res"
    using assms(2,3) unfolding loop_result_def
    by (auto simp: parse_then_def split: option.splits sum.splits) blast
qed

text \<open>Reading before building: an error of the parser makes the code release what it holds.\<close>

lemma loop_result_parse:
  assumes "\<And>rc. r = Some (Inl rc) \<Longrightarrow> rc \<noteq> SUCCESS \<and> (\<exists>h'. abandon rc = Some (rc, 0, h') \<and> cleaned K h h')"
    and "\<And>x off. r = Some (Inr (x, off)) \<Longrightarrow> loop_result good K h (g x off) (build x off)"
  shows "loop_result good K h (parse_then r g)
    (Option.bind r (\<lambda>parsed. case parsed of Inl rc \<Rightarrow> abandon rc | Inr (x, off) \<Rightarrow> build x off))"
proof (cases r)
  case None
  then show ?thesis by (simp add: loop_result_def parse_then_simps)
next
  case (Some parsed)
  then show ?thesis
  proof (cases parsed)
    case (Inl rc)
    with Some assms(1) [of rc] show ?thesis by (auto simp: loop_result_def parse_then_simps)
  next
    case (Inr xo)
    with Some assms(2) [of "fst xo" "snd xo"] show ?thesis by (cases xo) (simp add: parse_then_simps)
  qed
qed

text \<open>A part that ended with an error is not continued.\<close>

lemma bind_stopped:
  "(\<And>rc off h. m = Some (rc, off, h) \<Longrightarrow> rc \<noteq> SUCCESS) \<Longrightarrow>
   Option.bind m (\<lambda>(rc, off, h). if rc \<noteq> SUCCESS then Some (rc, off, h) else f off h) = m"
  by (cases m) auto

text \<open>
  The loops of the deserialisers, \<open>for (idx = 0; idx < n; idx++)\<close>: a round reads one element
  and adds it to what is being built.  \<open>good xs K h\<close> says that the elements \<open>xs\<close>
  are there and own \<open>K\<close>.
\<close>

locale counted_loop =
  fixes parse :: "'x parser"
    and e :: endianness
    and buf :: "byte list"
    and buffer_size :: u64
    and n :: u64
    and round :: "u64 \<Rightarrow> nat \<Rightarrow> heap \<Rightarrow> (return_code_t \<times> nat \<times> heap) option"
    and loop :: "u64 \<Rightarrow> nat \<Rightarrow> heap \<Rightarrow> (return_code_t \<times> nat \<times> heap) option"
    and good :: "'x list \<Rightarrow> addr set \<Rightarrow> heap \<Rightarrow> bool"
  assumes loop_unfold:
      "loop idx off h =
         (if idx < n then
            Option.bind (round idx off h) (\<lambda>(rc, off, h).
              if rc \<noteq> SUCCESS then Some (rc, off, h) else loop (idx + 1) off h)
          else Some (SUCCESS, off, h))"
    and round_result:
      "good xs K h \<Longrightarrow> heap_ok h \<Longrightarrow>
       loop_result (\<lambda>x. good (xs @ [x])) K h (parse e buf buffer_size off) (round idx off h)"
begin

lemma result:
  assumes "good xs K h" "heap_ok h" "unat idx + k = unat n"
  shows "loop_result (\<lambda>ys. good (xs @ ys)) K h (parse_list parse k e buf buffer_size off) (loop idx off h)"
  using assms
proof (induction k arbitrary: xs K h idx off)
  case 0
  then have "\<not> idx < n" by (simp add: word_less_nat_alt)
  with 0 show ?case by (auto simp: loop_unfold [of idx] loop_result_def intro: grows_refl)
next
  case (Suc k)
  have lt: "idx < n" and next_idx: "unat (idx + 1) + k = unat n"
    using Suc.prems(3) unsigned_less [of n, where 'a = nat]
    by (simp_all add: word_less_nat_alt unat_word_ariths)
  have "loop_result (\<lambda>ys. good (xs @ ys)) K h (parse_list parse (Suc k) e buf buffer_size off)
      (Option.bind (round idx off h) (\<lambda>(rc, off, h).
        if rc \<noteq> SUCCESS then Some (rc, off, h) else loop (idx + 1) off h))"
    unfolding parse_list.simps
  proof (rule loop_result_bind [OF grows_refl [OF Suc.prems(2)] round_result [OF Suc.prems(1,2)]])
    fix x off1 h1 K1
    assume *: "grows K h K1 h1" "good (xs @ [x]) K1 h1"
    then have ok: "heap_ok h1" by (simp add: grows_def)
    show "loop_result (\<lambda>ys. good (xs @ ys)) K1 h1
        (parse_then (parse_list parse k e buf buffer_size off1) (\<lambda>ys off. Some (Inr (x # ys, off))))
        (loop (idx + 1) off1 h1)"
      by (rule loop_result_cons [OF grows_refl [OF ok] Suc.IH [OF *(2) ok next_idx]]) simp
  qed
  then show ?case using lt by (simp add: loop_unfold [of idx])
qed

end

end
