(* ===== verification/Networking.thy ===== *)
theory Networking imports Block Buffers begin

text \<open>
  The network protocol (\<^verbatim>\<open>src/networking.c\<close>): the command header, the three commands with
  a payload, and the loops that receive and send a whole buffer.

  A pointer to a command is an \<open>option\<close>; a serialiser that also sets a field of the
  command returns the updated command.  Temporary buffers are values, so their \<open>free\<close>
  leaves no trace.
\<close>

section \<open>Data\<close>

datatype command_t =
    COMMAND_OK
  | COMMAND_ERROR
  | COMMAND_REGISTER_PEER
  | COMMAND_SEND_PEER_LIST
  | COMMAND_SEND_BLOCKCHAIN

primrec command_code :: "command_t \<Rightarrow> u32" where
  "command_code COMMAND_OK = 0"
| "command_code COMMAND_ERROR = 1"
| "command_code COMMAND_REGISTER_PEER = 2"
| "command_code COMMAND_SEND_PEER_LIST = 3"
| "command_code COMMAND_SEND_BLOCKCHAIN = 4"

text \<open>The bytes of \<open>"LEO\0"\<close>.\<close>

definition COMMAND_PREFIX :: "byte list" where
  "COMMAND_PREFIX = [0x4C, 0x45, 0x4F, 0]"

record command_header_t =
  command_prefix :: "byte list"
  command :: u32
  command_len :: u64

record command_register_peer_t =
  register_header :: command_header_t
  register_family :: u16
  register_port :: u16
  register_flowinfo :: u32
  register_addr :: "byte list"
  register_scope_id :: u32

record command_send_peer_list_t =
  peer_list_header :: command_header_t
  peer_list_data_len :: u64
  peer_list_data :: "byte list"

record command_send_blockchain_t =
  blockchain_header :: command_header_t
  blockchain_data_len :: u64
  blockchain_data :: "byte list"

text \<open>
  \<open>sizeof(command_header_t)\<close>, and \<open>sizeof(command_register_peer_t)\<close> with the four
  bytes of padding that align it to eight.
\<close>

abbreviation (input) HEADER_SIZE :: nat where
  "HEADER_SIZE \<equiv> 16"

abbreviation (input) REGISTER_PEER_SIZE :: nat where
  "REGISTER_PEER_SIZE \<equiv> 48"

section \<open>The header\<close>

text \<open>The loop that compares the prefix with the protocol's and copies it.\<close>

fun store_prefix_loop ::
  "byte list \<Rightarrow> nat \<Rightarrow> (byte \<times> byte) list \<Rightarrow> (return_code_t + byte list \<times> nat) option" where
  "store_prefix_loop buf off [] = Some (Inr (buf, off))"
| "store_prefix_loop buf off ((b, expected) # rest) =
     (if b \<noteq> expected then Some (Inl FAILURE_INVALID_COMMAND_PREFIX)
      else (case store_bytes buf off [b] of
              None \<Rightarrow> None
            | Some buf \<Rightarrow> store_prefix_loop buf (Suc off) rest))"

definition command_header_serialize ::
  "endianness \<Rightarrow> command_header_t option \<Rightarrow> bool \<Rightarrow> bool \<Rightarrow> heap \<Rightarrow>
   (return_code_t \<times> (byte list \<times> u64) option \<times> heap) option" where
  "command_header_serialize e command_header buffer_out size_out h =
     (case command_header of
        None \<Rightarrow> Some (FAILURE_INVALID_INPUT, None, h)
      | Some header \<Rightarrow>
          if \<not> buffer_out \<or> \<not> size_out then Some (FAILURE_INVALID_INPUT, None, h)
          else (case calloc_buf HEADER_SIZE h of
              (None, h) \<Rightarrow> Some (FAILURE_COULD_NOT_MALLOC, None, h)
            | (Some buf, h) \<Rightarrow>
                (case store_prefix_loop buf 0 (zip (command_prefix header) COMMAND_PREFIX) of
                   None \<Rightarrow> None
                 | Some (Inl return_code) \<Rightarrow> Some (return_code, None, h)
                 | Some (Inr (buf, next)) \<Rightarrow> do {
                     buf \<leftarrow> store_word e buf next (hton e (command header));
                     buf \<leftarrow> store_word e buf (next + 4) (htobe64 e (command_len header));
                     Some (SUCCESS, Some (buf, of_nat HEADER_SIZE), h)
                   })))"

fun parse_prefix_loop :: "byte list \<Rightarrow> nat \<Rightarrow> byte list \<Rightarrow> (return_code_t + byte list \<times> nat) option" where
  "parse_prefix_loop buf off [] = Some (Inr ([], off))"
| "parse_prefix_loop buf off (expected # rest) =
     (if off < length buf then
        (if buf ! off \<noteq> expected then Some (Inl FAILURE_INVALID_COMMAND_PREFIX)
         else parse_then (parse_prefix_loop buf (Suc off) rest) (\<lambda>bs next.
           Some (Inr (buf ! off # bs, next))))
      else None)"

definition parse_prefix :: "byte list parser" where
  "parse_prefix e buf buffer_size next =
     (if too_small buffer_size next (length COMMAND_PREFIX) then Some (Inl FAILURE_BUFFER_TOO_SMALL)
      else parse_prefix_loop buf next COMMAND_PREFIX)"

definition parse_command_header :: "command_header_t parser" where
  "parse_command_header e buf buffer_size next =
     parse_then (parse_prefix e buf buffer_size next) (\<lambda>prefix next.
     parse_then (parse_u32 e buf buffer_size next) (\<lambda>cmd next.
     parse_then (parse_u64 e buf buffer_size next) (\<lambda>len next.
       Some (Inr (\<lparr>command_prefix = prefix, command = cmd, command_len = len\<rparr>, next)))))"

text \<open>
  A deserialiser fills the structure of its caller only on success, from a local copy.
\<close>

definition filled :: "(return_code_t + 'a \<times> nat) option \<Rightarrow> (return_code_t \<times> 'a option) option" where
  "filled m =
     (case m of
        None \<Rightarrow> None
      | Some (Inl return_code) \<Rightarrow> Some (return_code, None)
      | Some (Inr (x, _)) \<Rightarrow> Some (SUCCESS, Some x))"

definition command_header_deserialize ::
  "endianness \<Rightarrow> bool \<Rightarrow> byte list option \<Rightarrow> u64 \<Rightarrow> (return_code_t \<times> command_header_t option) option" where
  "command_header_deserialize e out buffer buffer_size =
     (case buffer of
        None \<Rightarrow> Some (FAILURE_INVALID_INPUT, None)
      | Some buf \<Rightarrow>
          if \<not> out then Some (FAILURE_INVALID_INPUT, None)
          else filled (parse_command_header e buf buffer_size 0))"

section \<open>Registering a peer\<close>

text \<open>\<open>memcpy(dst + off, src, n)\<close>\<close>

definition memcpy_buf :: "byte list \<Rightarrow> nat \<Rightarrow> byte list \<Rightarrow> nat \<Rightarrow> byte list option" where
  "memcpy_buf dst off src n = do { bs \<leftarrow> load_bytes src 0 n; store_bytes dst off bs }"

definition register_peer_payload :: "endianness \<Rightarrow> command_register_peer_t \<Rightarrow> byte list \<Rightarrow> byte list option" where
  "register_peer_payload e cmd buf =
     do {
       buf \<leftarrow> store_word e buf 0 (hton e (register_family cmd));
       buf \<leftarrow> store_word e buf 2 (hton e (register_port cmd));
       buf \<leftarrow> store_word e buf 4 (hton e (register_flowinfo cmd));
       (buf, next) \<leftarrow> store_loop buf 8 (register_addr cmd);
       store_word e buf next (hton e (register_scope_id cmd))
     }"

definition command_register_peer_serialize ::
  "endianness \<Rightarrow> command_register_peer_t option \<Rightarrow> bool \<Rightarrow> bool \<Rightarrow> heap \<Rightarrow>
   (return_code_t \<times> command_register_peer_t option \<times> (byte list \<times> u64) option \<times> heap) option" where
  "command_register_peer_serialize e cmd buffer_out size_out h =
     (case cmd of
        None \<Rightarrow> Some (FAILURE_INVALID_INPUT, cmd, None, h)
      | Some c \<Rightarrow>
          if \<not> buffer_out \<or> \<not> size_out then Some (FAILURE_INVALID_INPUT, cmd, None, h)
          else if command (register_header c) \<noteq> command_code COMMAND_REGISTER_PEER
          then Some (FAILURE_INVALID_COMMAND, cmd, None, h)
          else (let register_peer_size = REGISTER_PEER_SIZE - HEADER_SIZE
            in case calloc_buf register_peer_size h of
                 (None, h) \<Rightarrow> Some (FAILURE_COULD_NOT_MALLOC, cmd, None, h)
               | (Some buf, h) \<Rightarrow> do {
                   payload \<leftarrow> register_peer_payload e c buf;
                   let c = c\<lparr>register_header := (register_header c)
                         \<lparr>command_len := of_nat register_peer_size\<rparr>\<rparr>
                   in do {
                     (return_code, result, h) \<leftarrow>
                       command_header_serialize e (Some (register_header c)) True True h;
                     if return_code \<noteq> SUCCESS then Some (return_code, Some c, None, h)
                     else do {
                       (header_buffer, header_size) \<leftarrow> result;
                       let total_size = header_size + of_nat register_peer_size
                       in (case calloc_buf (unat total_size) h of
                             (None, h) \<Rightarrow> Some (FAILURE_COULD_NOT_MALLOC, Some c, None, h)
                           | (Some total_buffer, h) \<Rightarrow> do {
                               total_buffer \<leftarrow> memcpy_buf total_buffer 0 header_buffer (unat header_size);
                               total_buffer \<leftarrow> memcpy_buf total_buffer (unat header_size) payload register_peer_size;
                               Some (SUCCESS, Some c, Some (total_buffer, total_size), h)
                             })
                     }
                   }
                 }))"

definition parse_register_peer :: "command_register_peer_t parser" where
  "parse_register_peer e buf buffer_size next =
     parse_then (parse_command_header e buf buffer_size next) (\<lambda>header next.
       if command header \<noteq> command_code COMMAND_REGISTER_PEER then Some (Inl FAILURE_INVALID_COMMAND)
       else
         parse_then (parse_u16 e buf buffer_size next) (\<lambda>family next.
         parse_then (parse_u16 e buf buffer_size next) (\<lambda>port next.
         parse_then (parse_u32 e buf buffer_size next) (\<lambda>flowinfo next.
         parse_then (parse_array 16 e buf buffer_size next) (\<lambda>addr next.
         parse_then (parse_u32 e buf buffer_size next) (\<lambda>scope_id next.
           Some (Inr (\<lparr>register_header = header, register_family = family, register_port = port,
                       register_flowinfo = flowinfo, register_addr = addr,
                       register_scope_id = scope_id\<rparr>, next))))))))"

definition command_register_peer_deserialize ::
  "endianness \<Rightarrow> bool \<Rightarrow> byte list option \<Rightarrow> u64 \<Rightarrow>
   (return_code_t \<times> command_register_peer_t option) option" where
  "command_register_peer_deserialize e out buffer buffer_size =
     (case buffer of
        None \<Rightarrow> Some (FAILURE_INVALID_INPUT, None)
      | Some buf \<Rightarrow>
          if \<not> out then Some (FAILURE_INVALID_INPUT, None)
          else filled (parse_register_peer e buf buffer_size 0))"

section \<open>Commands that carry data\<close>

text \<open>
  \<open>command_send_peer_list\<close> and \<open>command_send_blockchain\<close> are written twice in the
  source with the same body; the body is modelled once, for the command \<open>cmd\<close>.  It
  returns the updated header.
\<close>

definition send_data_serialize ::
  "command_t \<Rightarrow> endianness \<Rightarrow> command_header_t \<Rightarrow> u64 \<Rightarrow> byte list \<Rightarrow> heap \<Rightarrow>
   (return_code_t \<times> command_header_t \<times> (byte list \<times> u64) option \<times> heap) option" where
  "send_data_serialize cmd e header data_len data h =
     (if command header \<noteq> command_code cmd then Some (FAILURE_INVALID_COMMAND, header, None, h)
      else (case calloc_buf 8 h of
          (None, h) \<Rightarrow> Some (FAILURE_COULD_NOT_MALLOC, header, None, h)
        | (Some len_buffer, h) \<Rightarrow> do {
            len_buffer \<leftarrow> store_word e len_buffer 0 (htobe64 e data_len);
            let header = header\<lparr>command_len := 8 + data_len\<rparr>
            in do {
              (return_code, result, h) \<leftarrow> command_header_serialize e (Some header) True True h;
              if return_code \<noteq> SUCCESS then Some (return_code, header, None, h)
              else do {
                (header_buffer, header_size) \<leftarrow> result;
                let total_size = header_size + 8 + data_len
                in (case calloc_buf (unat total_size) h of
                      (None, h) \<Rightarrow> Some (FAILURE_COULD_NOT_MALLOC, header, None, h)
                    | (Some total_buffer, h) \<Rightarrow> do {
                        total_buffer \<leftarrow> memcpy_buf total_buffer 0 header_buffer (unat header_size);
                        total_buffer \<leftarrow> memcpy_buf total_buffer (unat header_size) len_buffer 8;
                        total_buffer \<leftarrow> memcpy_buf total_buffer (unat header_size + 8) data (unat data_len);
                        Some (SUCCESS, header, Some (total_buffer, total_size), h)
                      })
              }
            }
          }))"

text \<open>
  \<open>total_read_size += len\<close> is computed modulo \<open>2^64\<close>; a length that makes it wrap
  around is stopped only by the allocation.
\<close>

definition send_data_deserialize ::
  "command_t \<Rightarrow> endianness \<Rightarrow> byte list \<Rightarrow> u64 \<Rightarrow> heap \<Rightarrow>
   (return_code_t \<times> (command_header_t \<times> u64 \<times> byte list) option \<times> heap) option" where
  "send_data_deserialize cmd e buf buffer_size h =
     do {
       parsed \<leftarrow> parse_command_header e buf buffer_size 0;
       case parsed of
         Inl return_code \<Rightarrow> Some (return_code, None, h)
       | Inr (header, next) \<Rightarrow>
           if command header \<noteq> command_code cmd then Some (FAILURE_INVALID_COMMAND, None, h)
           else do {
             parsed \<leftarrow> parse_u64 e buf buffer_size next;
             case parsed of
               Inl return_code \<Rightarrow> Some (return_code, None, h)
             | Inr (data_len, next) \<Rightarrow>
                 if (of_nat next :: u64) + data_len > buffer_size
                 then Some (FAILURE_BUFFER_TOO_SMALL, None, h)
                 else (case calloc_buf (unat data_len) h of
                     (None, h) \<Rightarrow> Some (FAILURE_COULD_NOT_MALLOC, None, h)
                   | (Some _, h) \<Rightarrow> do {
                       (data, next) \<leftarrow> load_loop buf next (unat data_len);
                       Some (SUCCESS, Some (header, data_len, data), h)
                     })
           }
     }"

definition command_send_peer_list_serialize ::
  "endianness \<Rightarrow> command_send_peer_list_t option \<Rightarrow> bool \<Rightarrow> bool \<Rightarrow> heap \<Rightarrow>
   (return_code_t \<times> command_send_peer_list_t option \<times> (byte list \<times> u64) option \<times> heap) option" where
  "command_send_peer_list_serialize e cmd buffer_out size_out h =
     (case cmd of
        None \<Rightarrow> Some (FAILURE_INVALID_INPUT, cmd, None, h)
      | Some c \<Rightarrow>
          if \<not> buffer_out \<or> \<not> size_out then Some (FAILURE_INVALID_INPUT, cmd, None, h)
          else do {
            (return_code, header, result, h) \<leftarrow> send_data_serialize COMMAND_SEND_PEER_LIST e
              (peer_list_header c) (peer_list_data_len c) (peer_list_data c) h;
            Some (return_code, Some (c\<lparr>peer_list_header := header\<rparr>), result, h)
          })"

definition command_send_peer_list_deserialize ::
  "endianness \<Rightarrow> bool \<Rightarrow> byte list option \<Rightarrow> u64 \<Rightarrow> heap \<Rightarrow>
   (return_code_t \<times> command_send_peer_list_t option \<times> heap) option" where
  "command_send_peer_list_deserialize e out buffer buffer_size h =
     (case buffer of
        None \<Rightarrow> Some (FAILURE_INVALID_INPUT, None, h)
      | Some buf \<Rightarrow>
          if \<not> out then Some (FAILURE_INVALID_INPUT, None, h)
          else do {
            (return_code, result, h) \<leftarrow> send_data_deserialize COMMAND_SEND_PEER_LIST e buf buffer_size h;
            Some (return_code, map_option (\<lambda>(header, len, data).
              \<lparr>peer_list_header = header, peer_list_data_len = len, peer_list_data = data\<rparr>) result, h)
          })"

definition command_send_blockchain_serialize ::
  "endianness \<Rightarrow> command_send_blockchain_t option \<Rightarrow> bool \<Rightarrow> bool \<Rightarrow> heap \<Rightarrow>
   (return_code_t \<times> command_send_blockchain_t option \<times> (byte list \<times> u64) option \<times> heap) option" where
  "command_send_blockchain_serialize e cmd buffer_out size_out h =
     (case cmd of
        None \<Rightarrow> Some (FAILURE_INVALID_INPUT, cmd, None, h)
      | Some c \<Rightarrow>
          if \<not> buffer_out \<or> \<not> size_out then Some (FAILURE_INVALID_INPUT, cmd, None, h)
          else do {
            (return_code, header, result, h) \<leftarrow> send_data_serialize COMMAND_SEND_BLOCKCHAIN e
              (blockchain_header c) (blockchain_data_len c) (blockchain_data c) h;
            Some (return_code, Some (c\<lparr>blockchain_header := header\<rparr>), result, h)
          })"

definition command_send_blockchain_deserialize ::
  "endianness \<Rightarrow> bool \<Rightarrow> byte list option \<Rightarrow> u64 \<Rightarrow> heap \<Rightarrow>
   (return_code_t \<times> command_send_blockchain_t option \<times> heap) option" where
  "command_send_blockchain_deserialize e out buffer buffer_size h =
     (case buffer of
        None \<Rightarrow> Some (FAILURE_INVALID_INPUT, None, h)
      | Some buf \<Rightarrow>
          if \<not> out then Some (FAILURE_INVALID_INPUT, None, h)
          else do {
            (return_code, result, h) \<leftarrow> send_data_deserialize COMMAND_SEND_BLOCKCHAIN e buf buffer_size h;
            Some (return_code, map_option (\<lambda>(header, len, data).
              \<lparr>blockchain_header = header, blockchain_data_len = len, blockchain_data = data\<rparr>) result, h)
          })"

section \<open>Whole buffers\<close>

text \<open>
  \<open>recv i n\<close> is the result of the \<open>i\<close>-th call of \<open>recv\<close>, for at most
  \<open>n\<close> bytes: \<open>None\<close> an error, otherwise the bytes delivered (none at the end of the
  stream).  \<open>send i n\<close> is the number of the \<open>n\<close> bytes offered that the
  \<open>i\<close>-th call of \<open>send\<close> accepts.  The count is stored in an \<open>int\<close>; a count
  above \<open>INT_MAX\<close> would be read as a negative number.
\<close>

abbreviation (input) INT_MAX :: nat where
  "INT_MAX \<equiv> 2 ^ 31 - 1"

partial_function (option) recv_all_loop ::
  "(nat \<Rightarrow> nat \<Rightarrow> byte list option) \<Rightarrow> nat \<Rightarrow> nat \<Rightarrow> nat \<Rightarrow> byte list \<Rightarrow>
   (return_code_t \<times> byte list) option" where
  "recv_all_loop recv i total_bytes_recvd len buf =
     (if total_bytes_recvd = len then Some (SUCCESS, buf)
      else (case recv i (len - total_bytes_recvd) of
              None \<Rightarrow> Some (FAILURE_NETWORK_FUNCTION, buf)
            | Some bs \<Rightarrow> do {
                buf \<leftarrow> store_bytes buf total_bytes_recvd bs;
                if length bs > INT_MAX then Some (FAILURE_NETWORK_FUNCTION, buf)
                else recv_all_loop recv (Suc i) (total_bytes_recvd + length bs) len buf
              }))"

definition recv_all ::
  "(nat \<Rightarrow> nat \<Rightarrow> byte list option) \<Rightarrow> byte list option \<Rightarrow> nat \<Rightarrow>
   (return_code_t \<times> byte list option) option" where
  "recv_all recv buf len =
     (case buf of
        None \<Rightarrow> Some (FAILURE_INVALID_INPUT, None)
      | Some buf \<Rightarrow> map_option (\<lambda>(return_code, buf). (return_code, Some buf)) (recv_all_loop recv 0 0 len buf))"

partial_function (option) send_all_loop ::
  "(nat \<Rightarrow> nat \<Rightarrow> nat option) \<Rightarrow> nat \<Rightarrow> nat \<Rightarrow> nat \<Rightarrow> byte list \<Rightarrow> byte list \<Rightarrow>
   (return_code_t \<times> byte list) option" where
  "send_all_loop send i total_bytes_sent len buf sent =
     (if total_bytes_sent = len then Some (SUCCESS, sent)
      else do {
        offered \<leftarrow> load_bytes buf total_bytes_sent (len - total_bytes_sent);
        case send i (len - total_bytes_sent) of
          None \<Rightarrow> Some (FAILURE_NETWORK_FUNCTION, sent)
        | Some n \<Rightarrow>
            let sent = sent @ take n offered
            in if n > INT_MAX then Some (FAILURE_NETWORK_FUNCTION, sent)
               else send_all_loop send (Suc i) (total_bytes_sent + n) len buf sent
      })"

text \<open>The second component is what was put on the wire.\<close>

definition send_all ::
  "(nat \<Rightarrow> nat \<Rightarrow> nat option) \<Rightarrow> byte list option \<Rightarrow> nat \<Rightarrow> (return_code_t \<times> byte list) option" where
  "send_all send buf len =
     (case buf of
        None \<Rightarrow> Some (FAILURE_INVALID_INPUT, [])
      | Some buf \<Rightarrow> send_all_loop send 0 0 len buf [])"

section \<open>The header on the wire\<close>

definition enc_command_header :: "command_header_t \<Rightarrow> byte list" where
  "enc_command_header hdr =
     command_prefix hdr @ be_bytes (command hdr) @ be_bytes (command_len hdr)"

definition wf_header :: "command_header_t \<Rightarrow> bool" where
  "wf_header hdr \<longleftrightarrow> command_prefix hdr = COMMAND_PREFIX"

lemma length_COMMAND_PREFIX [simp]: "length COMMAND_PREFIX = 4"
  by (simp add: COMMAND_PREFIX_def)

lemma length_enc_command_header: "wf_header hdr \<Longrightarrow> length (enc_command_header hdr) = 16"
  by (simp add: enc_command_header_def wf_header_def)

lemma store_prefix_loop_ok:
  "off + length bs \<le> length buf \<Longrightarrow>
   store_prefix_loop buf off (zip bs bs) = map_option Inr (store_loop buf off bs)"
proof (induction bs arbitrary: buf off)
  case Nil
  then show ?case by simp
next
  case (Cons b bs)
  then obtain buf' where buf': "store_bytes buf off [b] = Some buf'" by (simp add: store_bytes_def)
  then have "length buf' = length buf" by (rule store_bytes_length)
  with Cons.prems Cons.IH [of "Suc off" buf'] buf' show ?case by simp
qed

lemma store_prefix_loop_bad:
  "length bs = length cs \<Longrightarrow> bs \<noteq> cs \<Longrightarrow> off + length bs \<le> length buf \<Longrightarrow>
   store_prefix_loop buf off (zip bs cs) = Some (Inl FAILURE_INVALID_COMMAND_PREFIX)"
proof (induction bs cs arbitrary: buf off rule: list_induct2)
  case Nil
  then show ?case by simp
next
  case (Cons b bs c cs)
  then obtain buf' where buf': "store_bytes buf off [b] = Some buf'" by (simp add: store_bytes_def)
  then have "length buf' = length buf" by (rule store_bytes_length)
  with Cons buf' show ?case by auto
qed

lemma header_serialize_eq:
  assumes "wf_header hdr"
  shows "command_header_serialize e (Some hdr) True True h =
    Some (if malloc_ok h (brk h)
      then (SUCCESS, Some (enc_command_header hdr, 16), h\<lparr>brk := Suc (brk h)\<rparr>)
      else (FAILURE_COULD_NOT_MALLOC, None, h\<lparr>brk := Suc (brk h)\<rparr>))"
proof -
  define R where "R = replicate 16 (0 :: byte)"
  then have R: "length R = 16" "R = [] @ drop 0 R" by simp_all
  have "store_prefix_loop R 0 (zip (command_prefix hdr) COMMAND_PREFIX) =
      Some (Inr (COMMAND_PREFIX @ drop 4 R, 4))"
    using assms store_prefix_loop_ok [of 0 COMMAND_PREFIX R] R(1)
      store_loop_next [of 0 "[]" 0 COMMAND_PREFIX R]
    by (simp add: wf_header_def)
  then show ?thesis
    using assms
    by (simp add: command_header_serialize_def calloc_buf_eq R_def [symmetric] store_fields R(1)
        enc_command_header_def wf_header_def del: append_assoc add: append_assoc [symmetric])
qed

lemma parse_prefix_loop_eq:
  "off + length bs \<le> length buf \<Longrightarrow>
   parse_prefix_loop buf off bs =
     (if take (length bs) (drop off buf) = bs then Some (Inr (bs, off + length bs))
      else Some (Inl FAILURE_INVALID_COMMAND_PREFIX))"
proof (induction bs arbitrary: off)
  case Nil
  then show ?case by simp
next
  case (Cons b bs)
  then have "take (Suc (length bs)) (drop off buf) = buf ! off # take (length bs) (drop (Suc off) buf)"
    by (simp add: Cons_nth_drop_Suc [symmetric])
  with Cons.prems Cons.IH [of "Suc off"] show ?case by (auto simp: parse_then_simps)
qed

lemma parse_prefix_sound:
  assumes "unat buffer_size + sl \<le> length buf" "off < 2 ^ 63"
  shows "sound_parse id (\<lambda>bs. bs = COMMAND_PREFIX) buf (unat buffer_size + sl) off
    (parse_prefix e buf buffer_size off)"
proof -
  have "off + 4 < 2 ^ 64" using assms(2) by simp
  then have small: "too_small buffer_size off 4 \<longleftrightarrow> unat buffer_size < off + 4" by (rule too_small_iff)
  show ?thesis
  proof (cases "unat buffer_size < off + 4")
    case True
    with small show ?thesis by (simp add: parse_prefix_def sound_parse_error)
  next
    case False
    then have "off + length COMMAND_PREFIX \<le> length buf" using assms(1) by simp
    from parse_prefix_loop_eq [OF this] small False assms(1) show ?thesis
      by (auto simp: parse_prefix_def sound_parse_def holds_at_def load_bytes_def)
  qed
qed

lemma parse_command_header_enc:
  assumes "wf_header hdr" "holds_at buf off (enc_command_header hdr)"
    "off + length (enc_command_header hdr) \<le> unat buffer_size"
  shows "parse_command_header e buf buffer_size off = Some (Inr (hdr, off + length (enc_command_header hdr)))"
proof -
  have pre: "command_prefix hdr = COMMAND_PREFIX" using assms(1) by (simp add: wf_header_def)
  have bound: "off + 16 \<le> unat buffer_size" using assms(1,3) by (simp add: length_enc_command_header)
  have at: "holds_at buf off COMMAND_PREFIX" "holds_at buf (off + 4) (be_bytes (command hdr))"
    "holds_at buf (8 + off) (be_bytes (command_len hdr))"
    using assms(2) pre by (simp_all add: enc_command_header_def holds_at_append)
  have "parse_prefix_loop buf off COMMAND_PREFIX = Some (Inr (COMMAND_PREFIX, off + 4))"
    using at(1) holds_at_length [OF at(1)]
    by (subst parse_prefix_loop_eq) (auto simp: holds_at_def load_bytes_def)
  then have "parse_prefix e buf buffer_size off = Some (Inr (COMMAND_PREFIX, off + 4))"
    using fits [of off 4 buffer_size] bound by (simp add: parse_prefix_def)
  then show ?thesis
    using bound length_enc_command_header [OF assms(1)] pre
    by (simp add: parse_command_header_def parse_then_simps u32_wire.parse_enc [OF _ at(2)]
        u64_wire.parse_enc [OF _ at(3)])
qed

lemma parse_command_header_sound:
  assumes "unat buffer_size + 0 \<le> length buf" "length buf < 2 ^ 63" "off < 2 ^ 63"
  shows "sound_parse enc_command_header wf_header buf (unat buffer_size + 0) off
    (parse_command_header e buf buffer_size off)"
proof (cases "off \<le> unat buffer_size")
  case False
  then have "too_small buffer_size off 4" using assms(3) by (subst too_small_iff) simp_all
  then show ?thesis
    by (simp add: parse_command_header_def parse_prefix_def parse_then_simps sound_parse_error)
next
  case True
  then have start: "holds_at buf off []" "off = off + length ([] :: byte list)"
    using assms(1) by (simp_all add: holds_at_Nil)
  show ?thesis
    unfolding parse_command_header_def
    apply (rule sound_parse_then [OF parse_prefix_sound [OF assms(1,3)] start])
    apply (rule u32_step [OF assms(1,2)], assumption, assumption)
    apply (rule u64_step [OF assms(1,2)], assumption, assumption)
    apply (rule sound_parse_done; simp add: wf_header_def enc_command_header_def)
    done
qed

interpretation hdr_wire: wire_parser enc_command_header wf_header wf_header parse_command_header 0
proof
  fix hdr
  show "enc_command_header hdr \<noteq> []"
    using u64_wire.enc_nonempty [of "command_len hdr"] by (simp add: enc_command_header_def)
qed (rule parse_command_header_enc parse_command_header_sound; assumption)+

section \<open>Registration on the wire\<close>

definition enc_register_peer :: "command_register_peer_t \<Rightarrow> byte list" where
  "enc_register_peer c =
     enc_command_header (register_header c) @ be_bytes (register_family c) @ be_bytes (register_port c) @
     be_bytes (register_flowinfo c) @ register_addr c @ be_bytes (register_scope_id c)"

definition wf_register_peer :: "command_register_peer_t \<Rightarrow> bool" where
  "wf_register_peer c \<longleftrightarrow>
     wf_header (register_header c) \<and>
     command (register_header c) = command_code COMMAND_REGISTER_PEER \<and> length (register_addr c) = 16"

lemma parse_register_peer_enc:
  assumes "wf_register_peer c" "holds_at buf 0 (enc_register_peer c)" "44 \<le> unat buffer_size"
  shows "parse_register_peer e buf buffer_size 0 = Some (Inr (c, 44))"
proof -
  have wf: "wf_header (register_header c)" "length (register_addr c) = 16"
    "command (register_header c) = command_code COMMAND_REGISTER_PEER"
    using assms(1) by (simp_all add: wf_register_peer_def)
  note len = length_enc_command_header [OF wf(1)]
  have at: "holds_at buf 0 (enc_command_header (register_header c))"
    "holds_at buf 16 (be_bytes (register_family c))" "holds_at buf 18 (be_bytes (register_port c))"
    "holds_at buf 20 (be_bytes (register_flowinfo c))" "holds_at buf 24 (register_addr c)"
    "holds_at buf 40 (be_bytes (register_scope_id c))"
    using assms(2) wf(2) len by (simp_all add: enc_register_peer_def holds_at_append)
  show ?thesis
    using assms(3) wf(3) len
    by (simp add: parse_register_peer_def parse_then_simps hdr_wire.parse_enc [OF wf(1) at(1)]
        u16_wire.parse_enc [OF _ at(2)] u16_wire.parse_enc [OF _ at(3)] u32_wire.parse_enc [OF _ at(4)]
        parse_array_enc [OF wf(2) at(5)] u32_wire.parse_enc [OF _ at(6)])
qed

lemma parse_register_peer_sound:
  assumes "unat buffer_size + 0 \<le> length buf" "length buf < 2 ^ 63"
  shows "sound_parse enc_register_peer wf_register_peer buf (unat buffer_size + 0) 0
    (parse_register_peer e buf buffer_size 0)"
proof -
  have start: "holds_at buf 0 []" "0 + length ([] :: byte list) \<le> unat buffer_size + 0"
    by (simp_all add: holds_at_Nil)
  note u16 = u16_step [OF assms] and u32 = u32_step [OF assms] and arr = array_step [OF assms]
  have "sound_parse enc_register_peer wf_register_peer buf (unat buffer_size + 0) 0
      (parse_register_peer e buf buffer_size (0 + length ([] :: byte list)))"
    unfolding parse_register_peer_def
  proof (rule hdr_wire.step [OF assms le0 start])
    fix hdr
    let ?acc = "[] @ enc_command_header hdr"
    assume hdr: "wf_header hdr" "holds_at buf 0 ?acc" "0 + length ?acc \<le> unat buffer_size + 0"
    show "sound_parse enc_register_peer wf_register_peer buf (unat buffer_size + 0) 0
      (if command hdr \<noteq> command_code COMMAND_REGISTER_PEER then Some (Inl FAILURE_INVALID_COMMAND)
       else
         parse_then (parse_u16 e buf buffer_size (0 + length ?acc)) (\<lambda>family next.
         parse_then (parse_u16 e buf buffer_size next) (\<lambda>port next.
         parse_then (parse_u32 e buf buffer_size next) (\<lambda>flowinfo next.
         parse_then (parse_array 16 e buf buffer_size next) (\<lambda>addr next.
         parse_then (parse_u32 e buf buffer_size next) (\<lambda>scope_id next.
           Some (Inr (\<lparr>register_header = hdr, register_family = family, register_port = port,
             register_flowinfo = flowinfo, register_addr = addr, register_scope_id = scope_id\<rparr>, next))))))))"
    proof (cases "command hdr = command_code COMMAND_REGISTER_PEER")
      case False
      then show ?thesis by (simp add: sound_parse_error)
    next
      case True
      then show ?thesis
        apply (simp only: not_not if_False simp_thms)
        apply (rule u16, rule hdr, rule hdr)
        apply (rule u16, assumption, assumption)
        apply (rule u32, assumption, assumption)
        apply (rule arr, simp, assumption, assumption)
        apply (rule u32, assumption, assumption)
        apply (rule sound_parse_done; use hdr(1) in \<open>simp add: wf_register_peer_def enc_register_peer_def\<close>)
        done
    qed
  qed
  then show ?thesis by simp
qed

lemma register_peer_payload_eq:
  assumes "length (register_addr c) = 16"
  shows "register_peer_payload e c (replicate 32 0) =
    Some (be_bytes (register_family c) @ be_bytes (register_port c) @ be_bytes (register_flowinfo c) @
      register_addr c @ be_bytes (register_scope_id c) @ replicate 4 0)"
proof -
  define R where "R = replicate 32 (0 :: byte)"
  then have R: "length R = 32" and tail: "drop 28 R = replicate 4 0" by simp_all
  have "register_peer_payload e c ([] @ drop 0 R) =
    Some (((((([] @ be_bytes (register_family c)) @ be_bytes (register_port c)) @
      be_bytes (register_flowinfo c)) @ register_addr c) @ be_bytes (register_scope_id c)) @ drop 28 R)"
    using assms R
    by (simp add: register_peer_payload_def store_fields
        del: append_assoc drop0 append_Nil add: append_assoc [symmetric])
  then show ?thesis by (simp add: R_def)
qed

lemma memcpy_buf_next:
  "off = length pre \<Longrightarrow> length src = n \<Longrightarrow> k + n \<le> length R \<Longrightarrow>
   memcpy_buf (pre @ drop k R) off src n = Some ((pre @ src) @ drop (k + n) R)"
  using store_bytes_next [of off pre k src R] by (simp add: memcpy_buf_def load_bytes_def)

lemma register_peer_serialize_eq:
  assumes "wf_register_peer c" "\<forall>n. malloc_ok h n"
  defines "c' \<equiv> c\<lparr>register_header := (register_header c)\<lparr>command_len := 32\<rparr>\<rparr>"
  shows "command_register_peer_serialize e (Some c) True True h =
      Some (SUCCESS, Some c', Some (enc_register_peer c' @ replicate 4 0, 48), h\<lparr>brk := Suc (Suc (Suc (brk h)))\<rparr>)"
    and "wf_register_peer c'" "length (enc_register_peer c') = 44"
proof -
  let ?c = "c\<lparr>register_header := (register_header c)\<lparr>command_len := 32\<rparr>\<rparr>"
  let ?pay = "be_bytes (register_family c) @ be_bytes (register_port c) @ be_bytes (register_flowinfo c) @
    register_addr c @ be_bytes (register_scope_id c) @ replicate 4 0"
  let ?hdr = "enc_command_header (register_header ?c)"
  let ?h = "h\<lparr>brk := Suc (Suc (Suc (brk h)))\<rparr>"
  have wf: "wf_register_peer ?c" "wf_header (register_header ?c)" "length (register_addr c) = 16"
    "command (register_header c) = command_code COMMAND_REGISTER_PEER"
    using assms(1) by (simp_all add: wf_register_peer_def wf_header_def)
  have hlen: "length ?hdr = 16" by (rule length_enc_command_header [OF wf(2)])
  have plen: "length ?pay = 32" using wf(3) by simp
  have copy: "memcpy_buf (replicate 48 0) 0 ?hdr 16 = Some (?hdr @ replicate 32 0)"
    "memcpy_buf (?hdr @ replicate 32 0) 16 ?pay 32 = Some (?hdr @ ?pay)"
    using memcpy_buf_next [of 0 "[]" ?hdr 16 0 "replicate 48 0"] hlen
      memcpy_buf_next [of 16 ?hdr ?pay 32 0 "replicate 32 0"] plen by simp_all
  have "command_register_peer_serialize e (Some c) True True h =
      Some (SUCCESS, Some ?c, Some (?hdr @ ?pay, 48), ?h)"
    using assms(2) wf(3,4) header_serialize_eq [OF wf(2), of e "h\<lparr>brk := Suc (brk h)\<rparr>"] copy
      register_peer_payload_eq [OF wf(3), of e]
    by (simp add: command_register_peer_serialize_def calloc_buf_eq Let_def)
  moreover have "?hdr @ ?pay = enc_register_peer ?c @ replicate 4 0" by (simp add: enc_register_peer_def)
  ultimately show "command_register_peer_serialize e (Some c) True True h =
      Some (SUCCESS, Some c', Some (enc_register_peer c' @ replicate 4 0, 48), ?h)"
    by (simp add: c'_def)
  show "wf_register_peer c'" "length (enc_register_peer c') = 44"
    using wf(1,3) hlen by (simp_all add: c'_def enc_register_peer_def)
qed

text \<open>
  A registration that is serialised on one host is read back on any host with every field
  intact; its header then states the length of the payload, 32 bytes, four of them padding.
\<close>

lemma register_peer_roundtrip:
  assumes "wf_register_peer c" "\<forall>n. malloc_ok h n"
  shows "\<exists>c' buf h'.
    command_register_peer_serialize e (Some c) True True h = Some (SUCCESS, Some c', Some (buf, 48), h') \<and>
    c' = c\<lparr>register_header := (register_header c)\<lparr>command_len := 32\<rparr>\<rparr> \<and> length buf = 48 \<and>
    store h' = store h \<and>
    command_register_peer_deserialize e' True (Some buf) 48 = Some (SUCCESS, Some c')"
proof -
  let ?c = "c\<lparr>register_header := (register_header c)\<lparr>command_len := 32\<rparr>\<rparr>"
  let ?buf = "enc_register_peer ?c @ replicate 4 0"
  note s = register_peer_serialize_eq [OF assms]
  have "holds_at ?buf 0 (enc_register_peer ?c)"
    using holds_at_app [of "[]" "enc_register_peer ?c" "replicate 4 0"] by simp
  then have "command_register_peer_deserialize e' True (Some ?buf) 48 = Some (SUCCESS, Some ?c)"
    using parse_register_peer_enc [OF s(2), of ?buf 48 e']
    by (simp add: command_register_peer_deserialize_def filled_def)
  then show ?thesis using s by auto
qed

definition example_register_peer :: command_register_peer_t where
  "example_register_peer =
     \<lparr>register_header = \<lparr>command_prefix = COMMAND_PREFIX, command = 2, command_len = 0\<rparr>,
      register_family = 10, register_port = 12345, register_flowinfo = 0,
      register_addr = replicate 16 1, register_scope_id = 0\<rparr>"

text \<open>
  Reading a registration from any bytes is safe when the stated size is not larger than
  the buffer: the function returns; it fills the caller's structure exactly on success, and then
  the buffer starts with the encoding of a registration with the protocol's prefix and code.
\<close>

lemma register_peer_arbitrary_bytes:
  assumes "unat buffer_size \<le> length buf" "length buf < 2 ^ 63"
  shows "\<exists>rc res. command_register_peer_deserialize e True (Some buf) buffer_size = Some (rc, res) \<and>
    (case res of
       None \<Rightarrow> rc \<noteq> SUCCESS
     | Some c \<Rightarrow> rc = SUCCESS \<and> wf_register_peer c \<and> take 44 buf = enc_register_peer c \<and>
         44 \<le> unat buffer_size)"
proof -
  from parse_register_peer_sound [of buffer_size buf e] assms obtain r where
    r: "parse_register_peer e buf buffer_size 0 = Some r"
    "\<And>c off. r = Inr (c, off) \<Longrightarrow> wf_register_peer c \<and> holds_at buf 0 (enc_register_peer c) \<and>
       length (enc_register_peer c) \<le> unat buffer_size" "r \<noteq> Inl SUCCESS"
    unfolding sound_parse_def by auto
  have len: "length (enc_register_peer c) = 44" if "wf_register_peer c" for c
    using that by (simp add: wf_register_peer_def enc_register_peer_def length_enc_command_header)
  show ?thesis
  proof (cases r)
    case (Inl rc)
    with r(1,3) show ?thesis by (simp add: command_register_peer_deserialize_def filled_def)
  next
    case (Inr x)
    then obtain c off where x: "r = Inr (c, off)" by (cases x) auto
    from r(2) [OF this] len [of c] have "wf_register_peer c" "take 44 buf = enc_register_peer c"
      "44 \<le> unat buffer_size"
      by (auto simp: holds_at_def load_bytes_def split: if_splits)
    with r(1) x show ?thesis by (simp add: command_register_peer_deserialize_def filled_def)
  qed
qed

end
