(* ===== verification/Networking_Messages.thy ===== *)
theory Networking_Messages imports Networking begin

text \<open>
  What the commands that carry data and the loops over a socket do: the messages on the wire,
  the safety of reading one from any bytes, and the termination of \<open>recv_all\<close> and
  \<open>send_all\<close>.
\<close>

section \<open>Messages that carry data\<close>

definition enc_send_data :: "command_header_t \<Rightarrow> u64 \<Rightarrow> byte list \<Rightarrow> byte list" where
  "enc_send_data hdr len data = enc_command_header hdr @ be_bytes len @ data"

definition wf_send_data :: "command_t \<Rightarrow> command_header_t \<Rightarrow> u64 \<Rightarrow> byte list \<Rightarrow> bool" where
  "wf_send_data cmd hdr len data \<longleftrightarrow>
     wf_header hdr \<and> command hdr = command_code cmd \<and> length data = unat len"

lemma length_enc_send_data:
  "wf_send_data cmd hdr len data \<Longrightarrow> length (enc_send_data hdr len data) = 24 + length data"
  by (simp add: wf_send_data_def enc_send_data_def length_enc_command_header)

lemma unat_24_plus: "unat (len :: u64) + 24 < 2 ^ 64 \<Longrightarrow> unat (24 + len) = 24 + unat len"
  by (simp add: unat_word_ariths)

lemma send_data_serialize_eq:
  assumes "wf_send_data cmd hdr len data" "length data + 24 < 2 ^ 63" "\<forall>n. malloc_ok h n"
  shows "send_data_serialize cmd e hdr len data h =
    Some (SUCCESS, hdr\<lparr>command_len := 8 + len\<rparr>,
      Some (enc_send_data (hdr\<lparr>command_len := 8 + len\<rparr>) len data, 24 + len),
      h\<lparr>brk := Suc (Suc (Suc (brk h)))\<rparr>)"
proof -
  let ?hdr = "hdr\<lparr>command_len := 8 + len\<rparr>"
  let ?enc = "enc_command_header ?hdr"
  have wf: "wf_header ?hdr" "command hdr = command_code cmd" "length data = unat len"
    using assms(1) by (simp_all add: wf_send_data_def wf_header_def)
  note hlen = length_enc_command_header [OF wf(1)]
  have n: "unat (24 + len) = 24 + unat len" using assms(2) wf(3) by (intro unat_24_plus) simp
  define R where "R = replicate (24 + unat len) (0 :: byte)"
  then have R: "length R = 24 + unat len" by simp
  have "store_word e (replicate 8 0) 0 (htobe64 e len) = Some (be_bytes len)"
    using store_wire [of 0 "[]" 0 "replicate 8 0" e len] by simp
  moreover have "memcpy_buf R 0 ?enc 16 = Some (?enc @ drop 16 R)"
    "memcpy_buf (?enc @ drop 16 R) 16 (be_bytes len) 8 = Some ((?enc @ be_bytes len) @ drop 24 R)"
    "memcpy_buf ((?enc @ be_bytes len) @ drop 24 R) 24 data (unat len) =
       Some (((?enc @ be_bytes len) @ data) @ drop (24 + unat len) R)"
    using memcpy_buf_next [of 0 "[]" ?enc 16 0 R] memcpy_buf_next [of 16 ?enc "be_bytes len" 8 16 R]
      memcpy_buf_next [of 24 "?enc @ be_bytes len" data "unat len" 24 R] R hlen wf(3) by simp_all
  ultimately show ?thesis
    using assms(2,3) wf(2,3) R
    by (simp add: send_data_serialize_def calloc_buf_eq header_serialize_eq [OF wf(1)] Let_def n
        R_def [symmetric] enc_send_data_def)
qed

lemma send_data_deserialize_eq:
  assumes "wf_send_data cmd hdr len data" "holds_at buf 0 (enc_send_data hdr len data)"
    "24 + length data \<le> unat buffer_size" "length data < 2 ^ 63" "malloc_ok h (brk h)"
  shows "send_data_deserialize cmd e buf buffer_size h =
    Some (SUCCESS, Some (hdr, len, data), h\<lparr>brk := Suc (brk h)\<rparr>)"
proof -
  have wf: "wf_header hdr" "command hdr = command_code cmd" "length data = unat len"
    using assms(1) by (simp_all add: wf_send_data_def)
  note hlen = length_enc_command_header [OF wf(1)]
  have at: "holds_at buf 0 (enc_command_header hdr)" "holds_at buf 16 (be_bytes len)" "holds_at buf 24 data"
    using assms(2) hlen by (simp_all add: enc_send_data_def holds_at_append)
  have "load_loop buf 24 (unat len) = Some (data, 24 + unat len)"
    using at(3) wf(3) holds_at_length [OF at(3)] by (subst load_loop_eq) (simp_all add: holds_at_def)
  moreover have "\<not> buffer_size < 24 + len"
    using assms(3,4) wf(3) unat_24_plus [of len] by (simp add: word_less_nat_alt)
  ultimately show ?thesis
    using assms(3-5) wf(2,3) hlen
    by (simp add: send_data_deserialize_def hdr_wire.parse_enc [OF wf(1) at(1)]
        u64_wire.parse_enc [OF _ at(2)] calloc_buf_eq)
qed

lemma send_data_roundtrip:
  assumes "wf_send_data cmd hdr len data" "length data + 24 < 2 ^ 63" "\<forall>n. malloc_ok h n"
    "malloc_ok h' (brk h')"
  shows "\<exists>hdr' buf h1.
    send_data_serialize cmd e hdr len data h = Some (SUCCESS, hdr', Some (buf, 24 + len), h1) \<and>
    hdr' = hdr\<lparr>command_len := 8 + len\<rparr> \<and> length buf = unat (24 + len) \<and> store h1 = store h \<and>
    malloc_ok h1 = malloc_ok h \<and>
    send_data_deserialize cmd e' buf (24 + len) h' =
      Some (SUCCESS, Some (hdr', len, data), h'\<lparr>brk := Suc (brk h')\<rparr>)"
proof -
  let ?hdr = "hdr\<lparr>command_len := 8 + len\<rparr>"
  have wf: "wf_send_data cmd ?hdr len data" "length data = unat len"
    using assms(1) by (simp_all add: wf_send_data_def wf_header_def)
  have n: "unat (24 + len) = 24 + unat len" using assms(2) wf(2) by (intro unat_24_plus) simp
  have "holds_at (enc_send_data ?hdr len data) 0 (enc_send_data ?hdr len data)"
    using holds_at_app [of "[]" "enc_send_data ?hdr len data" "[]"] by simp
  then have "send_data_deserialize cmd e' (enc_send_data ?hdr len data) (24 + len) h' =
      Some (SUCCESS, Some (?hdr, len, data), h'\<lparr>brk := Suc (brk h')\<rparr>)"
    using assms(2,4) wf n by (intro send_data_deserialize_eq) simp_all
  then show ?thesis
    using send_data_serialize_eq [OF assms(1-3), of e] length_enc_send_data [OF wf(1)] n wf(2) by auto
qed

text \<open>Writing and reading a message changes no object on the heap.\<close>

lemma header_serialize_frame:
  "command_header_serialize e hdr o1 o2 h = Some (rc, res, h') \<Longrightarrow> same_except {} h h'"
  by (cases "calloc_buf 16 h")
    (auto simp: command_header_serialize_def bind_Some_iff
      split: option.split_asm if_split_asm sum.split_asm dest!: calloc_buf_frame)

lemma send_data_serialize_frame:
  "send_data_serialize cmd e hdr len data h = Some (rc, hdr', res, h') \<Longrightarrow> same_except {} h h'"
  by (auto simp: send_data_serialize_def Let_def
      split: Option.bind_split_asm if_split_asm prod.split_asm option.split_asm dest!: calloc_buf_frame
      header_serialize_frame; blast intro: same_except_empty_trans)

lemma send_data_deserialize_frame:
  "send_data_deserialize cmd e buf sz h = Some (rc, res, h') \<Longrightarrow> same_except {} h h'"
  by (auto simp: send_data_deserialize_def 
      split: Option.bind_split_asm sum.split_asm if_split_asm prod.split_asm option.split_asm dest!: calloc_buf_frame)

lemma send_blockchain_serialize_frame:
  "command_send_blockchain_serialize e cmd o1 o2 h = Some (rc, cmd', res, h') \<Longrightarrow> same_except {} h h'"
  by (auto simp: command_send_blockchain_serialize_def bind_Some_iff
      split: option.split_asm if_split_asm dest!: send_data_serialize_frame)

lemma send_blockchain_deserialize_frame:
  "command_send_blockchain_deserialize e o1 buf sz h = Some (rc, res, h') \<Longrightarrow> same_except {} h h'"
  by (auto simp: command_send_blockchain_deserialize_def bind_Some_iff
      split: option.split_asm if_split_asm dest!: send_data_deserialize_frame)

lemma register_peer_serialize_frame:
  "command_register_peer_serialize e cmd o1 o2 h = Some (rc, cmd', res, h') \<Longrightarrow> same_except {} h h'"
  by (auto simp: command_register_peer_serialize_def Let_def
      split: Option.bind_split_asm if_split_asm prod.split_asm option.split_asm dest!: calloc_buf_frame
      header_serialize_frame; blast intro: same_except_empty_trans)

lemma send_peer_list_serialize_frame:
  "command_send_peer_list_serialize e cmd o1 o2 h = Some (rc, cmd', res, h') \<Longrightarrow> same_except {} h h'"
  by (auto simp: command_send_peer_list_serialize_def bind_Some_iff
      split: option.split_asm if_split_asm dest!: send_data_serialize_frame)

lemma send_peer_list_deserialize_frame:
  "command_send_peer_list_deserialize e o1 buf sz h = Some (rc, res, h') \<Longrightarrow> same_except {} h h'"
  by (auto simp: command_send_peer_list_deserialize_def bind_Some_iff
      split: option.split_asm if_split_asm dest!: send_data_deserialize_frame)

lemma send_data_safe:
  assumes "unat buffer_size \<le> length buf" "length buf < 2 ^ 63"
  shows "\<exists>rc res h'. send_data_deserialize cmd e buf buffer_size h = Some (rc, res, h') \<and>
    store h' = store h \<and>
    (case res of
       None \<Rightarrow> rc \<noteq> SUCCESS
     | Some (hdr, len, data) \<Rightarrow> rc = SUCCESS \<and> wf_send_data cmd hdr len data \<and>
         24 + length data \<le> unat buffer_size \<and> take (24 + length data) buf = enc_send_data hdr len data)"
proof -
  have lim: "unat buffer_size + 0 \<le> length buf" using assms(1) by simp
  from hdr_wire.parse_sound [OF lim assms(2), of 0 e] obtain r where
    r: "parse_command_header e buf buffer_size 0 = Some r" "r \<noteq> Inl SUCCESS"
    "\<And>hdr off. r = Inr (hdr, off) \<Longrightarrow> wf_header hdr \<and> holds_at buf 0 (enc_command_header hdr) \<and>
       off = 0 + length (enc_command_header hdr)"
    unfolding sound_parse_def by auto
  show ?thesis
  proof (cases "\<exists>hdr off. r = Inr (hdr, off) \<and> command hdr = command_code cmd")
    case False
    with r(1,2) show ?thesis by (cases r) (auto simp: send_data_deserialize_def)
  next
    case True
    then obtain hdr off where hdr: "r = Inr (hdr, off)" "command hdr = command_code cmd" by blast
    from r(3) [OF hdr(1)] have h1: "wf_header hdr" "holds_at buf 0 (enc_command_header hdr)" "off = 16"
      by (simp_all add: length_enc_command_header)
    from u64_wire.parse_sound [OF lim assms(2), of 16 e] obtain s where
      s: "parse_u64 e buf buffer_size 16 = Some s" "s \<noteq> Inl SUCCESS"
      "\<And>len off. s = Inr (len, off) \<Longrightarrow> holds_at buf 16 (be_bytes len) \<and> off = 24"
      unfolding sound_parse_def by auto
    show ?thesis
    proof (cases "\<exists>len. s = Inr (len, 24) \<and> \<not> buffer_size < 24 + len \<and> unat len < 2 ^ 63 \<and> malloc_ok h (brk h)")
      case False
      with r(1) s hdr h1(3) show ?thesis
        by (cases s) (force simp: send_data_deserialize_def calloc_buf_def request_def)+
    next
      case True
      then obtain len where len: "s = Inr (len, 24)" "\<not> buffer_size < 24 + len" "unat len < 2 ^ 63"
        "malloc_ok h (brk h)" by blast
      have fits: "24 + unat len \<le> unat buffer_size"
        using len(2,3) unat_24_plus [of len] by (simp add: word_less_nat_alt)
      define data where "data = take (unat len) (drop 24 buf)"
      have data: "load_bytes buf 24 (unat len) = Some data" "length data = unat len"
        using fits assms(1) by (simp_all add: data_def load_bytes_def)
      then have ll: "load_loop buf 24 (unat len) = Some (data, 24 + unat len)"
        using fits assms(1) by (subst load_loop_eq) simp_all
      have "holds_at buf 0 (enc_send_data hdr len data)"
        using h1(2) s(3) [OF len(1)] data length_enc_command_header [OF h1(1)]
        by (simp add: enc_send_data_def holds_at_append) (simp add: holds_at_def)
      moreover have wf: "wf_send_data cmd hdr len data" using h1(1) hdr(2) data(2) by (simp add: wf_send_data_def)
      ultimately have "take (24 + length data) buf = enc_send_data hdr len data"
        using length_enc_send_data [OF wf] by (auto simp: holds_at_def load_bytes_def split: if_splits)
      then show ?thesis
        using r(1) s(1) hdr h1(3) len ll fits wf data(2)
        by (simp add: send_data_deserialize_def calloc_buf_eq)
    qed
  qed
qed

text \<open>
  Reading a message that carries a chain from any bytes is safe: whatever length the message
  states, also one that makes the addition of the code wrap around, nothing is read outside the
  buffer; on success the data are the stated number of bytes behind the header and the length.
\<close>

lemma send_blockchain_arbitrary_bytes:
  assumes "unat buffer_size \<le> length buf" "length buf < 2 ^ 63"
  shows "\<exists>rc res h'. command_send_blockchain_deserialize e True (Some buf) buffer_size h = Some (rc, res, h') \<and>
    store h' = store h \<and>
    (case res of
       None \<Rightarrow> rc \<noteq> SUCCESS
     | Some c \<Rightarrow> rc = SUCCESS \<and>
         wf_send_data COMMAND_SEND_BLOCKCHAIN (blockchain_header c) (blockchain_data_len c) (blockchain_data c) \<and>
         24 + length (blockchain_data c) \<le> unat buffer_size \<and>
         take (24 + length (blockchain_data c)) buf =
           enc_send_data (blockchain_header c) (blockchain_data_len c) (blockchain_data c))"
proof -
  from send_data_safe [OF assms, of COMMAND_SEND_BLOCKCHAIN e h] obtain rc res h' where
    "send_data_deserialize COMMAND_SEND_BLOCKCHAIN e buf buffer_size h = Some (rc, res, h')"
    "store h' = store h"
    "case res of None \<Rightarrow> rc \<noteq> SUCCESS
     | Some (hdr, len, data) \<Rightarrow> rc = SUCCESS \<and> wf_send_data COMMAND_SEND_BLOCKCHAIN hdr len data \<and>
         24 + length data \<le> unat buffer_size \<and> take (24 + length data) buf = enc_send_data hdr len data"
    by blast
  then show ?thesis
    by (cases res) (auto simp: command_send_blockchain_deserialize_def)
qed

text \<open>The same for a message that carries a peer list.\<close>

lemma send_peer_list_arbitrary_bytes:
  assumes "unat buffer_size \<le> length buf" "length buf < 2 ^ 63"
  shows "\<exists>rc res h'. command_send_peer_list_deserialize e True (Some buf) buffer_size h = Some (rc, res, h') \<and>
    store h' = store h \<and>
    (case res of
       None \<Rightarrow> rc \<noteq> SUCCESS
     | Some c \<Rightarrow> rc = SUCCESS \<and>
         wf_send_data COMMAND_SEND_PEER_LIST (peer_list_header c) (peer_list_data_len c) (peer_list_data c) \<and>
         24 + length (peer_list_data c) \<le> unat buffer_size \<and>
         take (24 + length (peer_list_data c)) buf =
           enc_send_data (peer_list_header c) (peer_list_data_len c) (peer_list_data c))"
proof -
  from send_data_safe [OF assms, of COMMAND_SEND_PEER_LIST e h] obtain rc res h' where
    "send_data_deserialize COMMAND_SEND_PEER_LIST e buf buffer_size h = Some (rc, res, h')"
    "store h' = store h"
    "case res of None \<Rightarrow> rc \<noteq> SUCCESS
     | Some (hdr, len, data) \<Rightarrow> rc = SUCCESS \<and> wf_send_data COMMAND_SEND_PEER_LIST hdr len data \<and>
         24 + length data \<le> unat buffer_size \<and> take (24 + length data) buf = enc_send_data hdr len data"
    by blast
  then show ?thesis
    by (cases res) (auto simp: command_send_peer_list_deserialize_def)
qed

section \<open>Receiving and sending a whole buffer\<close>

text \<open>
  The chunks \<open>cs\<close> are what the first calls of \<open>recv\<close> deliver when \<open>len\<close>
  bytes are wanted.
\<close>

definition delivers :: "(nat \<Rightarrow> nat \<Rightarrow> byte list option) \<Rightarrow> nat \<Rightarrow> byte list list \<Rightarrow> bool" where
  "delivers recv len cs \<longleftrightarrow>
     (\<forall>j < length cs. recv j (len - length (concat (take j cs))) = Some (cs ! j) \<and>
        length (concat (take j cs)) \<noteq> len \<and> length (cs ! j) \<le> INT_MAX)"

text \<open>A \<open>recv\<close> that returns at least one byte, at most what is asked for, or fails.\<close>

definition recv_progress :: "(nat \<Rightarrow> nat \<Rightarrow> byte list option) \<Rightarrow> bool" where
  "recv_progress recv \<longleftrightarrow>
     (\<forall>i n bs. 0 < n \<longrightarrow> recv i n = Some bs \<longrightarrow> bs \<noteq> [] \<and> length bs \<le> n \<and> length bs \<le> INT_MAX)"

lemma delivers_snoc:
  "delivers recv len (cs @ [c]) \<longleftrightarrow>
     delivers recv len cs \<and> recv (length cs) (len - length (concat cs)) = Some c \<and>
     length (concat cs) \<noteq> len \<and> length c \<le> INT_MAX"
  by (auto simp: delivers_def less_Suc_eq nth_append)

lemma delivers_Nil: "delivers recv len []"
  by (simp add: delivers_def)

lemma recv_all_unroll:
  assumes "delivers recv len cs" "length (concat cs) \<le> length buf"
  shows "recv_all_loop recv 0 0 len buf =
    recv_all_loop recv (length cs) (length (concat cs)) len (concat cs @ drop (length (concat cs)) buf)"
  using assms
proof (induction cs rule: rev_induct)
  case Nil
  then show ?case by simp
next
  case (snoc c cs)
  let ?k = "length (concat cs)"
  from snoc.prems(1) have c: "delivers recv len cs" "recv (length cs) (len - ?k) = Some c" "?k \<noteq> len"
    "length c \<le> INT_MAX" unfolding delivers_snoc by simp_all
  have "store_bytes (concat cs @ drop ?k buf) ?k c = Some (concat (cs @ [c]) @ drop (?k + length c) buf)"
    using snoc.prems(2) store_bytes_next [of ?k "concat cs" ?k c buf] by simp
  with c snoc.prems(2) show ?case
    by (simp add: snoc.IH recv_all_loop.simps [of recv "length cs"])
qed

lemma recv_all_loop_returns:
  assumes "recv_progress recv" "delivers recv len cs" "length (concat cs) \<le> len" "len \<le> length buf"
  shows "\<exists>cs' rc. delivers recv len cs' \<and> length (concat cs') \<le> len \<and>
    recv_all_loop recv 0 0 len buf = Some (rc, concat cs' @ drop (length (concat cs')) buf) \<and>
    (if length (concat cs') = len then rc = SUCCESS
     else rc = FAILURE_NETWORK_FUNCTION \<and> recv (length cs') (len - length (concat cs')) = None)"
  using assms(2,3)
proof (induction "len - length (concat cs)" arbitrary: cs rule: less_induct)
  case less
  let ?k = "length (concat cs)"
  note unroll = recv_all_unroll [OF less.prems(1)]
  consider (full) "?k = len" | (error) "?k < len" "recv (length cs) (len - ?k) = None"
    | (more) c where "?k < len" "recv (length cs) (len - ?k) = Some c"
    using less.prems(2) by fastforce
  then show ?case
  proof cases
    case full
    with less.prems assms(4) unroll show ?thesis
      by (intro exI [of _ cs] exI [of _ SUCCESS]) (simp add: recv_all_loop.simps)
  next
    case error
    with less.prems assms(4) unroll show ?thesis
      by (intro exI [of _ cs] exI [of _ FAILURE_NETWORK_FUNCTION]) (simp add: recv_all_loop.simps)
  next
    case more
    then have c: "c \<noteq> []" "length c \<le> len - ?k" "length c \<le> INT_MAX"
      using assms(1) unfolding recv_progress_def by (metis zero_less_diff)+
    show ?thesis
      by (rule less.hyps [of "cs @ [c]"]) (use more c less.prems in \<open>simp_all add: delivers_snoc diff_less_mono2\<close>)
  qed
qed

text \<open>At the end of the stream \<open>recv\<close> returns 0, and the loop goes round for ever.\<close>

lemma recv_all_loop_eof:
  assumes "recv_all_loop recv i k len buf = Some r" "\<And>j n. i \<le> j \<Longrightarrow> recv j n = Some []" "k \<le> length buf"
  shows "k = len"
proof -
  have "(\<forall>j \<ge> i. \<forall>n. recv j n = Some []) \<longrightarrow> k \<le> length buf \<longrightarrow> k = len"
    by (rule recv_all_loop.raw_induct [OF _ assms(1)])
      (auto simp: store_bytes_def split: if_splits)
  with assms(2,3) show ?thesis by blast
qed

definition send_progress :: "(nat \<Rightarrow> nat \<Rightarrow> nat option) \<Rightarrow> bool" where
  "send_progress send \<longleftrightarrow>
     (\<forall>i n k. 0 < n \<longrightarrow> send i n = Some k \<longrightarrow> 0 < k \<and> k \<le> n \<and> k \<le> INT_MAX)"

lemma send_all_loop_returns:
  assumes "send_progress send" "t \<le> len" "len \<le> length buf"
  shows "\<exists>rc k. send_all_loop send i t len buf (take t buf) = Some (rc, take k buf) \<and> k \<le> len \<and>
    (if k = len then rc = SUCCESS else rc = FAILURE_NETWORK_FUNCTION \<and> (\<exists>j. send j (len - k) = None))"
  using assms(2)
proof (induction "len - t" arbitrary: i t rule: less_induct)
  case less
  have load: "load_bytes buf t (len - t) = Some (take (len - t) (drop t buf))"
    using less.prems assms(3) by (simp add: load_bytes_def)
  consider (full) "t = len" | (error) "t < len" "send i (len - t) = None"
    | (more) n where "t < len" "send i (len - t) = Some n"
    using less.prems by fastforce
  then show ?case
  proof cases
    case full
    then show ?thesis by (intro exI [of _ SUCCESS] exI [of _ t]) (simp add: send_all_loop.simps)
  next
    case error
    with load show ?thesis
      by (intro exI [of _ FAILURE_NETWORK_FUNCTION] exI [of _ t]) (auto simp: send_all_loop.simps)
  next
    case more
    then have n: "0 < n" "n \<le> len - t" "n \<le> INT_MAX"
      using assms(1) unfolding send_progress_def by (metis zero_less_diff)+
    then have "take t buf @ take n (take (len - t) (drop t buf)) = take (t + n) buf"
      by (simp add: take_add min_def)
    with more n load have "send_all_loop send i t len buf (take t buf) =
        send_all_loop send (Suc i) (t + n) len buf (take (t + n) buf)"
      by (subst send_all_loop.simps) (simp add: Let_def)
    moreover have "len - (t + n) < len - t" "t + n \<le> len" using n more(1) by simp_all
    ultimately show ?thesis using less.hyps [of "t + n" "Suc i"] by simp
  qed
qed

text \<open>
  C39. \<open>recv_all\<close> returns as long as \<open>recv\<close> makes progress or fails; the buffer then
  starts with the chunks that were received, in order, and is unchanged behind them; the code is
  \<open>SUCCESS\<close> exactly when these are \<open>len\<close> bytes.
\<close>

theorem recv_all_complete:
  assumes "recv_progress recv" "len \<le> length buf"
  shows "\<exists>rc cs. recv_all recv (Some buf) len = Some (rc, Some (concat cs @ drop (length (concat cs)) buf)) \<and>
    delivers recv len cs \<and> length (concat cs) \<le> len \<and>
    (if length (concat cs) = len then rc = SUCCESS
     else rc = FAILURE_NETWORK_FUNCTION \<and> recv (length cs) (len - length (concat cs)) = None)"
proof -
  have "delivers recv len []" "length (concat []) \<le> len" by (simp_all add: delivers_Nil)
  from recv_all_loop_returns [OF assms(1) this assms(2)] show ?thesis by (force simp: recv_all_def)
qed

text \<open>Three bytes at a time.\<close>

definition slow_recv :: "nat \<Rightarrow> nat \<Rightarrow> byte list option" where
  "slow_recv i n = Some (replicate (min 3 n) 5)"

theorem recv_all_complete_witness:
  "\<exists>data. recv_all slow_recv (Some (replicate 8 0)) 7 = Some (SUCCESS, Some (data @ [0])) \<and>
     length data = 7"
proof -
  have "recv_progress slow_recv" by (auto simp: recv_progress_def slow_recv_def)
  moreover have "7 \<le> length (replicate 8 (0 :: byte))" by simp
  ultimately show ?thesis
    using recv_all_complete [of slow_recv 7 "replicate 8 0"] by (auto simp: slow_recv_def split: if_splits)
qed

text \<open>
  If the peer closes the connection before all the bytes have arrived, \<open>recv\<close>
  returns 0 from then on, and \<open>recv_all\<close> never returns.
\<close>

lemma recv_all_hangs_at_eof:
  assumes "delivers recv len cs" "length (concat cs) < len" "len \<le> length buf"
    "\<forall>j \<ge> length cs. \<forall>n. recv j n = Some []"
  shows "recv_all recv (Some buf) len = None"
proof -
  let ?k = "length (concat cs)"
  have "recv_all_loop recv (length cs) ?k len (concat cs @ drop ?k buf) = None"
  proof (rule ccontr)
    assume "recv_all_loop recv (length cs) ?k len (concat cs @ drop ?k buf) \<noteq> None"
    then obtain r where r: "recv_all_loop recv (length cs) ?k len (concat cs @ drop ?k buf) = Some r"
      by blast
    have "?k = len" by (rule recv_all_loop_eof [OF r]) (use assms(4) in simp_all)
    with assms(2) show False by simp
  qed
  with recv_all_unroll [OF assms(1), of buf] assms(2,3) show ?thesis by (simp add: recv_all_def)
qed

text \<open>
  C40. \<open>send_all\<close> returns as long as \<open>send\<close> makes progress or fails: what it has put
  on the wire is a prefix of the buffer, and the code is \<open>SUCCESS\<close> exactly when this is all
  \<open>len\<close> bytes.
\<close>

theorem send_all_complete:
  assumes "send_progress send" "len \<le> length buf"
  shows "\<exists>rc k. send_all send (Some buf) len = Some (rc, take k buf) \<and> k \<le> len \<and>
    (if k = len then rc = SUCCESS else rc = FAILURE_NETWORK_FUNCTION \<and> (\<exists>j. send j (len - k) = None))"
  using send_all_loop_returns [OF assms(1) _ assms(2), of 0 0] by (simp add: send_all_def)

definition slow_send :: "nat \<Rightarrow> nat \<Rightarrow> nat option" where
  "slow_send i n = Some (min 3 n)"

theorem send_all_complete_witness:
  "send_all slow_send (Some [1, 2, 3, 4, 5]) 4 = Some (SUCCESS, [1, 2, 3, 4])"
proof -
  have "send_progress slow_send" by (auto simp: send_progress_def slow_send_def)
  moreover have "4 \<le> length [1, 2, 3, 4, 5 :: byte]" by simp
  ultimately show ?thesis
    using send_all_complete [of slow_send 4 "[1, 2, 3, 4, 5]"] by (auto simp: slow_send_def split: if_splits)
qed

lemma send_all_ok:
  assumes "send_progress send" "\<forall>i n. send i n \<noteq> None"
  shows "send_all send (Some buf) (length buf) = Some (SUCCESS, buf)"
  using send_all_loop_returns [OF assms(1), of 0 "length buf" buf 0] assms(2)
  by (auto simp: send_all_def split: if_splits)

end
