(* ===== verification/Requests.thy ===== *)
theory Requests imports Networking_Messages begin

text \<open>
  What the two server threads share: the outcome of a request, the connection it arrives on,
  and the code that receives one command
  (\<^verbatim>\<open>src/consensus_peer_server_thread.c\<close> and
  \<^verbatim>\<open>src/peer_discovery_bootstrap_server_thread.c\<close>, the first part of their handlers).
\<close>

section \<open>Connections\<close>

text \<open>
  The handlers store the result of \<open>pthread_mutex_lock\<close> in their return code, so a request
  ends with a code of the program or with an error number of the system.
\<close>

datatype status = Code return_code_t | Errno nat

text \<open>
  The integer a caller of the handler sees.  It is zero exactly when the request succeeded, as an
  error number is not zero; but a caller cannot tell an error number from a code of the program.
\<close>

primrec status_value :: "status \<Rightarrow> nat" where
  "status_value (Code return_code) = return_code_value return_code"
| "status_value (Errno n) = n"

lemma status_value_success: "st \<noteq> Errno 0 \<Longrightarrow> status_value st = 0 \<longleftrightarrow> st = Code SUCCESS"
  using return_code_value_inj [of _ SUCCESS] by (cases st) auto

text \<open>\<open>EPERM\<close> is 1 and \<open>EAGAIN\<close> is 11 on Linux.\<close>

lemma status_value_ambiguous:
  "status_value (Errno 1) = status_value (Code FAILURE_COULD_NOT_MALLOC)"
  "status_value (Errno 11) = status_value (Code FAILURE_INVALID_BLOCKCHAIN)"
  by simp_all

text \<open>
  What a handler sees of the outside: \<open>conn_recv k i n\<close> is the result of the \<open>i\<close>-th call
  of \<open>recv\<close> in the \<open>k\<close>-th call of \<open>recv_all\<close>; \<open>conn_send\<close> are the calls of
  \<open>send\<close>; \<open>conn_time i\<close> is the result of the \<open>i\<close>-th call of \<open>time\<close>;
  \<open>lock_result\<close> and \<open>unlock_result\<close> what the mutex calls return (0 for
  success).
\<close>

record connection =
  conn_recv :: "nat \<Rightarrow> nat \<Rightarrow> nat \<Rightarrow> byte list option"
  conn_send :: "nat \<Rightarrow> nat \<Rightarrow> nat option"
  conn_time :: "u64 \<Rightarrow> u64"
  lock_result :: nat
  unlock_result :: nat

section \<open>Receiving a command\<close>

text \<open>
  \<open>recv_all(fd, buf + off, len)\<close>: the part of the buffer behind the offset is filled.
\<close>

definition recv_all_at ::
  "(nat \<Rightarrow> nat \<Rightarrow> byte list option) \<Rightarrow> byte list \<Rightarrow> nat \<Rightarrow> nat \<Rightarrow> (return_code_t \<times> byte list) option" where
  "recv_all_at recv buf off len =
     do {
       (return_code, tail) \<leftarrow> recv_all recv (Some (drop off buf)) len;
       tail \<leftarrow> tail;
       Some (return_code, take off buf @ tail)
     }"

text \<open>
  The header is received into a buffer of its own size, which is then enlarged by the length
  the header states.  The sum is computed modulo \<open>2^64\<close> and the result of \<open>realloc\<close>
  is used unchecked.
\<close>

definition receive_payload ::
  "(nat \<Rightarrow> nat \<Rightarrow> byte list option) \<Rightarrow> command_header_t \<Rightarrow> byte list \<Rightarrow> heap \<Rightarrow>
   ((return_code_t + byte list \<times> u64) \<times> heap) option" where
  "receive_payload recv header recv_buf h =
     (let recv_size = of_nat HEADER_SIZE + command_len header
      in case realloc_buf recv_buf (unat recv_size) h of
           (None, h) \<Rightarrow> None \<comment> \<open>arithmetic on the null pointer\<close>
         | (Some recv_buf, h) \<Rightarrow> do {
             (return_code, recv_buf) \<leftarrow>
               recv_all_at recv recv_buf HEADER_SIZE (unat (command_len header));
             if return_code \<noteq> SUCCESS then Some (Inl FAILURE_NETWORK_FUNCTION, h)
             else Some (Inr (recv_buf, recv_size), h)
           })"

definition receive_request ::
  "command_t \<Rightarrow> endianness \<Rightarrow> (nat \<Rightarrow> nat \<Rightarrow> nat \<Rightarrow> byte list option) \<Rightarrow> heap \<Rightarrow>
   ((return_code_t + byte list \<times> u64) \<times> heap) option" where
  "receive_request cmd e recv h =
     (case calloc_buf HEADER_SIZE h of
        (None, h) \<Rightarrow> Some (Inl FAILURE_COULD_NOT_MALLOC, h)
      | (Some recv_buf, h) \<Rightarrow> do {
          (return_code, recv_buf) \<leftarrow> recv_all_at (recv 0) recv_buf 0 HEADER_SIZE;
          if return_code \<noteq> SUCCESS then Some (Inl FAILURE_NETWORK_FUNCTION, h)
          else do {
            (return_code, header) \<leftarrow>
              command_header_deserialize e True (Some recv_buf) (of_nat HEADER_SIZE);
            if return_code \<noteq> SUCCESS then Some (Inl return_code, h)
            else do {
              header \<leftarrow> header;
              if command header \<noteq> command_code cmd then Some (Inl FAILURE_INVALID_COMMAND, h)
              else receive_payload (recv 1) header recv_buf h
            }
          }
        })"

section \<open>The thread around a handler\<close>

text \<open>
  Both server threads are written in the same way around their handler: they open a listening
  socket and then, until they are asked to stop, wait for a connection and handle it.  A request
  that fails does not end the thread.  The environment says what the system calls of round
  \<open>i\<close> return, and what \<open>*should_stop\<close> holds before it.
\<close>

record server_env =
  socket_ok :: bool
  reuseaddr_ok :: bool
  v6only_ok :: bool
  bind_ok :: bool
  listen_ok :: bool
  stop_requested :: "nat \<Rightarrow> bool"
  poll_result :: "nat \<Rightarrow> int"
  accept_ok :: "nat \<Rightarrow> bool"
  client_len_ok :: "nat \<Rightarrow> bool"
  client_hostname_ok :: "nat \<Rightarrow> bool"
  client_addr_ok :: "nat \<Rightarrow> bool"
  client :: "nat \<Rightarrow> connection"

partial_function (option) server_loop ::
  "(connection \<Rightarrow> heap \<Rightarrow> (status \<times> byte list \<times> heap) option) \<Rightarrow> bool \<Rightarrow> server_env \<Rightarrow> nat \<Rightarrow>
   status \<Rightarrow> heap \<Rightarrow> (status \<times> heap) option" where
  "server_loop handle print_progress env i return_code h =
     (if stop_requested env i then Some (return_code, h)
      else if poll_result env i = - 1 then Some (Code FAILURE_NETWORK_FUNCTION, h)
      else if poll_result env i \<noteq> 0 then
        (if \<not> accept_ok env i then Some (Code FAILURE_NETWORK_FUNCTION, h)
         else if \<not> client_len_ok env i then Some (Code FAILURE_BUFFER_TOO_SMALL, h)
         else if print_progress \<and> \<not> client_hostname_ok env i then Some (Code FAILURE_NETWORK_FUNCTION, h)
         else if print_progress \<and> \<not> client_addr_ok env i then Some (Code FAILURE_NETWORK_FUNCTION, h)
         else do {
           (return_code, _, h) \<leftarrow> handle (client env i) h;
           server_loop handle print_progress env (Suc i) return_code h
         })
      else server_loop handle print_progress env (Suc i) return_code h)"

text \<open>
  The result is the return code the thread hands to its creator in a new object, and
  \<open>*exit_ready\<close>.  That object is written to even if it could not be allocated.
\<close>

definition run_server ::
  "(connection \<Rightarrow> heap \<Rightarrow> (status \<times> byte list \<times> heap) option) \<Rightarrow> bool \<Rightarrow> server_env \<Rightarrow> heap \<Rightarrow>
   (status \<times> bool \<times> heap) option" where
  "run_server handle print_progress env h =
     do {
       (return_code, h) \<leftarrow>
         (if \<not> socket_ok env \<or> \<not> reuseaddr_ok env \<or> \<not> v6only_ok env \<or> \<not> bind_ok env \<or> \<not> listen_ok env
          then Some (Code FAILURE_NETWORK_FUNCTION, h)
          else server_loop handle print_progress env 0 (Code SUCCESS) h);
       (case request h of
          (ok, h) \<Rightarrow> if ok then Some (return_code, True, h) else None)
     }"

text \<open>
  The interface between a thread and its handler: an invariant of the heap that every request
  keeps.
\<close>

locale request_handler =
  fixes handle :: "connection \<Rightarrow> heap \<Rightarrow> (status \<times> byte list \<times> heap) option"
    and inv :: "heap \<Rightarrow> bool"
  assumes handle_inv: "inv h \<Longrightarrow> handle conn h = Some (st, sent, h') \<Longrightarrow> inv h'"
    and inv_brk: "inv h \<Longrightarrow> inv (h\<lparr>brk := Suc (brk h)\<rparr>)"
begin

lemma server_loop_inv:
  assumes "server_loop handle print env i rc h = Some (st, h')" "inv h"
  shows "inv h'"
proof -
  define keeps where "keeps f \<longleftrightarrow> (\<forall>conn h st sent h'. inv h \<longrightarrow> f conn h = Some (st, sent, h') \<longrightarrow> inv h')"
    for f :: "connection \<Rightarrow> heap \<Rightarrow> (status \<times> byte list \<times> heap) option"
  then have keepsD: "inv h'" if "f conn h = Some (st, sent, h')" "inv h" "keeps f" for f conn h st sent h'
    using that by blast
  have "keeps handle \<longrightarrow> inv h \<longrightarrow> inv (snd (st, h'))"
    by (rule server_loop.raw_induct [OF _ assms(1)])
      (auto dest: keepsD split: if_split_asm Option.bind_split_asm)
  then show ?thesis using assms(2) handle_inv unfolding keeps_def by auto
qed

lemma run_server_inv:
  assumes "run_server handle print env h = Some (st, ready, h')" "inv h"
  shows "inv h'"
proof -
  from assms(1) obtain h1 where "h' = h1\<lparr>brk := Suc (brk h1)\<rparr>"
    "h1 = h \<or> (\<exists>rc. server_loop handle print env 0 (Code SUCCESS) h = Some (rc, h1))"
    by (auto simp: run_server_def request_def split: if_split_asm Option.bind_split_asm)
  then show ?thesis using assms(2) by (auto dest: server_loop_inv intro: inv_brk)
qed

text \<open>
  The thread ends after it is asked to stop, if every request it serves comes to an end.
\<close>

lemma server_loop_stops:
  assumes "\<And>j h. inv h \<Longrightarrow> i \<le> j \<Longrightarrow> j < n \<Longrightarrow> handle (client env j) h \<noteq> None"
    "stop_requested env n" "i \<le> n" "inv h"
  shows "server_loop handle print env i rc h \<noteq> None"
  using assms(1,3,4)
proof (induction "n - i" arbitrary: i rc h)
  case 0
  then show ?case using assms(2) by (simp add: server_loop.simps [of _ _ _ i])
next
  case (Suc k)
  then have step: "server_loop handle print env (Suc i) rc' h' \<noteq> None" if "inv h'" for rc' h'
    using that by (intro Suc.hyps(1)) auto
  obtain st sent h' where "handle (client env i) h = Some (st, sent, h')"
    using Suc.prems Suc.hyps(2) by (metis option.exhaust prod_cases3 order_refl zero_less_diff zero_less_Suc)
  then show ?case
    using step [of h] step [of h'] Suc.prems(3) handle_inv
    by (subst server_loop.simps) auto
qed

end

section \<open>What a request may change\<close>

text \<open>Objects that were there before, other than \<open>F\<close>, stay.\<close>

definition leaves :: "addr set \<Rightarrow> heap \<Rightarrow> heap \<Rightarrow> bool" where
  "leaves F h h' \<longleftrightarrow>
     heap_ok h' \<and> malloc_ok h' = malloc_ok h \<and> brk h \<le> brk h' \<and>
     (\<forall>x. x \<notin> F \<longrightarrow> store h x \<noteq> None \<longrightarrow> store h' x = store h x)"

lemma leaves_same: "heap_ok h \<Longrightarrow> same_except {} h h' \<Longrightarrow> leaves F h h'"
  using heap_ok_same [of h h'] by (auto simp: leaves_def same_except_def)

lemma leaves_trans: "leaves F h h1 \<Longrightarrow> leaves F h1 h2 \<Longrightarrow> leaves F h h2"
  by (auto simp: leaves_def)

text \<open>
  The exact account of a step that owns the objects \<open>F\<close> before and \<open>F'\<close> after: what it
  has acquired is new, what it has given up is freed, and nothing else has changed.
\<close>

definition evolves :: "addr set \<Rightarrow> heap \<Rightarrow> addr set \<Rightarrow> heap \<Rightarrow> bool" where
  "evolves F h F' h' \<longleftrightarrow>
     heap_ok h' \<and> same_except (F \<union> F') h h' \<and>
     (\<forall>x \<in> F' - F. store h x = None) \<and> (\<forall>x \<in> F - F'. store h' x = None)"

lemma evolves_same: "heap_ok h \<Longrightarrow> same_except {} h h' \<Longrightarrow> evolves F h F h'"
  using heap_ok_same [of h h'] same_except_mono [of "{}" h h'] by (auto simp: evolves_def)

lemma evolves_trans:
  assumes "evolves F h F1 h1" "evolves F1 h1 F2 h2"
  shows "evolves F h F2 h2"
proof -
  have same: "store h1 x = store h x" if "x \<notin> F" "x \<notin> F1" for x
    using assms(1) that by (simp add: evolves_def same_except_def)
  have same': "store h2 x = store h1 x" if "x \<notin> F1" "x \<notin> F2" for x
    using assms(2) that by (simp add: evolves_def same_except_def)
  have new: "store h x = None" if "x \<in> F1" "x \<notin> F" for x using assms(1) that by (simp add: evolves_def)
  have new': "store h1 x = None" if "x \<in> F2" "x \<notin> F1" for x using assms(2) that by (simp add: evolves_def)
  have gone: "store h1 x = None" if "x \<in> F" "x \<notin> F1" for x using assms(1) that by (simp add: evolves_def)
  have gone': "store h2 x = None" if "x \<in> F1" "x \<notin> F2" for x using assms(2) that by (simp add: evolves_def)
  have "store h2 x = store h x" if "x \<notin> F \<union> F2" for x
    using that same [of x] same' [of x] new [of x] gone' [of x] by (cases "x \<in> F1") auto
  moreover have "store h x = None" if "x \<in> F2 - F" for x
    using that same [of x] new [of x] new' [of x] by (cases "x \<in> F1") auto
  moreover have "store h2 x = None" if "x \<in> F - F2" for x
    using that same' [of x] gone [of x] gone' [of x] by (cases "x \<in> F1") auto
  ultimately show ?thesis using assms unfolding evolves_def same_except_def by auto
qed

section \<open>What is received\<close>

lemma receive_payload_frame:
  "receive_payload recv hdr buf h = Some (r, h') \<Longrightarrow> same_except {} h h'"
  by (auto simp: receive_payload_def Let_def bind_Some_iff dest!: realloc_buf_frame
      split: prod.split_asm option.split_asm if_split_asm)

lemma receive_request_frame:
  "receive_request cmd e recv h = Some (r, h') \<Longrightarrow> same_except {} h h'"
  by (cases "calloc_buf 16 h")
    (auto simp: receive_request_def bind_Some_iff split: option.split_asm if_split_asm
      dest!: calloc_buf_frame receive_payload_frame; blast intro: same_except_empty_trans)

text \<open>The calls of \<open>recv\<close> deliver exactly these bytes, in chunks of any size.\<close>

definition arrives :: "(nat \<Rightarrow> nat \<Rightarrow> byte list option) \<Rightarrow> byte list \<Rightarrow> bool" where
  "arrives recv bs \<longleftrightarrow> (\<exists>cs. delivers recv (length bs) cs \<and> concat cs = bs)"

lemma recv_all_arrives:
  assumes "arrives recv bs" "length bs \<le> length buf"
  shows "recv_all recv (Some buf) (length bs) = Some (SUCCESS, Some (bs @ drop (length bs) buf))"
proof -
  from assms(1) obtain cs where cs: "delivers recv (length bs) cs" "concat cs = bs"
    by (auto simp: arrives_def)
  have "recv_all_loop recv 0 0 (length bs) buf =
      recv_all_loop recv (length cs) (length bs) (length bs) (bs @ drop (length bs) buf)"
    using recv_all_unroll [OF cs(1), of buf] cs(2) assms(2) by simp
  then show ?thesis by (simp add: recv_all_def recv_all_loop.simps)
qed

lemma recv_all_at_arrives:
  assumes "arrives recv bs" "off + length bs \<le> length buf"
  shows "recv_all_at recv buf off (length bs) =
    Some (SUCCESS, take off buf @ bs @ drop (off + length bs) buf)"
  using recv_all_arrives [OF assms(1), of "drop off buf"] assms(2)
  by (simp add: recv_all_at_def add.commute)

text \<open>A connection on which every call makes progress and the mutex works.\<close>

definition conn_ok :: "connection \<Rightarrow> bool" where
  "conn_ok conn \<longleftrightarrow>
     send_progress (conn_send conn) \<and> (\<forall>i n. conn_send conn i n \<noteq> None) \<and>
     lock_result conn = 0 \<and> unlock_result conn = 0"

text \<open>Everything up to the enlargement of the buffer.\<close>

lemma receive_request_header:
  assumes "wf_header hdr" "command hdr = command_code cmd" "malloc_ok h (brk h)"
    "arrives (recv 0) (enc_command_header hdr)"
  shows "receive_request cmd e recv h =
    receive_payload (recv 1) hdr (enc_command_header hdr) (h\<lparr>brk := Suc (brk h)\<rparr>)"
proof -
  note len = length_enc_command_header [OF assms(1)]
  have "recv_all_at (recv 0) (replicate 16 0) 0 16 = Some (SUCCESS, enc_command_header hdr)"
    using recv_all_at_arrives [OF assms(4), of 0 "replicate 16 0"] len by simp
  moreover have "holds_at (enc_command_header hdr) 0 (enc_command_header hdr)"
    using holds_at_app [of "[]" "enc_command_header hdr" "[]"] by simp
  then have "command_header_deserialize e True (Some (enc_command_header hdr)) 16 = Some (SUCCESS, Some hdr)"
    using hdr_wire.parse_enc [OF assms(1), of "enc_command_header hdr" 0 16 e] len
    by (simp add: command_header_deserialize_def filled_def)
  ultimately show ?thesis
    using assms(2,3) by (simp add: receive_request_def calloc_buf_eq)
qed

lemma receive_request_ok:
  assumes "wf_header hdr" "command hdr = command_code cmd" "\<forall>n. malloc_ok h n"
    "arrives (recv 0) (enc_command_header hdr)" "arrives (recv 1) payload"
    "unat (command_len hdr) = length payload" "length payload + 16 < 2 ^ 63"
  shows "receive_request cmd e recv h =
    Some (Inr (enc_command_header hdr @ payload, 16 + command_len hdr), h\<lparr>brk := Suc (Suc (brk h))\<rparr>)"
proof -
  note len = length_enc_command_header [OF assms(1)]
  let ?buf = "enc_command_header hdr @ replicate (length payload) (junk h)"
  have size: "unat (16 + command_len hdr) = 16 + length payload"
    using assms(6,7) by (simp add: unat_word_ariths)
  have "recv_all_at (recv 1) ?buf 16 (length payload) = Some (SUCCESS, enc_command_header hdr @ payload)"
    using recv_all_at_arrives [OF assms(5), of 16 ?buf] len by simp
  then show ?thesis
    using receive_request_header [OF assms(1,2), of h recv e] assms(3,4,6,7) len size
    by (simp add: receive_payload_def realloc_grow)
qed

text \<open>
  A length that makes the size of the buffer wrap around, or one beyond the largest object: the
  first bytes that arrive are written outside the buffer, or \<open>realloc\<close> fails unnoticed.
\<close>

lemma receive_request_overflow:
  assumes "wf_header hdr" "command hdr = command_code cmd" "malloc_ok h (brk h)"
    "arrives (recv 0) (enc_command_header hdr)"
    "2 ^ 63 - 16 \<le> unat (command_len hdr)" "recv 1 0 (unat (command_len hdr)) = Some bs" "bs \<noteq> []"
  shows "receive_request cmd e recv h = None"
proof (cases "unat (command_len hdr) + 16 < 2 ^ 64")
  case True
  then have "unat (16 + command_len hdr) = 16 + unat (command_len hdr)" by (simp add: unat_word_ariths)
  then have "realloc_buf buf (unat (16 + command_len hdr)) h = (None, h\<lparr>brk := Suc (brk h)\<rparr>)" for buf and h :: heap
    using assms(5) by (simp add: realloc_buf_def request_def)
  then show ?thesis
    using receive_request_header [of hdr cmd h recv e] assms(1-4) by (simp add: receive_payload_def)
next
  case False
  then have "unat (16 + command_len hdr) = unat (command_len hdr) + 16 - 2 ^ 64"
    using unsigned_less [of "command_len hdr", where 'a = nat]
    by (simp add: unat_word_ariths) (subst mod_if, simp)
  then have small: "unat (16 + command_len hdr) < 16"
    using unsigned_less [of "command_len hdr", where 'a = nat] by simp
  have "recv_all_at (recv 1) buf 16 (unat (command_len hdr)) = None" if "length buf < 16" for buf
    using that assms(5-7)
    by (simp add: recv_all_at_def recv_all_def recv_all_loop.simps [of _ 0] store_bytes_def)
  moreover have "length buf' < 16"
    if "realloc_buf (enc_command_header hdr) (unat (16 + command_len hdr)) h = (Some buf', h')" for buf' h' and h :: heap
    using that small length_enc_command_header [OF assms(1)]
    by (auto simp: realloc_buf_def request_def split: if_splits)
  ultimately show ?thesis
    using receive_request_header [of hdr cmd h recv e] assms(1-4)
    by (auto simp: receive_payload_def Let_def split: prod.splits option.splits)
qed

text \<open>A peer that sends a header and a payload, each in one piece.\<close>

definition example_connection :: "byte list \<Rightarrow> byte list \<Rightarrow> connection" where
  "example_connection header payload =
     \<lparr>conn_recv = (\<lambda>k i n. if k = 0 then Some header else Some payload),
      conn_send = (\<lambda>i n. Some (min n 1000)), conn_time = (\<lambda>i. 100 + i), lock_result = 0, unlock_result = 0\<rparr>"

lemma example_arrives:
  assumes "0 < length bs" "length bs \<le> INT_MAX"
  shows "arrives (\<lambda>i n. Some bs) bs"
  using assms unfolding arrives_def by (intro exI [of _ "[bs]"]) (simp add: delivers_def)

lemma example_conn_ok: "conn_ok (example_connection header payload)"
  by (auto simp: conn_ok_def example_connection_def send_progress_def)

text \<open>A server that accepts one connection in its second round and is then stopped.\<close>

definition example_server :: "connection \<Rightarrow> server_env" where
  "example_server conn =
     \<lparr>socket_ok = True, reuseaddr_ok = True, v6only_ok = True, bind_ok = True, listen_ok = True,
      stop_requested = (\<lambda>i. 1 < i), poll_result = (\<lambda>i. of_nat i), accept_ok = (\<lambda>_. True),
      client_len_ok = (\<lambda>_. True), client_hostname_ok = (\<lambda>_. True), client_addr_ok = (\<lambda>_. True),
      client = (\<lambda>_. conn)\<rparr>"

lemma example_server_run:
  assumes "handle (conn :: connection) h = Some (st, sent, h1)" "\<forall>n. malloc_ok h1 n"
  shows "run_server handle p (example_server conn) h = Some (st, True, h1\<lparr>brk := Suc (brk h1)\<rparr>)"
proof -
  have "server_loop handle p (example_server conn) 0 (Code SUCCESS) h = Some (st, h1)"
    using assms(1)
    by (simp add: server_loop.simps [of _ _ _ 0] server_loop.simps [of _ _ _ "Suc 0"]
        server_loop.simps [of _ _ _ "Suc (Suc 0)"] example_server_def)
  then show ?thesis using assms(2) by (simp add: run_server_def request_def) (simp add: example_server_def)
qed

end
