(* ===== verification/Utilities.thy ===== *)
theory Utilities imports Objects begin

text \<open>
  Small routines the threads and programs call: \<^verbatim>\<open>src/hash.c\<close>, \<^verbatim>\<open>src/sleep.c\<close>
  and \<^verbatim>\<open>src/base64.c\<close>.
\<close>

section \<open>Printing\<close>

text \<open>\<open>printf("%02hhx")\<close> of a byte: two lower-case hexadecimal digits.\<close>

definition hex_digit :: "nat \<Rightarrow> char" where
  "hex_digit n = (if n < 10 then char_of (48 + n) else char_of (87 + n))"

definition hex_byte :: "byte \<Rightarrow> string" where
  "hex_byte b = [hex_digit (unat b div 16), hex_digit (unat b mod 16)]"

text \<open>\<open>printf("%"PRIu64)\<close>: decimal digits without leading zeros.\<close>

fun decimal :: "nat \<Rightarrow> string" where
  "decimal n = (if n < 10 then [hex_digit n] else decimal (n div 10) @ [hex_digit (n mod 10)])"

declare decimal.simps [simp del]

abbreviation (input) newline :: string where
  "newline \<equiv> [char_of (10 :: nat)]"

text \<open>What is written to the standard output; nothing for a null pointer.\<close>

definition hash_print :: "sha_256_t option \<Rightarrow> string" where
  "hash_print hash =
     (case hash of None \<Rightarrow> '''' | Some digest \<Rightarrow> concat (map hex_byte digest) @ newline)"

lemma hex_digit_inj: "m < 16 \<Longrightarrow> n < 16 \<Longrightarrow> hex_digit m = hex_digit n \<Longrightarrow> m = n"
  by (auto simp: hex_digit_def take_bit_eq_mod split: if_splits dest!: arg_cong [where f = "of_char :: char \<Rightarrow> nat"])

lemma unat_less_256: "unat (a :: byte) < 256"
  using unsigned_less [of a, where ?'a = nat] by simp

lemma hex_byte_inj: "hex_byte a = hex_byte b \<Longrightarrow> a = b"
proof -
  assume "hex_byte a = hex_byte b"
  moreover have "unat a div 16 < 16" "unat b div 16 < 16" "unat a mod 16 < 16" "unat b mod 16 < 16"
    using unat_less_256 [of a] unat_less_256 [of b] by simp_all
  ultimately have "unat a div 16 = unat b div 16" "unat a mod 16 = unat b mod 16"
    using hex_digit_inj by (simp_all add: hex_byte_def)
  then have "unat a = unat b" by (metis div_mult_mod_eq)
  then show "a = b" by (rule unsigned_word_eqI)
qed

lemma hex_bytes_inj: "concat (map hex_byte d) = concat (map hex_byte d') \<Longrightarrow> d = d'"
proof (induction d arbitrary: d')
  case Nil
  then show ?case by (cases d') (simp_all add: hex_byte_def)
next
  case (Cons a d)
  then obtain b ds where d': "d' = b # ds" by (cases d') (simp_all add: hex_byte_def)
  have two: "length (hex_byte a) = length (hex_byte b)" by (simp add: hex_byte_def)
  have "hex_byte a @ concat (map hex_byte d) = hex_byte b @ concat (map hex_byte ds)" using Cons.prems d' by simp
  then have "hex_byte a = hex_byte b" "concat (map hex_byte d) = concat (map hex_byte ds)"
    using two append_eq_append_conv by blast+
  with d' Cons.IH hex_byte_inj show ?case by blast
qed

text \<open>A decimal number consists of digits and identifies the number.\<close>

lemma decimal_digits: "set (decimal n) \<subseteq> hex_digit ` {..<10}"
proof (induction n rule: decimal.induct)
  case (1 n)
  then show ?case by (subst decimal.simps) auto
qed

lemma hex_digit_neq_minus: "n < 16 \<Longrightarrow> hex_digit n \<noteq> CHR ''-''"
  by (auto simp: hex_digit_def take_bit_eq_mod split: if_splits
      dest!: arg_cong [where f = "of_char :: char \<Rightarrow> nat"])

lemma decimal_no_minus: "CHR ''-'' \<notin> set (decimal n)"
proof
  assume "CHR ''-'' \<in> set (decimal n)"
  with decimal_digits [of n] obtain k where "k < 10" "CHR ''-'' = hex_digit k" by blast
  with hex_digit_neq_minus [of k] show False by simp
qed

lemma decimal_nonempty: "decimal n \<noteq> []"
  by (subst decimal.simps) simp

lemma decimal_inj: "decimal m = decimal n \<Longrightarrow> m = n"
proof (induction m arbitrary: n rule: decimal.induct)
  case (1 m)
  show ?case
  proof (cases "m < 10 \<or> n < 10")
    case True
    with "1.prems" show ?thesis
      by (subst (asm) (1 2) decimal.simps)
        (auto split: if_splits simp: decimal_nonempty append_eq_Cons_conv Cons_eq_append_conv
          intro: hex_digit_inj)
  next
    case False
    with "1.prems" have "decimal (m div 10) = decimal (n div 10)" "hex_digit (m mod 10) = hex_digit (n mod 10)"
      by (subst (asm) (1 2) decimal.simps, simp)+
    then have "m div 10 = n div 10" "m mod 10 = n mod 10"
      using False "1.IH" by (auto intro: hex_digit_inj)
    then show ?thesis by (metis div_mult_mod_eq)
  qed
qed

text \<open>A printed hash identifies the digest, and is a line of 65 characters.\<close>

lemma hash_print_inj: "hash_print (Some d) = hash_print (Some d') \<Longrightarrow> d = d'"
  by (simp add: hash_print_def hex_bytes_inj)

lemma length_hash_print: "length d = SHA256_DIGEST_LENGTH \<Longrightarrow> length (hash_print (Some d)) = 65"
proof -
  have "length (concat (map hex_byte d)) = 2 * length d" by (induction d) (simp_all add: hex_byte_def)
  then show "length d = SHA256_DIGEST_LENGTH \<Longrightarrow> length (hash_print (Some d)) = 65" by (simp add: hash_print_def)
qed

section \<open>Sleeping\<close>

text \<open>
  \<open>nanosleep sec nsec\<close> is the result of the system call on the two fields of the structure,
  seconds and nanoseconds.
\<close>

definition sleep_microseconds :: "(u64 \<Rightarrow> u64 \<Rightarrow> int) \<Rightarrow> u64 \<Rightarrow> return_code_t" where
  "sleep_microseconds nanosleep microseconds =
     (let tv_sec = microseconds div 1000000;
          tv_nsec = (microseconds mod 1000000) * 1000
      in if nanosleep tv_sec tv_nsec \<noteq> 0 then FAILURE_SLEEP else SUCCESS)"

text \<open>
  The call is made with the duration that was asked for and with fields in the range
  \<open>nanosleep\<close> accepts, for every argument.
\<close>

lemma sleep_microseconds_request:
  fixes microseconds :: u64
  defines "sec \<equiv> microseconds div (1000000 :: u64)" and "nsec \<equiv> (microseconds mod 1000000) * (1000 :: u64)"
  shows "sleep_microseconds nanosleep microseconds = (if nanosleep sec nsec = 0 then SUCCESS else FAILURE_SLEEP)"
    and "unat nsec < 1000000000" "unat sec < 2 ^ 63"
    and "unat sec * 1000000000 + unat nsec = unat microseconds * 1000"
proof -
  have m: "unat (microseconds mod 1000000) = unat microseconds mod 1000000" by (simp add: unat_mod)
  then have n: "unat nsec = (unat microseconds mod 1000000) * 1000"
    unfolding nsec_def by (subst unat_mult_lem [THEN iffD1]) (simp_all add: m)
  have s: "unat sec = unat microseconds div 1000000" by (simp add: sec_def unat_div)
  show "sleep_microseconds nanosleep microseconds = (if nanosleep sec nsec = 0 then SUCCESS else FAILURE_SLEEP)"
    by (simp add: sleep_microseconds_def sec_def nsec_def)
  show "unat nsec < 1000000000" by (simp add: n)
  show "unat sec < 2 ^ 63" unfolding s using unsigned_less [of microseconds, where ?'a = nat] by simp
  show "unat sec * 1000000000 + unat nsec = unat microseconds * 1000"
    unfolding n s using div_mult_mod_eq [of "unat microseconds" 1000000] by linarith
qed

section \<open>Base64\<close>

text \<open>
  \<open>EVP_DecodeBlock\<close> of OpenSSL: whether it succeeds on an input, and the bytes it writes to
  the output; also a call that fails may have written some.  The length is passed as an
  \<open>int\<close>.
\<close>

type_synonym decode_block = "byte list \<Rightarrow> bool \<times> byte list"

text \<open>
  Documented of it: it writes three bytes for every four characters that remain after trimming
  white space.
\<close>

definition decode_block_ok :: "decode_block \<Rightarrow> bool" where
  "decode_block_ok decode \<longleftrightarrow> (\<forall>input. 4 * length (snd (decode input)) \<le> 3 * length input)"

definition int_of_size :: "u64 \<Rightarrow> int" where
  "int_of_size n = sint (ucast n :: 32 word)"

definition base64_decode ::
  "decode_block \<Rightarrow> byte list option \<Rightarrow> u64 \<Rightarrow> byte list option \<Rightarrow> (return_code_t \<times> byte list option) option" where
  "base64_decode evp encoded encoded_length decoded =
     (case (encoded, decoded) of
        (Some encoded, Some decoded) \<Rightarrow> do {
          input \<leftarrow> load_bytes encoded 0 (nat (int_of_size encoded_length));
          let (ok, out) = evp input
          in do {
            decoded \<leftarrow> store_bytes decoded 0 out;
            if \<not> ok then Some (FAILURE_OPENSSL_FUNCTION, Some decoded)
            else do {
              decoded \<leftarrow> store_bytes decoded (length out) [0];
              Some (SUCCESS, Some decoded)
            }
          }
        }
      | _ \<Rightarrow> Some (FAILURE_INVALID_INPUT, decoded))"

lemma int_of_size_of_nat:
  assumes "n < 2 ^ 31"
  shows "int_of_size (of_nat n) = int n"
proof -
  have "uint (of_nat n :: 32 word) = int n" using assms by (simp add: unsigned_of_nat take_bit_nat_eq_self)
  moreover have "signed_take_bit 31 (int n) = int n" using assms by (intro signed_take_bit_int_eq_self) simp_all
  moreover have "(ucast (of_nat n :: u64) :: 32 word) = of_nat n"
    using assms by (simp add: ucast_eq unsigned_of_nat take_bit_nat_eq_self)
  ultimately show ?thesis by (simp only: int_of_size_def sint_uint) simp
qed

text \<open>
  On a buffer with room for three quarters of the input and a terminator, decoding stays within
  the buffer and, if it succeeds, leaves the decoded string in front of the old contents.
\<close>

lemma base64_decode_ok:
  assumes "decode_block_ok evp" "length encoded < 2 ^ 31" "3 * length encoded div 4 < length decoded"
  shows "base64_decode evp (Some encoded) (of_nat (length encoded)) (Some decoded) =
    (let (ok, out) = evp encoded
     in Some (if ok then (SUCCESS, Some (out @ 0 # drop (Suc (length out)) decoded))
              else (FAILURE_OPENSSL_FUNCTION, Some (out @ drop (length out) decoded))))"
proof -
  have "int_of_size (of_nat (length encoded)) = int (length encoded)"
    using assms(2) by (rule int_of_size_of_nat)
  then have input: "load_bytes encoded 0 (nat (int_of_size (of_nat (length encoded)))) = Some encoded"
    by (simp add: load_bytes_def)
  obtain ok out where evp: "evp encoded = (ok, out)" by (cases "evp encoded")
  have "4 * length out \<le> 3 * length encoded" using assms(1) evp by (metis decode_block_ok_def snd_conv)
  then have fits: "length out < length decoded" using assms(3) by linarith
  then show ?thesis
    by (simp add: base64_decode_def input evp store_bytes_def)
qed

end
