(* ===== verification/Blockchain.thy ===== *)
theory Blockchain imports Block Utilities begin

text \<open>
  The blockchain of \<^verbatim>\<open>src/blockchain.c\<close>: creation, destruction, appending a block, the
  proof-of-work test and the two mining loops.  Verification and serialisation are in
  theories of their own.

  What the mining loops read from other threads (\<open>should_stop\<close>, the version counters) is
  a function of the iteration: any behaviour of the other threads is some such function.
  Their progress output is added in theory \<open>Mining_Output\<close>.
\<close>

section \<open>Operations\<close>

definition blockchain_create ::
  "bool \<Rightarrow> u64 \<Rightarrow> heap \<Rightarrow> (return_code_t \<times> addr option \<times> heap) option" where
  "blockchain_create out zeros h =
     (if \<not> out then Some (FAILURE_INVALID_INPUT, None, h)
      else (case malloc (DataObj (BlockchainObj \<lparr>block_list = NULL, num_leading_zero_bytes = 0\<rparr>)) h of
          (new_blockchain, h) \<Rightarrow>
            if new_blockchain = NULL then Some (FAILURE_COULD_NOT_MALLOC, None, h)
            else (case linked_list_create True (Some BLOCK_DESTROY) None h of
                (return_code, list, h) \<Rightarrow>
                  if return_code \<noteq> SUCCESS then do {
                    h \<leftarrow> mem_free new_blockchain h;
                    Some (return_code, None, h)
                  }
                  else do {
                    h \<leftarrow> store_obj new_blockchain (DataObj (BlockchainObj
                           \<lparr>block_list = out_ptr list, num_leading_zero_bytes = zeros\<rparr>)) h;
                    Some (return_code, Some new_blockchain, h)
                  })))"

definition blockchain_destroy :: "addr \<Rightarrow> heap \<Rightarrow> (return_code_t \<times> heap) option" where
  "blockchain_destroy blockchain h =
     (if blockchain = NULL then Some (FAILURE_INVALID_INPUT, h)
      else do {
        c \<leftarrow> load_blockchain blockchain h;
        (return_code, h) \<leftarrow> linked_list_destroy app_free (block_list c) h;
        h \<leftarrow> mem_free blockchain h;
        Some (return_code, h)
      })"

definition synchronized_blockchain_create ::
  "bool \<Rightarrow> addr \<Rightarrow> heap \<Rightarrow> (return_code_t \<times> addr option \<times> heap) option" where
  "synchronized_blockchain_create out initial_blockchain h =
     (if \<not> out \<or> initial_blockchain = NULL then Some (FAILURE_INVALID_INPUT, None, h)
      else (case malloc (DataObj (SyncObj
               \<lparr>sync_blockchain = initial_blockchain, version = 0\<rparr>)) h of
          (new_sync, h) \<Rightarrow>
            if new_sync = NULL then None \<comment> \<open>the result of malloc is used unchecked\<close>
            else Some (SUCCESS, Some new_sync, h)))"

definition synchronized_blockchain_destroy :: "addr \<Rightarrow> heap \<Rightarrow> (return_code_t \<times> heap) option" where
  "synchronized_blockchain_destroy sync h =
     (if sync = NULL then Some (FAILURE_INVALID_INPUT, h)
      else do {
        s \<leftarrow> load_sync sync h;
        (return_code, h) \<leftarrow> blockchain_destroy (sync_blockchain s) h;
        if return_code \<noteq> SUCCESS then Some (return_code, h)
        else do {
          h \<leftarrow> mem_free sync h;
          Some (return_code, h)
        }
      })"

definition blockchain_add_block :: "addr \<Rightarrow> addr \<Rightarrow> heap \<Rightarrow> (return_code_t \<times> heap) option" where
  "blockchain_add_block blockchain block h =
     (if blockchain = NULL \<or> block = NULL then Some (FAILURE_INVALID_INPUT, h)
      else do {
        c \<leftarrow> load_blockchain blockchain h;
        linked_list_append (block_list c) block h
      })"

text \<open>The loop over \<open>block_hash.digest[idx]\<close>; an index outside the array is undefined.\<close>

function is_valid_block_hash_loop :: "nat \<Rightarrow> nat \<Rightarrow> sha_256_t \<Rightarrow> bool option" where
  "is_valid_block_hash_loop n idx digest =
     (if idx < n then
        (if idx < length digest then
           (if digest ! idx \<noteq> 0 then Some False else is_valid_block_hash_loop n (Suc idx) digest)
         else None)
      else Some True)"
  by pat_completeness auto
termination
  by (relation "measure (\<lambda>(n, idx, digest). n - idx)") auto

declare is_valid_block_hash_loop.simps [simp del]

definition blockchain_is_valid_block_hash ::
  "addr \<Rightarrow> sha_256_t \<Rightarrow> bool \<Rightarrow> heap \<Rightarrow> (return_code_t \<times> bool option) option" where
  "blockchain_is_valid_block_hash blockchain hash out h =
     (if blockchain = NULL \<or> \<not> out then Some (FAILURE_INVALID_INPUT, None)
      else do {
        c \<leftarrow> load_blockchain blockchain h;
        is_valid \<leftarrow> is_valid_block_hash_loop (unat (num_leading_zero_bytes c)) 0 hash;
        Some (SUCCESS, Some is_valid)
      })"

text \<open>
  The mining loop \<open>for (new_proof = 0; new_proof < UINT64_MAX; new_proof++)\<close>.
  \<open>interrupt i\<close> is the code with which iteration \<open>i\<close> leaves the loop before it
  hashes, if it does.
\<close>

partial_function (option) mine_loop ::
  "endianness \<Rightarrow> openssl \<Rightarrow> addr \<Rightarrow> addr \<Rightarrow> (nat \<Rightarrow> return_code_t option) \<Rightarrow> u64 \<Rightarrow> heap \<Rightarrow>
   (return_code_t \<times> heap) option" where
  "mine_loop e ssl blockchain block interrupt new_proof h =
     (if new_proof < 0xFFFFFFFFFFFFFFFF then
        (case interrupt (unat new_proof) of
            Some return_code \<Rightarrow> Some (return_code, h)
          | None \<Rightarrow> do {
              b \<leftarrow> load_block block h;
              h \<leftarrow> store_obj block (DataObj (BlockObj (b\<lparr>proof_of_work := new_proof\<rparr>))) h;
              (return_code, hash) \<leftarrow> block_hash e ssl block True h;
              if return_code \<noteq> SUCCESS then Some (return_code, h)
              else do {
                hash \<leftarrow> hash;
                (return_code, is_valid) \<leftarrow> blockchain_is_valid_block_hash blockchain hash True h;
                if return_code \<noteq> SUCCESS then Some (return_code, h)
                else if is_valid = Some True then Some (SUCCESS, h)
                else mine_loop e ssl blockchain block interrupt (new_proof + 1) h
              }
            })
      else Some (FAILURE_COULD_NOT_FIND_VALID_PROOF_OF_WORK, h))"

definition blockchain_mine_block ::
  "endianness \<Rightarrow> openssl \<Rightarrow> addr \<Rightarrow> addr \<Rightarrow> (nat \<Rightarrow> bool) option \<Rightarrow> heap \<Rightarrow>
   (return_code_t \<times> heap) option" where
  "blockchain_mine_block e ssl blockchain block should_stop h =
     (case should_stop of
        None \<Rightarrow> Some (FAILURE_INVALID_INPUT, h)
      | Some stop \<Rightarrow>
          if blockchain = NULL \<or> block = NULL then Some (FAILURE_INVALID_INPUT, h)
          else mine_loop e ssl blockchain block
                 (\<lambda>i. if stop i then Some FAILURE_STOPPED_EARLY else None) 0 h)"

text \<open>
  \<open>lock_ok\<close> and \<open>unlock_ok\<close> are the outcomes of the two mutex calls;
  \<open>mined i\<close> and \<open>current i\<close> are the values of the two version counters that
  iteration \<open>i\<close> loads.
\<close>

definition synchronized_blockchain_mine_block ::
  "endianness \<Rightarrow> openssl \<Rightarrow> bool \<Rightarrow> bool \<Rightarrow> addr \<Rightarrow> addr \<Rightarrow> (nat \<Rightarrow> bool) option \<Rightarrow>
   (nat \<Rightarrow> u64) option \<Rightarrow> (nat \<Rightarrow> u64) \<Rightarrow> heap \<Rightarrow> (return_code_t \<times> heap) option" where
  "synchronized_blockchain_mine_block e ssl lock_ok unlock_ok sync block should_stop mined current h =
     (case (should_stop, mined) of
        (Some stop, Some mined) \<Rightarrow>
          if sync = NULL \<or> block = NULL then Some (FAILURE_INVALID_INPUT, h)
          else if \<not> lock_ok then Some (FAILURE_PTHREAD_FUNCTION, h)
          else do {
            s \<leftarrow> load_sync sync h;
            if \<not> unlock_ok then Some (FAILURE_PTHREAD_FUNCTION, h)
            else mine_loop e ssl (sync_blockchain s) block
                   (\<lambda>i. if stop i then Some FAILURE_STOPPED_EARLY
                        else if mined i \<noteq> current i then Some FAILURE_LONGER_BLOCKCHAIN_DETECTED
                        else None) 0 h
          }
      | _ \<Rightarrow> Some (FAILURE_INVALID_INPUT, h))"

text \<open>
  What is written to the standard output for a chain: each proof of work in decimal, followed by
  an arrow, and the end of the line.  Nothing is printed for a null pointer.
\<close>

partial_function (option) blockchain_print_loop :: "addr \<Rightarrow> heap \<Rightarrow> string option" where
  "blockchain_print_loop node h =
     (if node = NULL then Some []
      else do {
        n \<leftarrow> load_node node h;
        b \<leftarrow> load_block (node_data n) h;
        printed \<leftarrow> blockchain_print_loop (node_next n) h;
        Some (decimal (unat (proof_of_work b)) @ ''->'' @ printed)
      })"

definition blockchain_print :: "addr \<Rightarrow> heap \<Rightarrow> string option" where
  "blockchain_print blockchain h =
     (if blockchain = NULL then Some []
      else do {
        c \<leftarrow> load_blockchain blockchain h;
        l \<leftarrow> load_list (block_list c) h;
        printed \<leftarrow> blockchain_print_loop (head l) h;
        Some (printed @ newline)
      })"

section \<open>Creation and destruction\<close>

lemma blockchain_destroy_eq:
  assumes "own_chain h a F c"
  shows "blockchain_destroy a h = Some (SUCCESS, free_all F h)"
  using assms
proof (rule own_chainE)
  fix l G
  assume *: "a \<noteq> NULL" "a \<notin> G" "F = insert a G"
    "store h a = Some (DataObj (BlockchainObj \<lparr>block_list = l, num_leading_zero_bytes = cv_zeros c\<rparr>))"
    "own_ll own_block BLOCK_DESTROY None h l G (cv_blocks c)"
  have "mem_free a (free_all G h) = Some (free_all F h)"
    using * by (subst mem_free_eq) simp_all
  with * show ?thesis
    by (simp add: blockchain_destroy_def load_blockchain_store blk_destroy.destroy_eq)
qed

lemma own_chain_self: "own_chain h a F c \<Longrightarrow> a \<in> F \<and> a \<noteq> NULL"
  by (auto elim: own_chainE)

text \<open>
  A heap for the witnesses: an empty chain at 1, which requires \<open>z\<close> zero bytes, and a
  block without transactions at 4 that is not part of it.
\<close>

definition example_heap :: "u64 \<Rightarrow> heap" where
  "example_heap z = empty_heap\<lparr>brk := 4, store :=
     [1 \<mapsto> DataObj (BlockchainObj \<lparr>block_list = 2, num_leading_zero_bytes = z\<rparr>),
      2 \<mapsto> ListObj \<lparr>free_function = BLOCK_DESTROY, compare_function = None, head = NULL\<rparr>,
      3 \<mapsto> ListObj \<lparr>free_function = TRANSACTION_DESTROY, compare_function = None, head = NULL\<rparr>,
      4 \<mapsto> DataObj (BlockObj \<lparr>block_created_at = 4, transaction_list = 3,
             proof_of_work = GENESIS_BLOCK_PROOF_OF_WORK, previous_block_hash = replicate 32 0\<rparr>)]\<rparr>"

lemma example_heap_owns:
  "own_chain (example_heap z) 1 {1, 2} \<lparr>cv_blocks = [], cv_zeros = z\<rparr>"
  "own_block (example_heap z) 4 {3, 4} (genesis_v 4)"
  by (auto simp: own_chain_def own_block_def own_transaction_list_def own_ll_def example_heap_def
      genesis_v_def)

lemma example_heap_ok: "heap_ok (example_heap z)" "malloc_ok (example_heap z) n"
  by (auto simp: example_heap_def heap_ok_def split: if_splits)

text \<open>
  C27. Destroying a blockchain frees exactly the objects it owns, every block, transaction,
  node and list of it: nothing is freed twice and nothing of it stays allocated.  Destroying
  the same pointer a second time is undefined behaviour.
\<close>

theorem blockchain_destroy_exact:
  assumes "own_chain h a F c"
  shows "blockchain_destroy a h = Some (SUCCESS, free_all F h) \<and>
    dom (store (free_all F h)) = dom (store h) - F \<and>
    blockchain_destroy a (free_all F h) = None"
proof -
  have "load_blockchain a (free_all F h) = None"
    using own_chain_self [OF assms] by (simp add: load_blockchain_def load_data_def load_obj_def)
  then have "blockchain_destroy a (free_all F h) = None"
    using own_chain_self [OF assms] by (simp add: blockchain_destroy_def)
  then show ?thesis
    using blockchain_destroy_eq [OF assms] by (auto simp: free_all_store)
qed

theorem blockchain_destroy_exact_witness:
  "blockchain_destroy 1 (example_heap 3) = Some (SUCCESS, free_all {1, 2} (example_heap 3)) \<and>
   blockchain_destroy 1 (free_all {1, 2} (example_heap 3)) = None"
  using blockchain_destroy_exact [OF example_heap_owns(1)] by blast

lemma blockchain_create_ok:
  assumes "heap_ok h" "malloc_ok h (brk h)" "malloc_ok h (Suc (brk h))"
  obtains h' where "blockchain_create True z h = Some (SUCCESS, Some (Suc (brk h)), h')"
    "own_chain h' (Suc (brk h)) {Suc (brk h), Suc (Suc (brk h))} \<lparr>cv_blocks = [], cv_zeros = z\<rparr>"
    "same_except {Suc (brk h), Suc (Suc (brk h))} h h'" "heap_ok h'" "brk h' = Suc (Suc (brk h))"
proof -
  let ?a = "Suc (brk h)" and ?l = "Suc (Suc (brk h))"
  let ?h = "h\<lparr>brk := ?l, store := (store h)(?a \<mapsto> DataObj (BlockchainObj
      \<lparr>block_list = ?l, num_leading_zero_bytes = z\<rparr>),
    ?l \<mapsto> ListObj \<lparr>free_function = BLOCK_DESTROY, compare_function = None, head = NULL\<rparr>)\<rparr>"
  have "blockchain_create True z h = Some (SUCCESS, Some ?a, ?h)"
    using assms(2,3) by (simp add: blockchain_create_def linked_list_create_def malloc_eq out_ptr_def
        store_obj_def fun_upd_twist)
  moreover have "own_chain ?h ?a {?a, ?l} \<lparr>cv_blocks = [], cv_zeros = z\<rparr>"
    by (auto simp: own_chain_def own_ll_def)
  moreover have "same_except {?a, ?l} h ?h" by (auto simp: same_except_def)
  moreover have "heap_ok ?h" using assms(1) by (auto simp: heap_ok_def intro: le_SucI)
  ultimately show ?thesis using that by simp
qed

lemma blockchain_create_fail:
  assumes "heap_ok h" "\<not> (malloc_ok h (brk h) \<and> malloc_ok h (Suc (brk h)))"
  obtains h' where "blockchain_create True z h = Some (FAILURE_COULD_NOT_MALLOC, None, h')"
    "same_except {} h h'" "heap_ok h'"
proof (cases "malloc_ok h (brk h)")
  case True
  let ?h = "h\<lparr>brk := Suc (Suc (brk h))\<rparr>"
  have "(store h)(Suc (brk h) := None) = store h"
    using heap_ok_fresh [OF assms(1)] by auto
  then have "blockchain_create True z h = Some (FAILURE_COULD_NOT_MALLOC, None, ?h)"
    using True assms(2)
    by (simp add: blockchain_create_def linked_list_create_def malloc_eq mem_free_def)
  moreover have "heap_ok ?h" using assms(1) by (auto simp: heap_ok_def intro: le_SucI)
  ultimately show ?thesis using that by (simp add: same_except_def)
next
  case False
  then have "blockchain_create True z h = Some (FAILURE_COULD_NOT_MALLOC, None, h\<lparr>brk := Suc (brk h)\<rparr>)"
    by (simp add: blockchain_create_def malloc_eq)
  then show ?thesis using that heap_ok_brk [OF assms(1)] by (simp add: same_except_def)
qed

section \<open>Printing\<close>

definition arrow :: "u64 \<Rightarrow> string" where
  "arrow p = decimal (unat p) @ ''->''"

lemma blockchain_print_loop_eq:
  "own_seg own_block h p F bs NULL \<Longrightarrow> blockchain_print_loop p h = Some (concat (map (arrow \<circ> bv_proof_of_work) bs))"
proof (induction bs arbitrary: p F)
  case Nil
  then show ?case by (simp add: blockchain_print_loop.simps)
next
  case (Cons b bs)
  from Cons.prems show ?case
  proof (rule blk.seg_ConsE)
    fix d q G H
    assume *: "p \<noteq> NULL" "load_node p h = Some \<lparr>node_data = d, node_next = q\<rparr>" "own_block h d G b"
      "own_seg own_block h q H bs NULL"
    obtain bt where "load_block d h = Some bt" "proof_of_work bt = bv_proof_of_work b"
      using own_block_load [OF *(3)] by metis
    with *(1,2) Cons.IH [OF *(4)] show ?thesis by (simp add: blockchain_print_loop.simps [of p] arrow_def)
  qed
qed

lemma blockchain_print_eq:
  assumes "own_chain h a F c"
  shows "blockchain_print a h = Some (concat (map (arrow \<circ> bv_proof_of_work) (cv_blocks c)) @ newline)"
  using assms
proof (rule own_chainE)
  fix l G
  assume *: "a \<noteq> NULL" "own_ll own_block BLOCK_DESTROY None h l G (cv_blocks c)"
    "store h a = Some (DataObj (BlockchainObj \<lparr>block_list = l, num_leading_zero_bytes = cv_zeros c\<rparr>))"
  from *(2) show ?thesis
    by (rule blk.ll_list)
      (use *(1) load_blockchain_store [OF *(1,3)] in \<open>simp add: blockchain_print_def blockchain_print_loop_eq\<close>)
qed

text \<open>The printed line identifies the proofs of work.\<close>

lemma arrows_inj: "concat (map arrow ps) @ newline = concat (map arrow qs) @ newline \<Longrightarrow> ps = qs"
proof (induction ps arbitrary: qs)
  case Nil
  then show ?case by (cases qs) (auto simp: arrow_def decimal_nonempty)
next
  case (Cons p ps)
  have first: "takeWhile (\<lambda>x. x \<noteq> CHR ''-'') (arrow p @ xs) = decimal (unat p)"
    "dropWhile (\<lambda>x. x \<noteq> CHR ''-'') (arrow p @ xs) = ''->'' @ xs" for p xs
    using decimal_no_minus [of "unat p"]
    by (auto simp: arrow_def takeWhile_append dropWhile_append)
  from Cons.prems obtain q qs' where qs: "qs = q # qs'"
    by (cases qs) (auto simp: arrow_def decimal_nonempty)
  with Cons.prems have eq: "arrow p @ concat (map arrow ps) @ newline = arrow q @ concat (map arrow qs') @ newline"
    by simp
  from arg_cong [OF eq, of "takeWhile (\<lambda>x. x \<noteq> CHR ''-'')"] have "p = q"
    unfolding first by (rule unsigned_word_eqI [OF decimal_inj])
  moreover from arg_cong [OF eq, of "dropWhile (\<lambda>x. x \<noteq> CHR ''-'')"] have "ps = qs'"
    unfolding first by (intro Cons.IH) simp
  ultimately show ?case using qs by simp
qed

lemma blockchain_print_inj:
  assumes "own_chain h a F c" "own_chain h' a' F' c'" "blockchain_print a h = blockchain_print a' h'"
  shows "map bv_proof_of_work (cv_blocks c) = map bv_proof_of_work (cv_blocks c')"
  using assms(3) unfolding blockchain_print_eq [OF assms(1)] blockchain_print_eq [OF assms(2)]
  by (intro arrows_inj) (simp add: comp_def)

section \<open>Appending a block\<close>

lemma blockchain_add_block_ok:
  assumes c: "own_chain h a F c" and b: "own_block h d G b" and disj: "F \<inter> G = {}"
    and ok: "heap_ok h" "malloc_ok h (brk h)"
  obtains h' where "blockchain_add_block a d h = Some (SUCCESS, h')"
    "own_chain h' a (insert (Suc (brk h)) (F \<union> G)) (c\<lparr>cv_blocks := cv_blocks c @ [b]\<rparr>)"
    "same_except (insert (Suc (brk h)) F) h h'" "heap_ok h'" "brk h' = Suc (brk h)"
  using c
proof (rule own_chainE)
  fix l H
  assume *: "a \<noteq> NULL" "a \<notin> H" "F = insert a H"
    "store h a = Some (DataObj (BlockchainObj \<lparr>block_list = l, num_leading_zero_bytes = cv_zeros c\<rparr>))"
    "own_ll own_block BLOCK_DESTROY None h l H (cv_blocks c)"
  have "H \<inter> G = {}" using disj *(3) by auto
  from *(5) b this ok show ?thesis
  proof (rule blk.append_ok)
    fix h'
    assume h': "linked_list_append l d h = Some (SUCCESS, h')"
      "own_ll own_block BLOCK_DESTROY None h' l (insert (Suc (brk h)) (H \<union> G)) (cv_blocks c @ [b])"
      "same_except (insert (Suc (brk h)) H) h h'" "heap_ok h'" "brk h' = Suc (brk h)"
    have fresh: "a \<noteq> Suc (brk h)" using heap_ok_fresh [OF ok(1)] *(4) by auto
    then have "store h' a = store h a" using h'(3) *(2) by (auto simp: same_except_def)
    then have "own_chain h' a (insert (Suc (brk h)) (F \<union> G)) (c\<lparr>cv_blocks := cv_blocks c @ [b]\<rparr>)"
      using * h'(2) fresh disj
      by (auto simp: own_chain_def intro!: exI [of _ l] exI [of _ "insert (Suc (brk h)) (H \<union> G)"])
    moreover have "blockchain_add_block a d h = Some (SUCCESS, h')"
      using * h'(1) blk.own_NULL [OF b] by (simp add: blockchain_add_block_def load_blockchain_store)
    ultimately show ?thesis
      using that h'(3-5) *(3) by (auto intro: same_except_mono)
  qed
qed

lemma blockchain_add_block_fail:
  assumes c: "own_chain h a F c" and "d \<noteq> NULL" "\<not> malloc_ok h (brk h)"
  shows "blockchain_add_block a d h = Some (FAILURE_COULD_NOT_MALLOC, h\<lparr>brk := Suc (brk h)\<rparr>)"
  using c
  by (rule own_chainE)
    (use assms(2,3) in \<open>simp add: blockchain_add_block_def load_blockchain_store blk.append_fail\<close>)

section \<open>Every chain value has a representation\<close>

text \<open>
  A heap \<open>h'\<close> extends \<open>h\<close> by the new objects \<open>F\<close>, and its allocator still
  serves every request.
\<close>

definition extends :: "addr set \<Rightarrow> heap \<Rightarrow> heap \<Rightarrow> bool" where
  "extends F h h' \<longleftrightarrow>
     same_except F h h' \<and> heap_ok h' \<and> (\<forall>n. malloc_ok h' n) \<and> (\<forall>a \<in> F. store h a = None)"

lemma extends_trans:
  assumes "extends F h h'" "same_except G h' h''" "heap_ok h''" "G \<subseteq> K" "F \<subseteq> K"
    "\<And>a. a \<in> K \<Longrightarrow> a \<notin> F \<Longrightarrow> store h' a = None"
  shows "extends K h h''"
  using assms unfolding extends_def same_except_def
  by (auto simp: subset_iff) metis

lemma alloc_data:
  assumes "heap_ok h" "\<forall>n. malloc_ok h n"
  obtains h' where "malloc v h = (Suc (brk h), h')" "same_except {Suc (brk h)} h h'" "heap_ok h'"
    "store h' (Suc (brk h)) = Some v" "store h (Suc (brk h)) = None"
  using assms heap_ok_fresh [OF assms(1)] heap_ok_alloc [OF assms(1)]
  by (auto simp: malloc_eq same_except_def)

lemma ex_transaction_list:
  assumes "heap_ok h" "\<forall>n. malloc_ok h n"
  shows "\<exists>h' l F. own_ll own_transaction TRANSACTION_DESTROY None h' l F ts \<and> extends F h h'"
proof (induction ts rule: rev_induct)
  case Nil
  from create_eq [of h TRANSACTION_DESTROY None own_transaction] assms obtain h' where
    "own_ll own_transaction TRANSACTION_DESTROY None h' (Suc (brk h)) {Suc (brk h)} []"
    "same_except {Suc (brk h)} h h'" "heap_ok h'" by blast
  moreover have "extends {Suc (brk h)} h h'"
    using calculation(2,3) assms heap_ok_fresh [of h] by (simp add: extends_def same_except_def)
  ultimately show ?case by blast
next
  case (snoc t ts)
  then obtain h1 l F where h1: "own_ll own_transaction TRANSACTION_DESTROY None h1 l F ts"
    "extends F h h1" by blast
  then have ok1: "heap_ok h1" "\<forall>n. malloc_ok h1 n" by (simp_all add: extends_def)
  from ok1 obtain h2 where h2: "same_except {Suc (brk h1)} h1 h2" "heap_ok h2"
    "store h2 (Suc (brk h1)) = Some (DataObj (TransactionObj t))" "store h1 (Suc (brk h1)) = None"
    by (rule alloc_data [where v = "DataObj (TransactionObj t)"])
  let ?d = "Suc (brk h1)"
  have d: "?d \<notin> F" using tx.ll_fresh [OF h1(1) ok1(1)] .
  then have l2: "own_ll own_transaction TRANSACTION_DESTROY None h2 l F ts"
    by (intro tx.ll_frame [OF h1(1)] same_except_apart [OF h2(1)]) auto
  have t2: "own_transaction h2 ?d {?d} t" using h2(3) by (simp add: own_transaction_def)
  have apart: "F \<inter> {?d} = {}" and ok2: "malloc_ok h2 (brk h2)"
    using ok1(2) h2(1) d by (auto simp: same_except_def)
  from l2 t2 apart h2(2) ok2 obtain h3 where h3:
    "own_ll own_transaction TRANSACTION_DESTROY None h3 l (insert (Suc (brk h2)) (F \<union> {?d})) (ts @ [t])"
    "same_except (insert (Suc (brk h2)) F) h2 h3" "heap_ok h3"
    by (rule tx.append_ok)
  have "extends (insert ?d F) h h2"
    using h1(2) h2(1,2) by (rule extends_trans) (use h2(4) in auto)
  then have "extends (insert (Suc (brk h2)) (F \<union> {?d})) h h3"
    using h3(2,3) by (rule extends_trans) (use heap_ok_fresh [OF h2(2)] in auto)
  with h3(1) show ?case by blast
qed

lemma ex_block:
  assumes "heap_ok h" "\<forall>n. malloc_ok h n"
  shows "\<exists>h' d F. own_block h' d F b \<and> extends F h h'"
proof -
  from ex_transaction_list [OF assms] obtain h1 l F where
    h1: "own_ll own_transaction TRANSACTION_DESTROY None h1 l F (bv_transactions b)" "extends F h h1"
    by blast
  then have ok1: "heap_ok h1" "\<forall>n. malloc_ok h1 n" by (simp_all add: extends_def)
  let ?b = "DataObj (BlockObj \<lparr>block_created_at = bv_created_at b, transaction_list = l,
    proof_of_work = bv_proof_of_work b, previous_block_hash = bv_previous_block_hash b\<rparr>)"
  let ?d = "Suc (brk h1)"
  from ok1 obtain h2 where h2: "same_except {?d} h1 h2" "heap_ok h2" "store h2 ?d = Some ?b"
    "store h1 ?d = None"
    by (rule alloc_data [where v = ?b])
  have d: "?d \<notin> F" using tx.ll_fresh [OF h1(1) ok1(1)] .
  then have "own_ll own_transaction TRANSACTION_DESTROY None h2 l F (bv_transactions b)"
    by (intro tx.ll_frame [OF h1(1)] same_except_apart [OF h2(1)]) auto
  then have "own_block h2 ?d (insert ?d F) b"
    using h2(3) d by (auto simp: own_block_def own_transaction_list_def)
  moreover have "extends (insert ?d F) h h2"
    using h1(2) h2(1,2) by (rule extends_trans) (use h2(4) in auto)
  ultimately show ?thesis by blast
qed

lemma ex_chain:
  assumes "heap_ok h" "\<forall>n. malloc_ok h n"
  shows "\<exists>h' a F. own_chain h' a F \<lparr>cv_blocks = bs, cv_zeros = z\<rparr> \<and> extends F h h'"
proof (induction bs rule: rev_induct)
  case Nil
  from assms(1) spec [OF assms(2)] spec [OF assms(2)] obtain h' where
    "own_chain h' (Suc (brk h)) {Suc (brk h), Suc (Suc (brk h))} \<lparr>cv_blocks = [], cv_zeros = z\<rparr>"
    "same_except {Suc (brk h), Suc (Suc (brk h))} h h'" "heap_ok h'"
    by (rule blockchain_create_ok [where z = z])
  moreover have "store h (Suc (Suc (brk h))) = None"
    using assms(1) by (rule_tac ccontr) (fastforce simp: heap_ok_def)
  then have "extends {Suc (brk h), Suc (Suc (brk h))} h h'"
    using calculation(2,3) assms heap_ok_fresh [of h] by (simp add: extends_def same_except_def)
  ultimately show ?case by blast
next
  case (snoc b bs)
  then obtain h1 a F where h1: "own_chain h1 a F \<lparr>cv_blocks = bs, cv_zeros = z\<rparr>" "extends F h h1"
    by blast
  then have ok1: "heap_ok h1" "\<forall>n. malloc_ok h1 n" by (simp_all add: extends_def)
  from ex_block [OF this] obtain h2 d G where h2: "own_block h2 d G b" "extends G h1 h2" by blast
  from h2(2) have ext: "same_except G h1 h2" "heap_ok h2" "\<forall>a \<in> G. store h1 a = None"
    by (simp_all add: extends_def)
  have apart: "F \<inter> G = {}" using own_chain_live [OF h1(1)] ext(3) by fastforce
  then have c2: "own_chain h2 a F \<lparr>cv_blocks = bs, cv_zeros = z\<rparr>"
    by (intro own_chain_frame [OF h1(1)] same_except_apart [OF ext(1)]) auto
  have ok2: "heap_ok h2" "malloc_ok h2 (brk h2)" using h2(2) by (simp_all add: extends_def)
  from c2 h2(1) apart ok2 obtain h3 where
    h3: "own_chain h3 a (insert (Suc (brk h2)) (F \<union> G)) \<lparr>cv_blocks = bs @ [b], cv_zeros = z\<rparr>"
    "same_except (insert (Suc (brk h2)) F) h2 h3" "heap_ok h3"
    by (rule blockchain_add_block_ok) auto
  have "extends (F \<union> G) h h2"
    using h1(2) ext(1,2) by (rule extends_trans) (use ext(3) in auto)
  then have "extends (insert (Suc (brk h2)) (F \<union> G)) h h3"
    using h3(2,3) by (rule extends_trans) (use heap_ok_fresh [OF ok2(1)] in auto)
  with h3(1) show ?case by blast
qed

lemma chain_representable: "\<exists>h a F. own_chain h a F c \<and> heap_ok h \<and> (\<forall>n. malloc_ok h n)"
proof -
  from ex_chain [of empty_heap "cv_blocks c" "cv_zeros c"] obtain h a F where
    "own_chain h a F \<lparr>cv_blocks = cv_blocks c, cv_zeros = cv_zeros c\<rparr>" "extends F empty_heap h" by auto
  moreover have "\<lparr>cv_blocks = cv_blocks c, cv_zeros = cv_zeros c\<rparr> = c" by (cases c) simp
  ultimately have "own_chain h a F c" "heap_ok h" "\<forall>n. malloc_ok h n" by (simp_all add: extends_def)
  then show ?thesis by blast
qed

section \<open>The proof-of-work test\<close>

definition leading_zeros :: "u64 \<Rightarrow> sha_256_t \<Rightarrow> bool" where
  "leading_zeros z hash \<longleftrightarrow> take (unat z) hash = replicate (unat z) 0"

lemma is_valid_block_hash_loop_eq:
  "n \<le> length digest \<Longrightarrow> idx \<le> n \<Longrightarrow>
   is_valid_block_hash_loop n idx digest = Some (\<forall>i \<in> {idx..<n}. digest ! i = 0)"
proof (induction n idx digest rule: is_valid_block_hash_loop.induct)
  case (1 n idx digest)
  show ?case
  proof (cases "idx < n")
    case True
    then have "{idx..<n} = insert idx {Suc idx..<n}" by auto
    with True 1 show ?thesis by (subst is_valid_block_hash_loop.simps) auto
  next
    case False
    then show ?thesis by (subst is_valid_block_hash_loop.simps) simp
  qed
qed

lemma leading_zeros_iff:
  "unat z \<le> length digest \<Longrightarrow> leading_zeros z digest \<longleftrightarrow> (\<forall>i < unat z. digest ! i = 0)"
  by (auto simp: leading_zeros_def list_eq_iff_nth_eq)

lemma is_valid_block_hash_eq:
  assumes "own_chain h a F c" "unat (cv_zeros c) \<le> length digest"
  shows "blockchain_is_valid_block_hash a digest True h =
    Some (SUCCESS, Some (leading_zeros (cv_zeros c) digest))"
  using assms(1)
  by (rule own_chainE)
    (use assms(2) in \<open>auto simp: blockchain_is_valid_block_hash_def load_blockchain_store
      is_valid_block_hash_loop_eq leading_zeros_iff atLeast0LessThan\<close>)

text \<open>
  A required number of zero bytes above 32 is not checked anywhere: the test of an
  all-zero digest then reads past the end of the digest.
\<close>

lemma is_valid_block_hash_reads_past_digest:
  assumes "own_chain h a F c" "32 < unat (cv_zeros c)"
  shows "blockchain_is_valid_block_hash a (replicate 32 0) True h = None"
proof -
  have "is_valid_block_hash_loop n idx (replicate 32 0) = None" if "32 < n" "idx \<le> 32" for n idx
    using that
  proof (induction n idx "replicate 32 (0 :: byte)" rule: is_valid_block_hash_loop.induct)
    case (1 n idx)
    then show ?case by (subst is_valid_block_hash_loop.simps) auto
  qed
  then have "is_valid_block_hash_loop (unat (cv_zeros c)) 0 (replicate 32 0) = None"
    using assms(2) by blast
  with assms(1) show ?thesis
    by (auto elim!: own_chainE simp: blockchain_is_valid_block_hash_def load_blockchain_store)
qed

section \<open>Mining\<close>

text \<open>The hash that proof \<open>k\<close> gives a block starts with the required zero bytes.\<close>

definition good_proof :: "endianness \<Rightarrow> openssl \<Rightarrow> u64 \<Rightarrow> block_v \<Rightarrow> nat \<Rightarrow> bool" where
  "good_proof e ssl z b k \<longleftrightarrow>
     leading_zeros z (hash_of e ssl (b\<lparr>bv_proof_of_work := of_nat k\<rparr>))"

abbreviation (input) UINT64_MAX :: nat where
  "UINT64_MAX \<equiv> 2 ^ 64 - 1"

text \<open>
  \<open>m\<close> is the iteration at which the loop, started at \<open>k\<close>, ends: no earlier one finds
  a good proof or is interrupted.
\<close>

definition mining_outcome ::
  "(nat \<Rightarrow> bool) \<Rightarrow> (nat \<Rightarrow> return_code_t option) \<Rightarrow> nat \<Rightarrow> nat \<Rightarrow> return_code_t \<Rightarrow> u64 \<Rightarrow> bool" where
  "mining_outcome good interrupt k m rc pow \<longleftrightarrow>
     k \<le> m \<and> m \<le> UINT64_MAX \<and>
     (\<forall>i. k \<le> i \<and> i < m \<longrightarrow> \<not> good i \<and> interrupt i = None) \<and>
     (if m = UINT64_MAX then rc = FAILURE_COULD_NOT_FIND_VALID_PROOF_OF_WORK
      else case interrupt m of
             Some r \<Rightarrow> rc = r
           | None \<Rightarrow> good m \<and> rc = SUCCESS \<and> pow = of_nat m)"

lemma own_block_set_pow:
  assumes "own_block h a F b"
  obtains blk h' where "load_block a h = Some blk"
    "store_obj a (DataObj (BlockObj (blk\<lparr>proof_of_work := p\<rparr>))) h = Some h'"
    "own_block h' a F (b\<lparr>bv_proof_of_work := p\<rparr>)" "same_except {a} h h'" "a \<noteq> NULL"
    "heap_ok h \<longrightarrow> heap_ok h'"
  using assms
proof (rule own_blockE)
  fix l G
  let ?b = "\<lparr>block_created_at = bv_created_at b, transaction_list = l,
    proof_of_work = bv_proof_of_work b, previous_block_hash = bv_previous_block_hash b\<rparr>"
  assume *: "a \<noteq> NULL" "a \<notin> G" "F = insert a G" "store h a = Some (DataObj (BlockObj ?b))"
    "own_transaction_list h l G (bv_transactions b)"
  let ?h = "h\<lparr>store := (store h)(a \<mapsto> DataObj (BlockObj (?b\<lparr>proof_of_work := p\<rparr>)))\<rparr>"
  have "own_transaction_list ?h l G (bv_transactions b)"
    using *(2) by (intro own_transaction_list_frame [OF *(5)]) auto
  then have "own_block ?h a F (b\<lparr>bv_proof_of_work := p\<rparr>)"
    using * by (auto simp: own_block_def)
  moreover have "store_obj a (DataObj (BlockObj (?b\<lparr>proof_of_work := p\<rparr>))) h = Some ?h"
    using * by (simp add: store_obj_def)
  ultimately show ?thesis
    using that [of ?b ?h] * load_block_store [OF *(1,4)] heap_ok_update [OF _ *(4)]
    by (simp add: same_except_def)
qed

lemma mine_loop_step:
  assumes b: "own_block h a F b" and c: "own_chain h x G c" and apart: "a \<notin> G"
    and ssl: "digest_ok ssl" and z: "unat (cv_zeros c) \<le> 32"
    and p: "p < 0xFFFFFFFFFFFFFFFF" "interrupt (unat p) = None"
  obtains h' where "own_block h' a F (b\<lparr>bv_proof_of_work := p\<rparr>)" "own_chain h' x G c"
    "same_except {a} h h'" "heap_ok h \<longrightarrow> heap_ok h'"
    "mine_loop e ssl x a interrupt p h =
       (if leading_zeros (cv_zeros c) (hash_of e ssl (b\<lparr>bv_proof_of_work := p\<rparr>)) then Some (SUCCESS, h')
        else mine_loop e ssl x a interrupt (p + 1) h')"
  using b
proof (rule own_block_set_pow [where p = p])
  fix blk h'
  assume *: "load_block a h = Some blk"
    "store_obj a (DataObj (BlockObj (blk\<lparr>proof_of_work := p\<rparr>))) h = Some h'"
    "own_block h' a F (b\<lparr>bv_proof_of_work := p\<rparr>)" "same_except {a} h h'" "heap_ok h \<longrightarrow> heap_ok h'"
  have c': "own_chain h' x G c"
    using apart *(4) by (intro own_chain_frame [OF c]) (auto simp: same_except_def)
  have ssl': "md_ctx_new_ok ssl" and len: "unat (cv_zeros c) \<le> length (hash_of e ssl b')" for b'
    using ssl z by (simp_all add: digest_ok_def hash_of_def)
  show ?thesis
    using that [OF *(3) c' *(4,5)] *(1,2) p block_hash_eq [OF *(3) ssl', of e]
      is_valid_block_hash_eq [OF c' len]
    by (simp add: mine_loop.simps [of _ _ _ _ _ p])
qed

lemma mining_outcome_later:
  "mining_outcome good interrupt (Suc k) m rc p \<Longrightarrow> \<not> good k \<Longrightarrow> interrupt k = None \<Longrightarrow>
   mining_outcome good interrupt k m rc p"
  by (auto simp: mining_outcome_def le_Suc_eq less_Suc_eq_le dest: le_neq_implies_less)

definition mined_block ::
  "endianness \<Rightarrow> openssl \<Rightarrow> addr \<Rightarrow> addr set \<Rightarrow> block_v \<Rightarrow> addr \<Rightarrow> addr set \<Rightarrow> chain_v \<Rightarrow>
   (nat \<Rightarrow> return_code_t option) \<Rightarrow> nat \<Rightarrow> heap \<Rightarrow> return_code_t \<Rightarrow> heap \<Rightarrow> bool" where
  "mined_block e ssl a F b x G c interrupt k h rc h' \<longleftrightarrow>
     (\<exists>m p. own_block h' a F (b\<lparr>bv_proof_of_work := p\<rparr>) \<and> own_chain h' x G c \<and> same_except {a} h h' \<and>
        (heap_ok h \<longrightarrow> heap_ok h') \<and>
        mining_outcome (good_proof e ssl (cv_zeros c) b) interrupt k m rc p)"

text \<open>A loop that ends before it hashes leaves the block as it is.\<close>

lemma mined_block_untouched:
  assumes "own_block h a F b" "own_chain h x G c"
    "mining_outcome (good_proof e ssl (cv_zeros c) b) interrupt k k rc (bv_proof_of_work b)"
  shows "mined_block e ssl a F b x G c interrupt k h rc h"
  unfolding mined_block_def
  using assms by (intro exI [of _ k] exI [of _ "bv_proof_of_work b"]) simp

lemma mined_block_later:
  assumes "same_except {a} h h1" "heap_ok h \<longrightarrow> heap_ok h1" "\<not> good_proof e ssl (cv_zeros c) b k" "interrupt k = None"
    and "mined_block e ssl a F (b\<lparr>bv_proof_of_work := p\<rparr>) x G c interrupt (Suc k) h1 rc h'"
  shows "mined_block e ssl a F b x G c interrupt k h rc h'"
proof -
  have same: "good_proof e ssl (cv_zeros c) (b\<lparr>bv_proof_of_work := p\<rparr>) = good_proof e ssl (cv_zeros c) b"
    by (simp add: good_proof_def [abs_def])
  from assms(5) obtain m q where m: "own_block h' a F (b\<lparr>bv_proof_of_work := q\<rparr>)" "own_chain h' x G c"
    "same_except {a} h1 h'" "heap_ok h1 \<longrightarrow> heap_ok h'"
    "mining_outcome (good_proof e ssl (cv_zeros c) b) interrupt (Suc k) m rc q"
    unfolding mined_block_def same by auto
  have "mining_outcome (good_proof e ssl (cv_zeros c) b) interrupt k m rc q"
    by (rule mining_outcome_later) (fact m(5) assms(3,4))+
  with m assms(2) same_except_trans [OF assms(1) m(3)] show ?thesis unfolding mined_block_def by auto
qed

lemma mine_loop_mined:
  assumes "own_block h a F b" "own_chain h x G c" "a \<notin> G" "digest_ok ssl" "unat (cv_zeros c) \<le> 32"
    and "k + n = UINT64_MAX"
  shows "\<exists>rc h'. mine_loop e ssl x a interrupt (of_nat k) h = Some (rc, h') \<and>
    mined_block e ssl a F b x G c interrupt k h rc h'"
  using assms
proof (induction n arbitrary: h k b)
  case 0
  then have "k = UINT64_MAX" by simp
  with 0 show ?case
    by (auto simp: mine_loop.simps mining_outcome_def intro!: mined_block_untouched)
next
  case (Suc n)
  let ?p = "of_nat k :: u64"
  have k: "k < UINT64_MAX" using Suc.prems(6) by simp
  then have up: "unat ?p = k" by simp
  then have p: "?p < 0xFFFFFFFFFFFFFFFF" using k by (simp add: word_less_nat_alt)
  show ?case
  proof (cases "interrupt k")
    case (Some rc)
    with p up k Suc.prems show ?thesis
      by (auto simp: mine_loop.simps mining_outcome_def intro!: mined_block_untouched)
  next
    case None
    then have int: "interrupt (unat ?p) = None" using up by simp
    from Suc.prems(1-5) p int obtain h' where
      *: "own_block h' a F (b\<lparr>bv_proof_of_work := ?p\<rparr>)" "own_chain h' x G c"
        "same_except {a} h h'" "heap_ok h \<longrightarrow> heap_ok h'"
        "mine_loop e ssl x a interrupt ?p h =
          (if leading_zeros (cv_zeros c) (hash_of e ssl (b\<lparr>bv_proof_of_work := ?p\<rparr>)) then Some (SUCCESS, h')
           else mine_loop e ssl x a interrupt (?p + 1) h')"
      by (rule mine_loop_step [where e = e])
    show ?thesis
    proof (cases "good_proof e ssl (cv_zeros c) b k")
      case True
      then have "mining_outcome (good_proof e ssl (cv_zeros c) b) interrupt k k SUCCESS ?p"
        using None k by (auto simp: mining_outcome_def)
      with * True show ?thesis by (auto simp: mined_block_def good_proof_def)
    next
      case False
      have "Suc k + n = UINT64_MAX" using Suc.prems(6) by simp
      from Suc.IH [OF *(1,2) Suc.prems(3-5) this] obtain rc h'' where
        "mine_loop e ssl x a interrupt (of_nat (Suc k)) h' = Some (rc, h'')"
        and later: "mined_block e ssl a F (b\<lparr>bv_proof_of_work := ?p\<rparr>) x G c interrupt (Suc k) h' rc h''"
        by blast
      then have "mine_loop e ssl x a interrupt ?p h = Some (rc, h'')"
        using *(5) False by (simp add: good_proof_def add.commute)
      moreover have "mined_block e ssl a F b x G c interrupt k h rc h''"
        using *(3,4) False None later by (rule mined_block_later)
      ultimately show ?thesis by blast
    qed
  qed
qed

lemma mine_loop_outcome:
  assumes "own_block h a F b" "own_chain h x G c" "a \<notin> G" "digest_ok ssl" "unat (cv_zeros c) \<le> 32"
    and "k + n = UINT64_MAX"
  shows "\<exists>rc h' m p. mine_loop e ssl x a interrupt (of_nat k) h = Some (rc, h') \<and>
    own_block h' a F (b\<lparr>bv_proof_of_work := p\<rparr>) \<and> own_chain h' x G c \<and> same_except {a} h h' \<and>
    (heap_ok h \<longrightarrow> heap_ok h') \<and>
    mining_outcome (good_proof e ssl (cv_zeros c) b) interrupt k m rc p"
  using mine_loop_mined [OF assms, of e interrupt] unfolding mined_block_def by blast

text \<open>
  C16. Mining always returns, and changes nothing but the block's proof of work.  If no
  earlier iteration is told to stop, the result is the least proof of work whose block hash
  starts with the required zero bytes; if there is none below \<open>UINT64_MAX\<close> (a value
  that is never tried), the failure is reported; a stop request seen at an iteration ends the
  search there.
\<close>

theorem blockchain_mine_block_outcome:
  assumes "own_block h a F b" "own_chain h x G c" "a \<notin> G" "digest_ok ssl" "unat (cv_zeros c) \<le> 32"
  shows "\<exists>rc h' m p. blockchain_mine_block e ssl x a (Some stop) h = Some (rc, h') \<and>
    own_block h' a F (b\<lparr>bv_proof_of_work := p\<rparr>) \<and> own_chain h' x G c \<and> same_except {a} h h' \<and>
    m \<le> UINT64_MAX \<and>
    (\<forall>i < m. \<not> stop i \<and>
       \<not> leading_zeros (cv_zeros c) (hash_of e ssl (b\<lparr>bv_proof_of_work := of_nat i\<rparr>))) \<and>
    (if m = UINT64_MAX then rc = FAILURE_COULD_NOT_FIND_VALID_PROOF_OF_WORK
     else if stop m then rc = FAILURE_STOPPED_EARLY
     else rc = SUCCESS \<and> p = of_nat m \<and>
       leading_zeros (cv_zeros c) (hash_of e ssl (b\<lparr>bv_proof_of_work := p\<rparr>)))"
proof -
  let ?int = "\<lambda>i. if stop i then Some FAILURE_STOPPED_EARLY else None"
  have "0 + UINT64_MAX = UINT64_MAX" by simp
  from mine_loop_outcome [OF assms this, where e = e and interrupt = ?int] obtain rc h' m p where
    *: "mine_loop e ssl x a ?int 0 h = Some (rc, h')"
    "own_block h' a F (b\<lparr>bv_proof_of_work := p\<rparr>)" "own_chain h' x G c" "same_except {a} h h'"
    "mining_outcome (good_proof e ssl (cv_zeros c) b) ?int 0 m rc p" by auto
  have "a \<noteq> NULL" "x \<noteq> NULL" using blk.own_NULL [OF assms(1)] own_chain_self [OF assms(2)] by auto
  with *(1) have "blockchain_mine_block e ssl x a (Some stop) h = Some (rc, h')"
    by (simp add: blockchain_mine_block_def)
  with * show ?thesis
    by (intro exI [of _ rc] exI [of _ h'] exI [of _ m] exI [of _ p])
      (auto simp: mining_outcome_def good_proof_def split: if_splits)
qed

theorem blockchain_mine_block_outcome_witness:
  "\<exists>rc h' p. blockchain_mine_block Little example_openssl 1 4 (Some (\<lambda>i. 5 \<le> i)) (example_heap 2) =
     Some (rc, h') \<and> own_block h' 4 {3, 4} ((genesis_v 4)\<lparr>bv_proof_of_work := p\<rparr>)"
proof -
  let ?c = "\<lparr>cv_blocks = [], cv_zeros = 2\<rparr> :: chain_v"
  have "4 \<notin> {1, 2 :: nat}" "unat (cv_zeros ?c) \<le> 32" by simp_all
  from blockchain_mine_block_outcome [OF example_heap_owns(2,1) this(1) example_openssl_ok(3) this(2),
      where e = Little and stop = "\<lambda>i. 5 \<le> i"]
  show ?thesis by blast
qed

text \<open>
  C17. Mining on the shared chain behaves the same and also ends at the first iteration that
  finds the shared version different from the one being mined.
\<close>

theorem synchronized_blockchain_mine_block_outcome:
  assumes "own_block h a F b" "own_chain h x G c" "a \<notin> G" "digest_ok ssl" "unat (cv_zeros c) \<le> 32"
    and "s \<noteq> NULL" "store h s = Some (DataObj (SyncObj \<lparr>sync_blockchain = x, version = v\<rparr>))"
  shows "\<exists>rc h' m p.
    synchronized_blockchain_mine_block e ssl True True s a (Some stop) (Some mined) current h =
      Some (rc, h') \<and>
    own_block h' a F (b\<lparr>bv_proof_of_work := p\<rparr>) \<and> own_chain h' x G c \<and> same_except {a} h h' \<and>
    m \<le> UINT64_MAX \<and>
    (\<forall>i < m. \<not> stop i \<and> mined i = current i \<and>
       \<not> leading_zeros (cv_zeros c) (hash_of e ssl (b\<lparr>bv_proof_of_work := of_nat i\<rparr>))) \<and>
    (if m = UINT64_MAX then rc = FAILURE_COULD_NOT_FIND_VALID_PROOF_OF_WORK
     else if stop m then rc = FAILURE_STOPPED_EARLY
     else if mined m \<noteq> current m then rc = FAILURE_LONGER_BLOCKCHAIN_DETECTED
     else rc = SUCCESS \<and> p = of_nat m \<and>
       leading_zeros (cv_zeros c) (hash_of e ssl (b\<lparr>bv_proof_of_work := p\<rparr>)))"
proof -
  let ?int = "\<lambda>i. if stop i then Some FAILURE_STOPPED_EARLY
    else if mined i \<noteq> current i then Some FAILURE_LONGER_BLOCKCHAIN_DETECTED else None"
  have "0 + UINT64_MAX = UINT64_MAX" by simp
  from mine_loop_outcome [OF assms(1-5) this, where e = e and interrupt = ?int] obtain rc h' m p where
    *: "mine_loop e ssl x a ?int 0 h = Some (rc, h')"
    "own_block h' a F (b\<lparr>bv_proof_of_work := p\<rparr>)" "own_chain h' x G c" "same_except {a} h h'"
    "mining_outcome (good_proof e ssl (cv_zeros c) b) ?int 0 m rc p" by auto
  have "a \<noteq> NULL" using blk.own_NULL [OF assms(1)] .
  with *(1) assms(6,7) have
    "synchronized_blockchain_mine_block e ssl True True s a (Some stop) (Some mined) current h =
      Some (rc, h')"
    by (simp add: synchronized_blockchain_mine_block_def load_sync_def load_data_def load_obj_def)
  with * show ?thesis
    by (intro exI [of _ rc] exI [of _ h'] exI [of _ m] exI [of _ p])
      (auto simp: mining_outcome_def good_proof_def split: if_splits)
qed

theorem synchronized_blockchain_mine_block_outcome_witness:
  "\<exists>rc h'. synchronized_blockchain_mine_block Little example_openssl True True 5 4
     (Some (\<lambda>i. False)) (Some (\<lambda>i. 0)) (\<lambda>i. if i < 7 then 0 else 1)
     ((example_heap 2)\<lparr>store := (store (example_heap 2))(5 \<mapsto>
        DataObj (SyncObj \<lparr>sync_blockchain = 1, version = 0\<rparr>))\<rparr>) = Some (rc, h')"
proof -
  let ?c = "\<lparr>cv_blocks = [], cv_zeros = 2\<rparr> :: chain_v"
  let ?h = "(example_heap 2)\<lparr>store := (store (example_heap 2))(5 \<mapsto>
    DataObj (SyncObj \<lparr>sync_blockchain = 1, version = 0\<rparr>))\<rparr>"
  have "own_block ?h 4 {3, 4} (genesis_v 4)" by (rule own_block_frame [OF example_heap_owns(2)]) auto
  moreover have "own_chain ?h 1 {1, 2} ?c" by (rule own_chain_frame [OF example_heap_owns(1)]) auto
  moreover have "4 \<notin> {1, 2 :: nat}" "unat (cv_zeros ?c) \<le> 32" "(5 :: nat) \<noteq> NULL"
    "store ?h 5 = Some (DataObj (SyncObj \<lparr>sync_blockchain = 1, version = 0\<rparr>))" by simp_all
  ultimately show ?thesis
    using synchronized_blockchain_mine_block_outcome [where h = ?h and e = Little
        and stop = "\<lambda>i. False" and mined = "\<lambda>i. 0" and current = "\<lambda>i. if i < 7 then 0 else 1",
        OF _ _ _ example_openssl_ok(3)]
    by blast
qed

end
