(* ===== verification/Blockchain_Serialize.thy ===== *)
theory Blockchain_Serialize imports Blockchain Buffers begin

text \<open>
  \<open>blockchain_serialize\<close> and \<open>blockchain_write_to_file\<close> of \<^verbatim>\<open>src/blockchain.c\<close>, and
  the wire format they produce.

  The serialiser grows a buffer with \<open>realloc\<close> and writes each field at an offset; a
  write outside the buffer is undefined behaviour.  The wire format is given by the
  \<open>enc_\<close> functions on abstract values.
\<close>

section \<open>The wire format\<close>

definition enc_transaction :: "transaction_t \<Rightarrow> byte list" where
  "enc_transaction t =
     be_bytes (tx_created_at t) @ sender_public_key t @ recipient_public_key t @
     be_bytes (amount t) @ be_bytes (sig_length (sender_signature t)) @
     sig_bytes (sender_signature t)"

definition enc_block :: "block_v \<Rightarrow> byte list" where
  "enc_block b =
     be_bytes (bv_created_at b) @ bv_previous_block_hash b @ be_bytes (bv_proof_of_work b) @
     be_bytes (of_nat (length (bv_transactions b)) :: u64) @
     concat (map enc_transaction (bv_transactions b))"

definition enc_chain :: "chain_v \<Rightarrow> byte list" where
  "enc_chain c =
     be_bytes (cv_zeros c) @ be_bytes (of_nat (length (cv_blocks c)) :: u64) @
     concat (map enc_block (cv_blocks c))"

section \<open>The serialiser\<close>

definition serialize_transaction ::
  "endianness \<Rightarrow> transaction_t \<Rightarrow> byte list \<Rightarrow> u64 \<Rightarrow> heap \<Rightarrow> serializer" where
  "serialize_transaction e t serialization_buffer sz h =
     (let offset = unat sz;
          sz = sz + 8;
          sz = sz + of_nat MAX_SSH_KEY_LENGTH;
          sz = sz + of_nat MAX_SSH_KEY_LENGTH;
          sz = sz + 8;
          sz = sz + 8;
          sz = sz + of_nat MAX_SSH_SIGNATURE_LENGTH
      in case realloc_buf serialization_buffer (unat sz) h of
           (None, h) \<Rightarrow> Some (FAILURE_COULD_NOT_MALLOC, [], sz, h)
         | (Some buf, h) \<Rightarrow> do {
             buf \<leftarrow> store_word e buf offset (htobe64 e (tx_created_at t));
             (buf, next) \<leftarrow> store_loop buf (offset + 8) (sender_public_key t);
             (buf, next) \<leftarrow> store_loop buf next (recipient_public_key t);
             buf \<leftarrow> store_word e buf next (htobe64 e (amount t));
             buf \<leftarrow> store_word e buf (next + 8) (htobe64 e (sig_length (sender_signature t)));
             (buf, next) \<leftarrow> store_loop buf (next + 8 + 8) (sig_bytes (sender_signature t));
             Some (SUCCESS, buf, sz, h)
           })"

partial_function (option) serialize_transactions_loop ::
  "endianness \<Rightarrow> addr \<Rightarrow> byte list \<Rightarrow> u64 \<Rightarrow> heap \<Rightarrow> serializer" where
  "serialize_transactions_loop e transaction_node buf sz h =
     (if transaction_node = NULL then Some (SUCCESS, buf, sz, h)
      else do {
        n \<leftarrow> load_node transaction_node h;
        t \<leftarrow> load_transaction (node_data n) h;
        (return_code, buf, sz, h) \<leftarrow> serialize_transaction e t buf sz h;
        if return_code \<noteq> SUCCESS then Some (return_code, buf, sz, h)
        else serialize_transactions_loop e (node_next n) buf sz h
      })"

definition serialize_block ::
  "endianness \<Rightarrow> block_t \<Rightarrow> byte list \<Rightarrow> u64 \<Rightarrow> heap \<Rightarrow> serializer" where
  "serialize_block e b serialization_buffer sz h =
     do {
       (return_code, num_transactions) \<leftarrow> linked_list_length (transaction_list b) True h;
       if return_code \<noteq> SUCCESS then Some (return_code, [], sz, h)
       else do {
         num_transactions_in_block \<leftarrow> num_transactions;
         let offset = unat sz;
             sz = sz + 8;
             sz = sz + of_nat SHA256_DIGEST_LENGTH;
             sz = sz + 8;
             sz = sz + 8
         in (case realloc_buf serialization_buffer (unat sz) h of
               (None, h) \<Rightarrow> Some (FAILURE_COULD_NOT_MALLOC, [], sz, h)
             | (Some buf, h) \<Rightarrow> do {
                 buf \<leftarrow> store_word e buf offset (htobe64 e (block_created_at b));
                 (buf, next) \<leftarrow> store_loop buf (offset + 8) (previous_block_hash b);
                 buf \<leftarrow> store_word e buf next (htobe64 e (proof_of_work b));
                 buf \<leftarrow> store_word e buf (next + 8) (htobe64 e num_transactions_in_block);
                 l \<leftarrow> load_list (transaction_list b) h;
                 serialize_transactions_loop e (head l) buf sz h
               })
       }
     }"

partial_function (option) serialize_blocks_loop ::
  "endianness \<Rightarrow> addr \<Rightarrow> byte list \<Rightarrow> u64 \<Rightarrow> heap \<Rightarrow> serializer" where
  "serialize_blocks_loop e block_node buf sz h =
     (if block_node = NULL then Some (SUCCESS, buf, sz, h)
      else do {
        n \<leftarrow> load_node block_node h;
        b \<leftarrow> load_block (node_data n) h;
        (return_code, buf, sz, h) \<leftarrow> serialize_block e b buf sz h;
        if return_code \<noteq> SUCCESS then Some (return_code, buf, sz, h)
        else serialize_blocks_loop e (node_next n) buf sz h
      })"

definition blockchain_serialize ::
  "endianness \<Rightarrow> addr \<Rightarrow> bool \<Rightarrow> bool \<Rightarrow> heap \<Rightarrow>
   (return_code_t \<times> (byte list \<times> u64) option \<times> heap) option" where
  "blockchain_serialize e blockchain buffer_out size_out h =
     (if blockchain = NULL \<or> \<not> buffer_out \<or> \<not> size_out then Some (FAILURE_INVALID_INPUT, None, h)
      else do {
        c \<leftarrow> load_blockchain blockchain h;
        (return_code, num_blocks) \<leftarrow> linked_list_length (block_list c) True h;
        if return_code \<noteq> SUCCESS then Some (return_code, None, h)
        else do {
          num_blocks \<leftarrow> num_blocks;
          let sz = 8 + 8 :: u64
          in (case calloc_buf (unat sz) h of
                (None, h) \<Rightarrow> Some (FAILURE_COULD_NOT_MALLOC, None, h)
              | (Some buf, h) \<Rightarrow> do {
                  buf \<leftarrow> store_word e buf 0 (htobe64 e (num_leading_zero_bytes c));
                  buf \<leftarrow> store_word e buf 8 (htobe64 e num_blocks);
                  l \<leftarrow> load_list (block_list c) h;
                  (return_code, buf, sz, h) \<leftarrow> serialize_blocks_loop e (head l) buf sz h;
                  if return_code \<noteq> SUCCESS then Some (return_code, None, h)
                  else Some (SUCCESS, Some (buf, sz), h)
                })
        }
      })"

section \<open>Lengths\<close>

lemma length_enc_transaction [codec_simps]: "wf_transaction t \<Longrightarrow> length (enc_transaction t) = 8728"
  by (simp add: enc_transaction_def wf_transaction_def)

lemma length_enc_block:
  "wf_block b \<Longrightarrow> length (enc_block b) = 56 + 8728 * length (bv_transactions b)"
  by (simp add: enc_block_def wf_block_def length_concat_const [where n = 8728] length_enc_transaction)

lemma length_blocks_enc_chain: "length (cv_blocks c) \<le> length (enc_chain c)"
proof -
  have "length bs \<le> length (concat (map enc_block bs))" for bs
    by (induction bs) (simp_all add: enc_block_def)
  from this [of "cv_blocks c"] show ?thesis by (simp add: enc_chain_def)
qed

section \<open>The serialiser writes the wire format\<close>

lemma serialize_transaction_appends:
  assumes "wf_transaction t" "length buf + 8728 < 2 ^ 63"
  shows "appends (enc_transaction t) buf h (serialize_transaction e t buf (of_nat (length buf)) h)"
proof (cases "malloc_ok h (brk h)")
  case False
  then show ?thesis
    by (auto simp: appends_def serialize_transaction_def Let_def realloc_buf_def request_def
        intro: same_except_brk)
next
  case True
  define R where "R = replicate 8728 (junk h)"
  then have R: "length R = 8728" by simp
  have sz: "of_nat (length buf) + 8 + of_nat MAX_SSH_KEY_LENGTH + of_nat MAX_SSH_KEY_LENGTH + 8 + 8 +
      of_nat MAX_SSH_SIGNATURE_LENGTH = (of_nat (length buf + 8728) :: u64)" by simp
  have grow: "realloc_buf buf (length buf + 8728) h =
      (Some (buf @ drop 0 R), h\<lparr>brk := Suc (brk h)\<rparr>)"
    using True assms(2) by (simp add: realloc_grow R_def)
  have "serialize_transaction e t buf (of_nat (length buf)) h =
      Some (SUCCESS, buf @ enc_transaction t, of_nat (length buf + 8728), h\<lparr>brk := Suc (brk h)\<rparr>)"
    using assms unfolding serialize_transaction_def Let_def sz
    by (simp add: grow store_wire store_loop_next wf_transaction_def enc_transaction_def R
        del: append_assoc drop0 of_nat_add add: append_assoc [symmetric])
  then show ?thesis
    using assms(1) by (auto simp: appends_def length_enc_transaction intro: same_except_brk)
qed

lemma transactions_loop_appends:
  assumes "own_seg own_transaction h p F ts NULL" "\<forall>t \<in> set ts. wf_transaction t"
    "length buf + 8728 * length ts < 2 ^ 63"
  shows "appends (concat (map enc_transaction ts)) buf h
    (serialize_transactions_loop e p buf (of_nat (length buf)) h)"
  using assms
proof (induction ts arbitrary: p F buf h)
  case Nil
  then show ?case by (auto simp: serialize_transactions_loop.simps appends_def)
next
  case (Cons t ts)
  from Cons.prems(1) show ?case
  proof (rule tx.seg_ConsE)
    fix d q G H
    assume *: "p \<noteq> NULL" "load_node p h = Some \<lparr>node_data = d, node_next = q\<rparr>"
      "own_transaction h d G t" "own_seg own_transaction h q H ts NULL"
    have len: "length (enc_transaction t) = 8728"
      using Cons.prems(2) by (simp add: length_enc_transaction)
    have "appends (enc_transaction t) buf h (serialize_transaction e t buf (of_nat (length buf)) h)"
      using Cons.prems(2,3) by (intro serialize_transaction_appends) simp_all
    then have "appends (enc_transaction t @ concat (map enc_transaction ts)) buf h
      (Option.bind (serialize_transaction e t buf (of_nat (length buf)) h)
        (\<lambda>(rc, buf, sz, h). if rc \<noteq> SUCCESS then Some (rc, buf, sz, h)
           else serialize_transactions_loop e q buf sz h))"
    proof (rule appends_then)
      fix h'
      assume h': "same_except {} h h'"
      have "own_seg own_transaction h' q H ts NULL"
        by (intro tx.seg_frame [OF *(4)] same_except_store [OF h']) simp
      then show "appends (concat (map enc_transaction ts)) (buf @ enc_transaction t) h'
          (if SUCCESS \<noteq> SUCCESS
           then Some (SUCCESS, buf @ enc_transaction t, of_nat (length (buf @ enc_transaction t)), h')
           else serialize_transactions_loop e q (buf @ enc_transaction t)
             (of_nat (length (buf @ enc_transaction t))) h')"
        using Cons.IH [of h' q H "buf @ enc_transaction t"] Cons.prems(2,3) len by simp
    qed simp
    with *(1,2) own_transaction_load [OF *(3)] show ?thesis
      by (simp add: serialize_transactions_loop.simps [of _ p] cong: if_cong)
  qed
qed

lemma serialize_block_appends:
  assumes bt: "own_transaction_list h (transaction_list bt) G (bv_transactions b)"
    "block_created_at bt = bv_created_at b" "proof_of_work bt = bv_proof_of_work b"
    "previous_block_hash bt = bv_previous_block_hash b"
    and wf: "wf_block b" and small: "length buf + length (enc_block b) < 2 ^ 63"
  shows "appends (enc_block b) buf h (serialize_block e bt buf (of_nat (length buf)) h)"
proof -
  define hdr where "hdr = be_bytes (bv_created_at b) @ bv_previous_block_hash b @
    be_bytes (bv_proof_of_work b) @ be_bytes (of_nat (length (bv_transactions b)) :: u64)"
  have hdr: "length hdr = 56" using wf by (simp add: hdr_def wf_block_def)
  have enc: "enc_block b = hdr @ concat (map enc_transaction (bv_transactions b))"
    by (simp add: hdr_def enc_block_def)
  have len: "length buf + 56 + 8728 * length (bv_transactions b) < 2 ^ 63"
    using small length_enc_block [OF wf] by simp
  from bt(1) obtain f where
    ll: "own_ll own_transaction f None h (transaction_list bt) G (bv_transactions b)"
    by (rule own_transaction_listE)
  from ll show ?thesis
  proof (rule tx.ll_list)
    fix p A
    assume p: "load_list (transaction_list bt) h =
        Some \<lparr>free_function = f, compare_function = None, head = p\<rparr>"
      "own_seg own_transaction h p A (bv_transactions b) NULL"
    let ?h = "h\<lparr>brk := Suc (brk h)\<rparr>"
    have sz: "of_nat (length buf) + 8 + of_nat SHA256_DIGEST_LENGTH + 8 + 8 =
        (of_nat (length buf + 56) :: u64)" by simp
    show ?thesis
    proof (cases "malloc_ok h (brk h)")
      case False
      with tx.length_eq [OF ll] show ?thesis
        by (auto simp: appends_def serialize_block_def Let_def realloc_buf_def request_def
            intro: same_except_brk)
    next
      case True
      define R where "R = replicate 56 (junk h)"
      then have R: "length R = 56" by simp
      have grow: "realloc_buf buf (length buf + 56) h = (Some (buf @ drop 0 R), ?h)"
        using True len by (simp add: realloc_grow R_def)
      have l: "load_list (transaction_list bt) ?h = load_list (transaction_list bt) h"
        by (simp add: load_list_def load_obj_def)
      have "serialize_block e bt buf (of_nat (length buf)) h =
          serialize_transactions_loop e p (buf @ hdr) (of_nat (length buf + 56)) ?h"
        using wf len p(1) bt(2-4) tx.length_eq [OF ll] unfolding serialize_block_def Let_def sz
        by (simp add: grow store_wire store_loop_next wf_block_def hdr_def R l
            del: append_assoc drop0 of_nat_add add: append_assoc [symmetric])
      moreover have "own_seg own_transaction ?h p A (bv_transactions b) NULL"
        by (rule tx.seg_frame [OF p(2)]) simp
      then have "appends (concat (map enc_transaction (bv_transactions b))) (buf @ hdr) ?h
          (serialize_transactions_loop e p (buf @ hdr) (of_nat (length (buf @ hdr))) ?h)"
        using wf len hdr by (intro transactions_loop_appends) (simp_all add: wf_block_def)
      ultimately show ?thesis
        using appends_after [OF _ same_except_brk] hdr by (simp add: enc)
    qed
  qed
qed

lemma blocks_loop_appends:
  assumes "own_seg own_block h p F bs NULL" "\<forall>b \<in> set bs. wf_block b"
    "length buf + length (concat (map enc_block bs)) < 2 ^ 63"
  shows "appends (concat (map enc_block bs)) buf h
    (serialize_blocks_loop e p buf (of_nat (length buf)) h)"
  using assms
proof (induction bs arbitrary: p F buf h)
  case Nil
  then show ?case by (auto simp: serialize_blocks_loop.simps appends_def)
next
  case (Cons b bs)
  from Cons.prems(1) show ?case
  proof (rule blk.seg_ConsE)
    fix d q G H
    assume *: "p \<noteq> NULL" "load_node p h = Some \<lparr>node_data = d, node_next = q\<rparr>"
      "own_block h d G b" "own_seg own_block h q H bs NULL"
    from *(3) obtain bt A where bt: "load_block d h = Some bt"
      "previous_block_hash bt = bv_previous_block_hash b"
      "own_transaction_list h (transaction_list bt) A (bv_transactions b)"
      "proof_of_work bt = bv_proof_of_work b" "block_created_at bt = bv_created_at b"
      by (rule own_block_load)
    have "appends (enc_block b) buf h (serialize_block e bt buf (of_nat (length buf)) h)"
      using Cons.prems(2,3) bt by (intro serialize_block_appends) simp_all
    then have "appends (enc_block b @ concat (map enc_block bs)) buf h
      (Option.bind (serialize_block e bt buf (of_nat (length buf)) h)
        (\<lambda>(rc, buf, sz, h). if rc \<noteq> SUCCESS then Some (rc, buf, sz, h)
           else serialize_blocks_loop e q buf sz h))"
    proof (rule appends_then)
      fix h'
      assume h': "same_except {} h h'"
      have "own_seg own_block h' q H bs NULL"
        by (intro blk.seg_frame [OF *(4)] same_except_store [OF h']) simp
      then show "appends (concat (map enc_block bs)) (buf @ enc_block b) h'
          (if SUCCESS \<noteq> SUCCESS
           then Some (SUCCESS, buf @ enc_block b, of_nat (length (buf @ enc_block b)), h')
           else serialize_blocks_loop e q (buf @ enc_block b) (of_nat (length (buf @ enc_block b))) h')"
        using Cons.IH [of h' q H "buf @ enc_block b"] Cons.prems(2,3) by simp
    qed simp
    with *(1,2) bt(1) show ?thesis
      by (simp add: serialize_blocks_loop.simps [of _ p] cong: if_cong)
  qed
qed

text \<open>The header of a chain, after which the loop over the blocks runs.\<close>

definition enc_chain_header :: "chain_v \<Rightarrow> byte list" where
  "enc_chain_header c = be_bytes (cv_zeros c) @ be_bytes (of_nat (length (cv_blocks c)) :: u64)"

lemma enc_chain_split:
  "enc_chain c = enc_chain_header c @ concat (map enc_block (cv_blocks c))" "length (enc_chain_header c) = 16"
  by (simp_all add: enc_chain_def enc_chain_header_def)

lemma serialize_header:
  assumes "own_chain h a F c" "malloc_ok h (brk h)"
  obtains p B where "own_seg own_block h p B (cv_blocks c) NULL"
    "blockchain_serialize e a True True h =
       Option.bind (serialize_blocks_loop e p (enc_chain_header c) 16 (h\<lparr>brk := Suc (brk h)\<rparr>)) (\<lambda>(rc, buf, sz, h).
         if rc \<noteq> SUCCESS then Some (rc, None, h) else Some (SUCCESS, Some (buf, sz), h))"
  using assms(1)
proof (rule own_chainE)
  fix l A
  assume *: "a \<noteq> NULL"
    "store h a = Some (DataObj (BlockchainObj \<lparr>block_list = l, num_leading_zero_bytes = cv_zeros c\<rparr>))"
    "own_ll own_block BLOCK_DESTROY None h l A (cv_blocks c)"
  from *(3) show ?thesis
  proof (rule blk.ll_list)
    fix p B
    assume l: "load_list l h = Some \<lparr>free_function = BLOCK_DESTROY, compare_function = None, head = p\<rparr>"
      "own_seg own_block h p B (cv_blocks c) NULL"
    define R where "R = replicate 16 (0 :: byte)"
    then have R: "length R = 16" by simp
    let ?h = "h\<lparr>brk := Suc (brk h)\<rparr>"
    have alloc: "calloc_buf 16 h = (Some ([] @ drop 0 R), ?h)"
      using assms(2) by (simp add: calloc_buf_eq R_def)
    have lh: "load_list l ?h = load_list l h" by (simp add: load_list_def load_obj_def)
    have hdr_store: "store_word e ([] @ drop 0 R) 0 (htobe64 e (cv_zeros c)) =
        Some (([] @ be_bytes (cv_zeros c)) @ drop 8 R)"
      "store_word e (([] @ be_bytes (cv_zeros c)) @ drop 8 R) 8
         (htobe64 e (of_nat (length (cv_blocks c)))) = Some (enc_chain_header c @ drop 16 R)"
      by (subst store_wire; simp add: R enc_chain_header_def)+
    show ?thesis
      using that [OF l(2)] *(1,2) l(1) blk.length_eq [OF *(3)] alloc hdr_store R
      by (simp add: blockchain_serialize_def load_blockchain_store lh)
  qed
qed

lemma serialize_no_memory:
  assumes "own_chain h a F c" "\<not> malloc_ok h (brk h)"
  shows "blockchain_serialize e a True True h = Some (FAILURE_COULD_NOT_MALLOC, None, h\<lparr>brk := Suc (brk h)\<rparr>)"
  using assms(1)
proof (rule own_chainE)
  fix l A
  assume "a \<noteq> NULL" "own_ll own_block BLOCK_DESTROY None h l A (cv_blocks c)"
    "store h a = Some (DataObj (BlockchainObj \<lparr>block_list = l, num_leading_zero_bytes = cv_zeros c\<rparr>))"
  with assms(2) blk.length_eq show ?thesis
    by (simp add: blockchain_serialize_def load_blockchain_store calloc_buf_eq)
qed

lemma serialize_eq:
  assumes c: "own_chain h a F c" "wf_chain c" "length (enc_chain c) < 2 ^ 63"
  shows "\<exists>h'. same_except {} h h' \<and>
    (blockchain_serialize e a True True h =
       Some (SUCCESS, Some (enc_chain c, of_nat (length (enc_chain c))), h') \<or>
     blockchain_serialize e a True True h = Some (FAILURE_COULD_NOT_MALLOC, None, h') \<and>
       (\<exists>n. \<not> malloc_ok h n))"
proof (cases "malloc_ok h (brk h)")
  case False
  with serialize_no_memory [OF c(1) False, of e] show ?thesis
    by (intro exI [of _ "h\<lparr>brk := Suc (brk h)\<rparr>"]) (auto intro: same_except_brk)
next
  case True
  let ?h = "h\<lparr>brk := Suc (brk h)\<rparr>" and ?hdr = "enc_chain_header c"
  obtain p B where p: "own_seg own_block h p B (cv_blocks c) NULL"
    and run: "blockchain_serialize e a True True h =
       Option.bind (serialize_blocks_loop e p ?hdr 16 ?h) (\<lambda>(rc, buf, sz, h).
         if rc \<noteq> SUCCESS then Some (rc, None, h) else Some (SUCCESS, Some (buf, sz), h))"
    by (rule serialize_header [OF c(1) True])
  have "own_seg own_block ?h p B (cv_blocks c) NULL" by (rule blk.seg_frame [OF p]) simp
  then have "appends (concat (map enc_block (cv_blocks c))) ?hdr ?h
      (serialize_blocks_loop e p ?hdr (of_nat (length ?hdr)) ?h)"
    using c(2,3) by (intro blocks_loop_appends) (simp_all add: wf_chain_def enc_chain_split)
  then obtain h' where h': "same_except {} ?h h'"
    "serialize_blocks_loop e p ?hdr 16 ?h =
       Some (SUCCESS, enc_chain c, of_nat (length (enc_chain c)), h') \<or>
     (\<exists>sz. serialize_blocks_loop e p ?hdr 16 ?h = Some (FAILURE_COULD_NOT_MALLOC, [], sz, h')) \<and>
     (\<exists>n. \<not> malloc_ok h n)"
    unfolding appends_def by (auto simp: enc_chain_split)
  moreover have "same_except {} h h'"
    using same_except_trans [OF same_except_brk h'(1)] by simp
  ultimately show ?thesis unfolding run by (intro exI [of _ h']) auto
qed

text \<open>Whatever its outcome, serialising changes no object.\<close>

lemma serialize_transaction_frame:
  "serialize_transaction e t buf sz h = Some (rc, buf', sz', h') \<Longrightarrow> same_except {} h h'"
  by (auto simp: serialize_transaction_def Let_def bind_Some_iff
      split: prod.splits option.splits dest!: realloc_buf_frame)

lemma transactions_loop_frame:
  assumes "serialize_transactions_loop e p buf sz h = Some r"
  shows "same_except {} h (snd (snd (snd r)))"
  by (rule serialize_transactions_loop.raw_induct [OF _ assms])
    (auto simp: bind_Some_iff split: if_splits
      dest!: serialize_transaction_frame; blast intro: same_except_empty_trans)

lemma serialize_block_frame:
  "serialize_block e b buf sz h = Some (rc, buf', sz', h') \<Longrightarrow> same_except {} h h'"
  by (cases "realloc_buf buf (unat (56 + sz)) h")
    (auto simp: serialize_block_def Let_def bind_Some_iff
      split: option.splits if_splits
      dest!: realloc_buf_frame transactions_loop_frame; blast intro: same_except_empty_trans)

lemma blocks_loop_frame:
  assumes "serialize_blocks_loop e p buf sz h = Some r"
  shows "same_except {} h (snd (snd (snd r)))"
  by (rule serialize_blocks_loop.raw_induct [OF _ assms])
    (auto simp: bind_Some_iff split: if_splits
      dest!: serialize_block_frame; blast intro: same_except_empty_trans)

lemma serialize_frame:
  "blockchain_serialize e a o1 o2 h = Some (rc, res, h') \<Longrightarrow> same_except {} h h'"
  by (cases "calloc_buf 16 h")
    (auto simp: blockchain_serialize_def Let_def bind_Some_iff
      split: option.splits if_splits
      dest!: calloc_buf_frame blocks_loop_frame; blast intro: same_except_empty_trans)

text \<open>
  C36. The serialiser never writes outside its buffer and always returns: with enough memory the
  buffer it hands out holds exactly the wire encoding of the chain, the same on hosts of either
  byte order, and its size; otherwise it reports that memory ran out.  The chain is unchanged.
\<close>

theorem blockchain_serialize_wire_format:
  assumes "own_chain h a F c" "wf_chain c" "length (enc_chain c) < 2 ^ 63"
  shows "\<exists>h'. own_chain h' a F c \<and> store h' = store h \<and>
    (blockchain_serialize e a True True h =
       Some (SUCCESS, Some (enc_chain c, of_nat (length (enc_chain c))), h') \<or>
     blockchain_serialize e a True True h = Some (FAILURE_COULD_NOT_MALLOC, None, h') \<and>
       (\<exists>n. \<not> malloc_ok h n))"
proof -
  from serialize_eq [OF assms, of e] obtain h' where h': "same_except {} h h'"
    "blockchain_serialize e a True True h =
       Some (SUCCESS, Some (enc_chain c, of_nat (length (enc_chain c))), h') \<or>
     blockchain_serialize e a True True h = Some (FAILURE_COULD_NOT_MALLOC, None, h') \<and>
       (\<exists>n. \<not> malloc_ok h n)" by blast
  have st: "store h' = store h" using h'(1) by (auto simp: same_except_def fun_eq_iff)
  then have "own_chain h' a F c" by (intro own_chain_frame [OF assms(1)]) simp
  with h'(2) st show ?thesis by blast
qed

theorem blockchain_serialize_wire_format_witness:
  "\<exists>h'. blockchain_serialize Big 1 True True (example_heap 3) =
     Some (SUCCESS, Some (be_bytes (3 :: u64) @ be_bytes (0 :: u64), 16), h')"
proof -
  let ?c = "\<lparr>cv_blocks = [], cv_zeros = 3\<rparr> :: chain_v"
  have "wf_chain ?c" "length (enc_chain ?c) < 2 ^ 63" by (simp_all add: wf_chain_def enc_chain_def)
  from blockchain_serialize_wire_format [OF example_heap_owns(1) this, of Big] example_heap_ok(2) [of 3]
  show ?thesis by (auto simp: enc_chain_def)
qed

section \<open>Writing to a file\<close>

text \<open>
  The file system is a map from paths to contents.  \<open>fopen_ok\<close> says whether the file can
  be opened for writing, \<open>written n\<close> how many of \<open>n\<close> bytes \<open>fwrite\<close> writes;
  opening truncates the file.
\<close>

type_synonym files = "string \<rightharpoonup> byte list"

definition blockchain_write_to_file ::
  "endianness \<Rightarrow> bool \<Rightarrow> (nat \<Rightarrow> nat) \<Rightarrow> addr \<Rightarrow> string option \<Rightarrow> files \<Rightarrow> heap \<Rightarrow>
   (return_code_t \<times> files \<times> heap) option" where
  "blockchain_write_to_file e fopen_ok written blockchain outfile fs h =
     (case outfile of
        None \<Rightarrow> Some (FAILURE_INVALID_INPUT, fs, h)
      | Some path \<Rightarrow>
          if blockchain = NULL then Some (FAILURE_INVALID_INPUT, fs, h)
          else do {
            (return_code, result, h) \<leftarrow> blockchain_serialize e blockchain True True h;
            if return_code \<noteq> SUCCESS then Some (return_code, fs, h)
            else do {
              (buffer, buffer_size) \<leftarrow> result;
              if \<not> fopen_ok then Some (FAILURE_FILE_IO, fs, h)
              else do {
                bytes \<leftarrow> load_bytes buffer 0 (unat buffer_size);
                let bytes_written = min (written (unat buffer_size)) (unat buffer_size);
                    fs = fs(path \<mapsto> take bytes_written bytes)
                in if bytes_written \<noteq> unat buffer_size then Some (FAILURE_FILE_IO, fs, h)
                   else Some (SUCCESS, fs, h)
              }
            }
          })"

lemma write_to_file_frame:
  "blockchain_write_to_file e fopen_ok written a path fs h = Some (rc, fs', h') \<Longrightarrow> same_except {} h h'"
  by (auto simp: blockchain_write_to_file_def Let_def
      split: option.split_asm if_split_asm Option.bind_split_asm prod.split_asm dest!: serialize_frame)

lemma write_to_file_eq:
  assumes "own_chain h a F c" "wf_chain c" "length (enc_chain c) < 2 ^ 63" "\<forall>n. malloc_ok h n"
    "\<forall>n. written n = n"
  shows "\<exists>h'. same_except {} h h' \<and>
    blockchain_write_to_file e True written a (Some path) fs h =
      Some (SUCCESS, fs(path \<mapsto> enc_chain c), h')"
proof -
  from serialize_eq [OF assms(1-3), of e] assms(4) obtain h' where "same_except {} h h'"
    "blockchain_serialize e a True True h =
       Some (SUCCESS, Some (enc_chain c, of_nat (length (enc_chain c))), h')" by auto
  with assms(3,5) own_chain_self [OF assms(1)] show ?thesis
    by (auto simp: blockchain_write_to_file_def load_bytes_def)
qed

end
