(* ===== verification/Blockchain_Verify.thy ===== *)
theory Blockchain_Verify imports Blockchain begin

text \<open>
  \<open>blockchain_verify\<close> of \<^verbatim>\<open>src/blockchain.c\<close>: the function on the heap, a check of the
  abstract chain that it refines, and the declarative notion of a valid chain both decide.
\<close>

section \<open>The function\<close>

text \<open>
  A verdict is the return code, what was written to \<open>*is_valid_blockchain\<close>, and what was
  written to \<open>*first_invalid_block\<close> (\<open>None\<close> when nothing was written).
\<close>

type_synonym verdict = "return_code_t \<times> bool option \<times> addr option"

definition invalid_at :: "bool \<Rightarrow> addr \<Rightarrow> verdict" where
  "invalid_at first_out block = (SUCCESS, Some False, if first_out then Some block else None)"

text \<open>The loop over a block's transactions: the return code and whether all signatures are valid.\<close>

partial_function (option) verify_signatures_loop ::
  "endianness \<Rightarrow> openssl \<Rightarrow> addr \<Rightarrow> heap \<Rightarrow> (return_code_t \<times> bool) option" where
  "verify_signatures_loop e ssl transaction_node h =
     (if transaction_node = NULL then Some (SUCCESS, True)
      else do {
        n \<leftarrow> load_node transaction_node h;
        (return_code, is_valid_signature) \<leftarrow>
          transaction_verify_signature e ssl True (node_data n) h;
        if return_code \<noteq> SUCCESS then Some (return_code, False)
        else if is_valid_signature \<noteq> Some True then Some (SUCCESS, False)
        else verify_signatures_loop e ssl (node_next n) h
      })"

text \<open>The checks on the transactions of a block.\<close>

definition verify_block_transactions ::
  "endianness \<Rightarrow> openssl \<Rightarrow> bool \<Rightarrow> addr \<Rightarrow> block_t \<Rightarrow> heap \<Rightarrow> verdict option" where
  "verify_block_transactions e ssl first_out current_block b h =
     do {
       (return_code, is_empty) \<leftarrow> linked_list_is_empty (transaction_list b) True h;
       if return_code \<noteq> SUCCESS then Some (return_code, None, None)
       else if is_empty = Some True then Some (SUCCESS, Some False, None)
       else do {
         l \<leftarrow> load_list (transaction_list b) h;
         m \<leftarrow> load_node (head l) h;
         t \<leftarrow> load_transaction (node_data m) h;
         if amount t \<noteq> AMOUNT_GENERATED_DURING_MINTING then Some (invalid_at first_out current_block)
         else do {
           same \<leftarrow> memcmp_eq (sender_public_key t) (recipient_public_key t) MAX_SSH_KEY_LENGTH;
           if \<not> same then Some (invalid_at first_out current_block)
           else do {
             (return_code, all_valid) \<leftarrow> verify_signatures_loop e ssl (head l) h;
             if return_code \<noteq> SUCCESS then Some (return_code, None, None)
             else if \<not> all_valid then Some (invalid_at first_out current_block)
             else Some (SUCCESS, Some True, None)
           }
         }
       }
     }"

text \<open>The loop over the blocks after the genesis block.\<close>

partial_function (option) verify_blocks_loop ::
  "endianness \<Rightarrow> openssl \<Rightarrow> u64 \<Rightarrow> bool \<Rightarrow> addr \<Rightarrow> sha_256_t \<Rightarrow> heap \<Rightarrow> verdict option" where
  "verify_blocks_loop e ssl zeros first_out current_node previous_hash h =
     (if current_node = NULL then Some (SUCCESS, Some True, None)
      else do {
        n \<leftarrow> load_node current_node h;
        (return_code, hash) \<leftarrow> block_hash e ssl (node_data n) True h;
        if return_code \<noteq> SUCCESS then Some (return_code, None, None)
        else do {
          hash \<leftarrow> hash;
          zeros_ok \<leftarrow> memcmp_eq hash (replicate SHA256_DIGEST_LENGTH 0) (unat zeros);
          if \<not> zeros_ok then Some (invalid_at first_out (node_data n))
          else do {
            b \<leftarrow> load_block (node_data n) h;
            linked \<leftarrow> memcmp_eq (previous_block_hash b) previous_hash SHA256_DIGEST_LENGTH;
            if \<not> linked then Some (invalid_at first_out (node_data n))
            else do {
              v \<leftarrow> verify_block_transactions e ssl first_out (node_data n) b h;
              if v \<noteq> (SUCCESS, Some True, None) then Some v
              else verify_blocks_loop e ssl zeros first_out (node_next n) hash h
            }
          }
        }
      })"

definition blockchain_verify ::
  "endianness \<Rightarrow> openssl \<Rightarrow> addr \<Rightarrow> bool \<Rightarrow> bool \<Rightarrow> heap \<Rightarrow> verdict option" where
  "blockchain_verify e ssl blockchain valid_out first_out h =
     (if blockchain = NULL \<or> \<not> valid_out then Some (FAILURE_INVALID_INPUT, None, None)
      else do {
        c \<leftarrow> load_blockchain blockchain h;
        l \<leftarrow> load_list (block_list c) h;
        if head l = NULL then Some (SUCCESS, Some True, None)
        else do {
          n \<leftarrow> load_node (head l) h;
          g \<leftarrow> load_block (node_data n) h;
          (return_code, is_empty) \<leftarrow> linked_list_is_empty (transaction_list g) True h;
          if return_code \<noteq> SUCCESS then Some (return_code, None, None)
          else if is_empty \<noteq> Some True \<or> proof_of_work g \<noteq> GENESIS_BLOCK_PROOF_OF_WORK
          then Some (invalid_at first_out (node_data n))
          else do {
            no_previous \<leftarrow> memcmp_eq (previous_block_hash g) (replicate SHA256_DIGEST_LENGTH 0)
                             SHA256_DIGEST_LENGTH;
            if \<not> no_previous then Some (invalid_at first_out (node_data n))
            else do {
              (_, hash) \<leftarrow> block_hash e ssl (node_data n) True h;
              verify_blocks_loop e ssl (num_leading_zero_bytes c) first_out (node_next n)
                (case hash of Some x \<Rightarrow> x | None \<Rightarrow> replicate SHA256_DIGEST_LENGTH 0) h
            }
          }
        }
      })"

section \<open>What a valid chain is\<close>

definition signature_valid :: "endianness \<Rightarrow> openssl \<Rightarrow> transaction_t \<Rightarrow> bool" where
  "signature_valid e ssl t \<longleftrightarrow> signature_check e ssl t = Some (SUCCESS, Some True)"

definition genesis_ok :: "block_v \<Rightarrow> bool" where
  "genesis_ok b \<longleftrightarrow>
     bv_transactions b = [] \<and> bv_proof_of_work b = GENESIS_BLOCK_PROOF_OF_WORK \<and>
     bv_previous_block_hash b = replicate SHA256_DIGEST_LENGTH 0"

text \<open>The first transaction mints: it pays the minting amount from a key to the same key.\<close>

definition mints :: "block_v \<Rightarrow> bool" where
  "mints b \<longleftrightarrow>
     (case bv_transactions b of
        [] \<Rightarrow> False
      | t # _ \<Rightarrow> amount t = AMOUNT_GENERATED_DURING_MINTING \<and>
                 sender_public_key t = recipient_public_key t)"

definition block_ok :: "endianness \<Rightarrow> openssl \<Rightarrow> u64 \<Rightarrow> sha_256_t \<Rightarrow> block_v \<Rightarrow> bool" where
  "block_ok e ssl z previous b \<longleftrightarrow>
     leading_zeros z (hash_of e ssl b) \<and> bv_previous_block_hash b = previous \<and> mints b \<and>
     (\<forall>t \<in> set (bv_transactions b). signature_valid e ssl t)"

definition chain_ok :: "endianness \<Rightarrow> openssl \<Rightarrow> chain_v \<Rightarrow> bool" where
  "chain_ok e ssl c \<longleftrightarrow>
     (cv_blocks c \<noteq> [] \<longrightarrow> genesis_ok (hd (cv_blocks c))) \<and>
     (\<forall>i. Suc i < length (cv_blocks c) \<longrightarrow>
        block_ok e ssl (cv_zeros c) (hash_of e ssl (cv_blocks c ! i)) (cv_blocks c ! Suc i))"

section \<open>The check on abstract chains\<close>

datatype check = Pass | Reject | Reject_silently | Abort return_code_t

fun signatures_check :: "endianness \<Rightarrow> openssl \<Rightarrow> transaction_t list \<Rightarrow> check option" where
  "signatures_check e ssl [] = Some Pass"
| "signatures_check e ssl (t # ts) =
     (case signature_check e ssl t of
        None \<Rightarrow> None
      | Some (return_code, valid) \<Rightarrow>
          if return_code \<noteq> SUCCESS then Some (Abort return_code)
          else if valid \<noteq> Some True then Some Reject
          else signatures_check e ssl ts)"

definition transactions_check :: "endianness \<Rightarrow> openssl \<Rightarrow> block_v \<Rightarrow> check option" where
  "transactions_check e ssl b =
     (if bv_transactions b = [] then Some Reject_silently
      else if \<not> mints b then Some Reject
      else signatures_check e ssl (bv_transactions b))"

definition block_check :: "endianness \<Rightarrow> openssl \<Rightarrow> u64 \<Rightarrow> sha_256_t \<Rightarrow> block_v \<Rightarrow> check option" where
  "block_check e ssl z previous b =
     (if SHA256_DIGEST_LENGTH < unat z then None
      else if \<not> leading_zeros z (hash_of e ssl b) then Some Reject
      else if bv_previous_block_hash b \<noteq> previous then Some Reject
      else transactions_check e ssl b)"

text \<open>The result, and the block at which the check ended, if it did.\<close>

fun blocks_check ::
  "endianness \<Rightarrow> openssl \<Rightarrow> u64 \<Rightarrow> sha_256_t \<Rightarrow> block_v list \<Rightarrow> (check \<times> block_v option) option" where
  "blocks_check e ssl z previous [] = Some (Pass, None)"
| "blocks_check e ssl z previous (b # bs) =
     (case block_check e ssl z previous b of
        None \<Rightarrow> None
      | Some r \<Rightarrow> if r = Pass then blocks_check e ssl z (hash_of e ssl b) bs else Some (r, Some b))"

definition chain_check ::
  "endianness \<Rightarrow> openssl \<Rightarrow> chain_v \<Rightarrow> (check \<times> block_v option) option" where
  "chain_check e ssl c =
     (case cv_blocks c of
        [] \<Rightarrow> Some (Pass, None)
      | g # bs \<Rightarrow>
          if genesis_ok g then blocks_check e ssl (cv_zeros c) (hash_of e ssl g) bs
          else Some (Reject, Some g))"

section \<open>The function computes the check\<close>

definition verdict_of :: "bool \<Rightarrow> check \<Rightarrow> addr \<Rightarrow> verdict" where
  "verdict_of first_out r d =
     (case r of
        Pass \<Rightarrow> (SUCCESS, Some True, None)
      | Reject \<Rightarrow> invalid_at first_out d
      | Reject_silently \<Rightarrow> (SUCCESS, Some False, None)
      | Abort return_code \<Rightarrow> (return_code, None, None))"

lemma verdict_of_simps [simp]:
  "verdict_of f Pass d = (SUCCESS, Some True, None)"
  "verdict_of f Reject d = invalid_at f d"
  "verdict_of f Reject_silently d = (SUCCESS, Some False, None)"
  "verdict_of f (Abort rc) d = (rc, None, None)"
  by (simp_all add: verdict_of_def)

lemma verdict_of_eq_Pass:
  "verdict_of f r d = (SUCCESS, Some True, x) \<longleftrightarrow> r = Pass \<and> x = None"
  by (auto simp: verdict_of_def invalid_at_def split: check.split)

lemma signatures_loop_eq:
  "own_seg own_transaction h p F ts NULL \<Longrightarrow>
   verify_signatures_loop e ssl p h =
     map_option (\<lambda>r. case r of Pass \<Rightarrow> (SUCCESS, True) | Abort rc \<Rightarrow> (rc, False) | _ \<Rightarrow> (SUCCESS, False))
       (signatures_check e ssl ts)"
proof (induction ts arbitrary: p F)
  case Nil
  then show ?case by (simp add: verify_signatures_loop.simps)
next
  case (Cons t ts)
  from Cons.prems show ?case
  proof (rule tx.seg_ConsE)
    fix d q G H
    assume *: "p \<noteq> NULL" "load_node p h = Some \<lparr>node_data = d, node_next = q\<rparr>"
      "own_transaction h d G t" "own_seg own_transaction h q H ts NULL"
    have "transaction_verify_signature e ssl True d h = signature_check e ssl t"
      using own_transaction_load [OF *(3)] tx.own_NULL [OF *(3)] by (rule verify_signature_eq)
    then show ?thesis
      using *(1,2) Cons.IH [OF *(4)]
      by (auto simp: verify_signatures_loop.simps [of _ _ p] split: option.split)
  qed
qed

lemma signatures_check_cases:
  "signatures_check e ssl ts = Some r \<Longrightarrow> r = Pass \<or> r = Reject \<or> (\<exists>rc. r = Abort rc \<and> rc \<noteq> SUCCESS)"
  by (induction ts) (auto split: option.splits if_splits)

lemma memcmp_eq_full:
  "length a = n \<Longrightarrow> length b = n \<Longrightarrow> memcmp_eq a b n = Some (a = b)"
  by (simp add: memcmp_eq_def)

lemma memcmp_zeros:
  "length d = SHA256_DIGEST_LENGTH \<Longrightarrow>
   memcmp_eq d (replicate SHA256_DIGEST_LENGTH 0) (unat z) =
     (if SHA256_DIGEST_LENGTH < unat z then None else Some (leading_zeros z d))"
  by (auto simp: memcmp_eq_def leading_zeros_def min_def)

lemma block_transactions_eq:
  assumes l: "own_transaction_list h (transaction_list b) G (bv_transactions v)"
    and wf: "wf_block v"
  shows "verify_block_transactions e ssl f d b h =
    map_option (\<lambda>r. verdict_of f r d) (transactions_check e ssl v)"
proof -
  from l obtain ff where ll: "own_ll own_transaction ff None h (transaction_list b) G (bv_transactions v)"
    by (rule own_transaction_listE)
  from ll show ?thesis
  proof (rule tx.ll_list)
    fix p A
    assume p: "load_list (transaction_list b) h =
        Some \<lparr>free_function = ff, compare_function = None, head = p\<rparr>"
      "own_seg own_transaction h p A (bv_transactions v) NULL"
    show ?thesis
    proof (cases "bv_transactions v")
      case Nil
      then show ?thesis
        by (simp add: verify_block_transactions_def tx.is_empty_eq [OF ll] transactions_check_def
            verdict_of_def)
    next
      case (Cons t ts)
      from p(2) [unfolded Cons] obtain d' q where m:
        "load_node p h = Some \<lparr>node_data = d', node_next = q\<rparr>" "load_transaction d' h = Some t"
        by (rule tx.seg_ConsE) (auto dest: own_transaction_load)
      have keys: "memcmp_eq (sender_public_key t) (recipient_public_key t) MAX_SSH_KEY_LENGTH =
          Some (sender_public_key t = recipient_public_key t)"
        using wf Cons by (intro memcmp_eq_full) (simp_all add: wf_block_def wf_transaction_def)
      have "Option.bind (verify_signatures_loop e ssl p h) (\<lambda>(return_code, all_valid).
          if return_code \<noteq> SUCCESS then Some (return_code, None, None)
          else if \<not> all_valid then Some (invalid_at f d) else Some (SUCCESS, Some True, None)) =
        map_option (\<lambda>r. verdict_of f r d) (signatures_check e ssl (bv_transactions v))"
        unfolding signatures_loop_eq [OF p(2)]
        by (cases "signatures_check e ssl (bv_transactions v)")
          (auto simp: verdict_of_def dest!: signatures_check_cases)
      with p(1) m keys Cons show ?thesis
        by (simp add: verify_block_transactions_def tx.is_empty_eq [OF ll] transactions_check_def
            mints_def verdict_of_def del: signatures_check.simps)
    qed
  qed
qed

text \<open>
  How a result of the function corresponds to a result of the check: undefined behaviour to
  \<open>None\<close>, and otherwise a verdict on the block at which the check ended.
\<close>

definition verify_result ::
  "bool \<Rightarrow> heap \<Rightarrow> addr set \<Rightarrow> (check \<times> block_v option) option \<Rightarrow> verdict option \<Rightarrow> bool" where
  "verify_result f h F res v \<longleftrightarrow>
     (case res of
        None \<Rightarrow> v = None
      | Some (r, b) \<Rightarrow> \<exists>d. v = Some (verdict_of f r d) \<and>
          (\<forall>x. b = Some x \<longrightarrow> (\<exists>G \<subseteq> F. own_block h d G x)))"

lemma verify_result_mono:
  assumes "verify_result f h F res v" "F \<subseteq> G"
  shows "verify_result f h G res v"
proof (cases res)
  case None
  then show ?thesis using assms(1) by (simp add: verify_result_def)
next
  case (Some rb)
  obtain r b where rb: "rb = (r, b)" by force
  with assms(1) Some obtain d where "v = Some (verdict_of f r d)"
    "\<forall>x. b = Some x \<longrightarrow> (\<exists>H \<subseteq> F. own_block h d H x)" by (auto simp: verify_result_def)
  moreover from this(2) have "\<forall>x. b = Some x \<longrightarrow> (\<exists>H \<subseteq> G. own_block h d H x)"
    using assms(2) by (metis subset_trans)
  ultimately show ?thesis using Some rb by (auto simp: verify_result_def)
qed

lemma blocks_loop_eq:
  assumes "own_seg own_block h p F bs NULL" "\<forall>b \<in> set bs. wf_block b" "digest_ok ssl"
    "length previous = SHA256_DIGEST_LENGTH"
  shows "verify_result f h F (blocks_check e ssl z previous bs)
    (verify_blocks_loop e ssl z f p previous h)"
  using assms
proof (induction bs arbitrary: p F previous)
  case Nil
  then show ?case by (simp add: verify_blocks_loop.simps verify_result_def)
next
  case (Cons b bs)
  from Cons.prems(1) show ?case
  proof (rule blk.seg_ConsE)
    fix d q G H
    assume *: "p \<noteq> NULL" "load_node p h = Some \<lparr>node_data = d, node_next = q\<rparr>"
      "own_block h d G b" "own_seg own_block h q H bs NULL" "F = insert p (G \<union> H)"
    from *(3) obtain bt A where bt: "load_block d h = Some bt"
      "previous_block_hash bt = bv_previous_block_hash b"
      "own_transaction_list h (transaction_list bt) A (bv_transactions b)"
      by (rule own_block_load)
    have ssl: "md_ctx_new_ok ssl" "length (hash_of e ssl b) = SHA256_DIGEST_LENGTH"
      using Cons.prems(3) by (simp_all add: digest_ok_def hash_of_def)
    have wf: "wf_block b" using Cons.prems(2) by simp
    have linked: "memcmp_eq (bv_previous_block_hash b) previous SHA256_DIGEST_LENGTH =
        Some (bv_previous_block_hash b = previous)"
      using Cons.prems(2,4) by (intro memcmp_eq_full) (simp_all add: wf_block_def)
    have step: "verify_blocks_loop e ssl z f p previous h =
        (case block_check e ssl z previous b of
           None \<Rightarrow> None
         | Some r \<Rightarrow> if r = Pass then verify_blocks_loop e ssl z f q (hash_of e ssl b) h
                     else Some (verdict_of f r d))"
      using *(1,2) bt(1,2) block_hash_eq [OF *(3) ssl(1), of e] linked memcmp_zeros [OF ssl(2), of z]
        block_transactions_eq [OF bt(3) wf, of e ssl f d]
      by (auto simp: verify_blocks_loop.simps [of _ _ _ _ p] block_check_def verdict_of_eq_Pass
          split: option.split)
    show ?thesis
    proof (cases "block_check e ssl z previous b = Some Pass")
      case True
      have "\<forall>b \<in> set bs. wf_block b" using Cons.prems(2) by simp
      from Cons.IH [OF *(4) this Cons.prems(3) ssl(2)] *(5) show ?thesis
        using step True by (auto intro: verify_result_mono)
    next
      case False
      then show ?thesis
        using step *(3,5) by (auto simp: verify_result_def split: option.split)
    qed
  qed
qed

text \<open>The empty chain, and a chain with its genesis block.\<close>

lemma verify_empty:
  assumes "own_chain h a F c" "cv_blocks c = []"
  shows "blockchain_verify e ssl a True f h = Some (SUCCESS, Some True, None)"
  using assms(1)
proof (rule own_chainE)
  fix l G
  assume *: "a \<noteq> NULL"
    "store h a = Some (DataObj (BlockchainObj \<lparr>block_list = l, num_leading_zero_bytes = cv_zeros c\<rparr>))"
    "own_ll own_block BLOCK_DESTROY None h l G (cv_blocks c)"
  from *(3) show ?thesis
    by (rule blk.ll_list)
      (use * assms(2) in \<open>simp add: blockchain_verify_def load_blockchain_store\<close>)
qed

lemma verify_genesis:
  assumes "own_chain h a F c" "cv_blocks c = g # bs" "wf_chain c" "digest_ok ssl"
  obtains d q G H where "own_block h d G g" "own_seg own_block h q H bs NULL" "G \<union> H \<subseteq> F"
    "blockchain_verify e ssl a True f h =
       (if genesis_ok g then verify_blocks_loop e ssl (cv_zeros c) f q (hash_of e ssl g) h
        else Some (invalid_at f d))"
  using assms(1)
proof (rule own_chainE)
  fix l A
  assume *: "a \<noteq> NULL" "F = insert a A"
    "store h a = Some (DataObj (BlockchainObj \<lparr>block_list = l, num_leading_zero_bytes = cv_zeros c\<rparr>))"
    "own_ll own_block BLOCK_DESTROY None h l A (cv_blocks c)"
  from *(4) show ?thesis
  proof (rule blk.ll_list)
    fix p B
    assume l: "load_list l h = Some \<lparr>free_function = BLOCK_DESTROY, compare_function = None, head = p\<rparr>"
      "own_seg own_block h p B (cv_blocks c) NULL" "A = insert l B"
    from l(2) [unfolded assms(2)] show ?thesis
    proof (rule blk.seg_ConsE)
      fix d q G H
      assume p: "p \<noteq> NULL" "load_node p h = Some \<lparr>node_data = d, node_next = q\<rparr>"
        "own_block h d G g" "own_seg own_block h q H bs NULL" "B = insert p (G \<union> H)"
      from p(3) obtain bt C where bt: "load_block d h = Some bt"
        "previous_block_hash bt = bv_previous_block_hash g"
        "own_transaction_list h (transaction_list bt) C (bv_transactions g)"
        "proof_of_work bt = bv_proof_of_work g"
        by (rule own_block_load)
      from bt(3) obtain ff where
        "own_ll own_transaction ff None h (transaction_list bt) C (bv_transactions g)"
        by (rule own_transaction_listE)
      then have e: "linked_list_is_empty (transaction_list bt) True h =
          Some (SUCCESS, Some (bv_transactions g = []))"
        by (rule tx.is_empty_eq)
      have "length (bv_previous_block_hash g) = SHA256_DIGEST_LENGTH"
        using assms(2,3) by (simp add: wf_chain_def wf_block_def)
      then have "memcmp_eq (bv_previous_block_hash g) (replicate SHA256_DIGEST_LENGTH 0)
          SHA256_DIGEST_LENGTH = Some (bv_previous_block_hash g = replicate SHA256_DIGEST_LENGTH 0)"
        by (intro memcmp_eq_full) simp_all
      moreover have "md_ctx_new_ok ssl" using assms(4) by (simp add: digest_ok_def)
      ultimately have "blockchain_verify e ssl a True f h =
          (if genesis_ok g then verify_blocks_loop e ssl (cv_zeros c) f q (hash_of e ssl g) h
           else Some (invalid_at f d))"
        using *(1,3) l(1) p(1,2) bt(1,2,4) e block_hash_eq [OF p(3), of ssl e]
        by (cases "bv_previous_block_hash g = replicate SHA256_DIGEST_LENGTH 0")
          (simp_all add: blockchain_verify_def load_blockchain_store genesis_ok_def)
      with that p(3-5) l(3) *(2) show ?thesis by blast
    qed
  qed
qed

lemma verify_eq:
  assumes "own_chain h a F c" "wf_chain c" "digest_ok ssl"
  shows "verify_result f h F (chain_check e ssl c) (blockchain_verify e ssl a True f h)"
proof (cases "cv_blocks c")
  case Nil
  with verify_empty [OF assms(1)] show ?thesis by (simp add: chain_check_def verify_result_def)
next
  case (Cons g bs)
  from assms(1) Cons assms(2,3) show ?thesis
  proof (rule verify_genesis [where e = e and f = f])
    fix d q G H
    assume *: "own_block h d G g" "own_seg own_block h q H bs NULL" "G \<union> H \<subseteq> F"
      "blockchain_verify e ssl a True f h =
         (if genesis_ok g then verify_blocks_loop e ssl (cv_zeros c) f q (hash_of e ssl g) h
          else Some (invalid_at f d))"
    have "\<forall>b \<in> set bs. wf_block b" "length (hash_of e ssl g) = SHA256_DIGEST_LENGTH"
      using assms(2,3) Cons by (simp_all add: wf_chain_def digest_ok_def hash_of_def)
    from blocks_loop_eq [OF *(2) this(1) assms(3) this(2), of f e "cv_zeros c"]
    have "verify_result f h F (blocks_check e ssl (cv_zeros c) (hash_of e ssl g) bs)
        (verify_blocks_loop e ssl (cv_zeros c) f q (hash_of e ssl g) h)"
      using *(3) by (auto intro: verify_result_mono)
    moreover have "verify_result f h F (Some (Reject, Some g)) (Some (invalid_at f d))"
      using *(1,3) by (auto simp: verify_result_def)
    ultimately show ?thesis
      using *(4) Cons by (simp add: chain_check_def)
  qed
qed

section \<open>The check decides validity\<close>

lemma signatures_check_Pass:
  "signatures_check e ssl ts = Some Pass \<longleftrightarrow> (\<forall>t \<in> set ts. signature_valid e ssl t)"
  by (induction ts) (auto simp: signature_valid_def split: option.split)

lemma leading_zeros_length: "leading_zeros z d \<Longrightarrow> unat z \<le> length d"
  unfolding leading_zeros_def by (metis length_replicate length_take min.cobounded1)

lemma block_check_Pass:
  assumes "digest_ok ssl"
  shows "block_check e ssl z previous b = Some Pass \<longleftrightarrow> block_ok e ssl z previous b"
proof -
  have "unat z \<le> SHA256_DIGEST_LENGTH" if "leading_zeros z (hash_of e ssl b)"
    using leading_zeros_length [OF that] assms by (simp add: digest_ok_def hash_of_def)
  then show ?thesis
    by (auto simp: block_check_def transactions_check_def block_ok_def signatures_check_Pass
        mints_def split: if_splits list.splits)
qed

text \<open>Validity of a chain, block by block.\<close>

fun linked_from :: "endianness \<Rightarrow> openssl \<Rightarrow> u64 \<Rightarrow> sha_256_t \<Rightarrow> block_v list \<Rightarrow> bool" where
  "linked_from e ssl z previous [] \<longleftrightarrow> True"
| "linked_from e ssl z previous (b # bs) \<longleftrightarrow>
     block_ok e ssl z previous b \<and> linked_from e ssl z (hash_of e ssl b) bs"

lemma linked_from_nth:
  "linked_from e ssl z (hash_of e ssl g) bs \<longleftrightarrow>
   (\<forall>i. Suc i < length (g # bs) \<longrightarrow> block_ok e ssl z (hash_of e ssl ((g # bs) ! i)) ((g # bs) ! Suc i))"
proof (induction bs arbitrary: g)
  case Nil
  then show ?case by simp
next
  case (Cons b bs)
  show ?case
    unfolding linked_from.simps Cons.IH
    by (auto simp: nth_Cons split: nat.split)
qed

lemma chain_ok_Cons:
  "cv_blocks c = g # bs \<Longrightarrow>
   chain_ok e ssl c \<longleftrightarrow> genesis_ok g \<and> linked_from e ssl (cv_zeros c) (hash_of e ssl g) bs"
  by (simp add: chain_ok_def linked_from_nth)

lemma blocks_check_Pass:
  "digest_ok ssl \<Longrightarrow>
   blocks_check e ssl z previous bs = Some (Pass, x) \<longleftrightarrow> linked_from e ssl z previous bs \<and> x = None"
  by (induction bs arbitrary: previous)
    (auto simp: block_check_Pass [symmetric] split: option.split)

lemma chain_check_Pass:
  assumes "digest_ok ssl"
  shows "chain_check e ssl c = Some (Pass, x) \<longleftrightarrow> chain_ok e ssl c \<and> x = None"
proof (cases "cv_blocks c")
  case Nil
  then show ?thesis by (auto simp: chain_check_def chain_ok_def)
next
  case (Cons g bs)
  with blocks_check_Pass [OF assms] show ?thesis
    by (auto simp: chain_check_def chain_ok_Cons)
qed

lemma verify_valid_iff:
  assumes "own_chain h a F c" "wf_chain c" "digest_ok ssl"
  shows "blockchain_verify e ssl a True f h = Some (SUCCESS, Some True, x) \<longleftrightarrow>
    chain_ok e ssl c \<and> x = None"
proof (cases "chain_check e ssl c")
  case None
  with verify_eq [OF assms, of f e] chain_check_Pass [OF assms(3), of e c] show ?thesis
    by (auto simp: verify_result_def)
next
  case (Some rb)
  obtain r b where rb: "rb = (r, b)" by force
  from verify_eq [OF assms, of f e] Some rb obtain d where
    "blockchain_verify e ssl a True f h = Some (verdict_of f r d)" by (auto simp: verify_result_def)
  moreover have "r = Pass \<longleftrightarrow> chain_ok e ssl c"
    using chain_check_Pass [OF assms(3), of e c b] chain_check_Pass [OF assms(3), of e c None] Some rb
    by auto
  ultimately show ?thesis by (auto simp: verdict_of_eq_Pass)
qed

text \<open>A well-formed minting block for the witnesses, on top of a genesis block.\<close>

definition example_block :: block_v where
  "example_block =
     \<lparr>bv_created_at = 5,
      bv_transactions = [zero_transaction\<lparr>sender_signature :=
        \<lparr>sig_length = 1, sig_bytes = 7 # replicate 511 0\<rparr>\<rparr>],
      bv_proof_of_work = 0, bv_previous_block_hash = replicate 32 0\<rparr>"

lemma example_hash: "hash_of e example_openssl b = replicate 32 0"
  by (simp add: hash_of_def example_openssl_def)

lemma example_block_ok:
  "wf_block example_block" "block_ok e example_openssl 2 (replicate 32 0) example_block"
proof -
  show "wf_block example_block"
    by (simp add: example_block_def wf_block_def wf_transaction_def zero_transaction_def)
  have "leading_zeros 2 (hash_of e example_openssl example_block)"
    unfolding example_hash by (simp add: leading_zeros_def)
  then show "block_ok e example_openssl 2 (replicate 32 0) example_block"
    by (simp add: block_ok_def example_block_def mints_def zero_transaction_def signature_valid_def
        signature_check_def load_bytes_def example_openssl_def)
qed

definition example_chain :: "block_v list \<Rightarrow> chain_v" where
  "example_chain bs = \<lparr>cv_blocks = genesis_v 4 # bs, cv_zeros = 2\<rparr>"

lemma wf_example_chain: "\<forall>b \<in> set bs. wf_block b \<Longrightarrow> wf_chain (example_chain bs)"
  by (simp add: wf_chain_def example_chain_def wf_genesis_v)

lemma example_genesis_ok: "genesis_ok (genesis_v 4)"
  by (simp add: genesis_ok_def genesis_v_def)

lemma example_chain_ok: "chain_ok e example_openssl (example_chain [example_block])"
proof -
  have bs: "cv_blocks (example_chain [example_block]) = genesis_v 4 # [example_block]"
    and z: "cv_zeros (example_chain [example_block]) = 2" by (simp_all add: example_chain_def)
  show ?thesis
    unfolding chain_ok_Cons [OF bs] z
    using example_block_ok(2) [of e] by (simp add: example_genesis_ok example_hash)
qed

text \<open>
  C1. Verification decides validity exactly.  For a chain of any contents, the function
  returns success with "valid" if and only if the chain is valid: the first block is a genesis
  block, and every later block has the required leading zero bytes in its hash, names the hash
  of its predecessor, starts with a minting transaction and carries only valid signatures.  It
  then names no invalid block.
\<close>

theorem blockchain_verify_decides_validity:
  assumes "own_chain h a F c" "wf_chain c" "digest_ok ssl"
  shows "(blockchain_verify e ssl a True f h = Some (SUCCESS, Some True, None) \<longleftrightarrow> chain_ok e ssl c) \<and>
    (\<forall>x. blockchain_verify e ssl a True f h = Some (SUCCESS, Some True, x) \<longrightarrow> x = None)"
  using verify_valid_iff [OF assms, of e f] by blast

theorem blockchain_verify_decides_validity_witness:
  "\<exists>h a F. own_chain h a F (example_chain [example_block]) \<and>
     blockchain_verify Little example_openssl a True True h = Some (SUCCESS, Some True, None)"
proof -
  obtain h a F where own: "own_chain h a F (example_chain [example_block])"
    using chain_representable by blast
  have "wf_chain (example_chain [example_block])" by (simp add: wf_example_chain example_block_ok)
  from blockchain_verify_decides_validity [OF own this example_openssl_ok(3), of Little True]
    example_chain_ok own show ?thesis by blast
qed

section \<open>What an invalid verdict says\<close>

lemma linked_from_append:
  "linked_from e ssl z previous (xs @ ys) \<longleftrightarrow>
   linked_from e ssl z previous xs \<and>
   linked_from e ssl z (if xs = [] then previous else hash_of e ssl (last xs)) ys"
  by (induction xs arbitrary: previous) auto

lemma chain_ok_snoc:
  "chain_ok e ssl (c\<lparr>cv_blocks := bs @ [b]\<rparr>) \<longleftrightarrow>
   chain_ok e ssl (c\<lparr>cv_blocks := bs\<rparr>) \<and>
   (if bs = [] then genesis_ok b else block_ok e ssl (cv_zeros c) (hash_of e ssl (last bs)) b)"
proof (cases bs)
  case Nil
  then show ?thesis by (simp add: chain_ok_def)
next
  case (Cons g gs)
  then show ?thesis
    by (auto simp: chain_ok_Cons [where g = g and bs = gs] chain_ok_Cons [where g = g and bs = "gs @ [b]"]
        linked_from_append)
qed

lemma blocks_check_fails:
  "digest_ok ssl \<Longrightarrow> blocks_check e ssl z previous bs = Some (r, x) \<Longrightarrow> r \<noteq> Pass \<Longrightarrow>
   \<exists>pre b post. bs = pre @ b # post \<and> x = Some b \<and> linked_from e ssl z previous pre \<and>
     block_check e ssl z (if pre = [] then previous else hash_of e ssl (last pre)) b = Some r"
proof (induction bs arbitrary: previous)
  case Nil
  then show ?case by simp
next
  case (Cons b bs)
  show ?case
  proof (cases "block_check e ssl z previous b = Some Pass")
    case True
    with Cons.prems have "blocks_check e ssl z (hash_of e ssl b) bs = Some (r, x)" by simp
    from Cons.IH [OF Cons.prems(1) this Cons.prems(3)] obtain pre b' post where
      "bs = pre @ b' # post" "x = Some b'" "linked_from e ssl z (hash_of e ssl b) pre"
      "block_check e ssl z (if pre = [] then hash_of e ssl b else hash_of e ssl (last pre)) b' = Some r"
      by blast
    with True block_check_Pass [OF Cons.prems(1)] show ?thesis
      by (intro exI [of _ "b # pre"] exI [of _ b'] exI [of _ post]) auto
  next
    case False
    with Cons.prems(2) show ?thesis
      by (intro exI [of _ "[]"] exI [of _ b] exI [of _ bs]) (auto split: option.splits if_splits)
  qed
qed

lemma chain_check_fails:
  assumes "digest_ok ssl" "chain_check e ssl c = Some (r, x)" "r \<noteq> Pass"
  obtains pre b post where "cv_blocks c = pre @ b # post" "x = Some b"
    "chain_ok e ssl (c\<lparr>cv_blocks := pre\<rparr>)"
    "if pre = [] then r = Reject \<and> \<not> genesis_ok b
     else block_check e ssl (cv_zeros c) (hash_of e ssl (last pre)) b = Some r"
proof (cases "cv_blocks c")
  case Nil
  with assms show ?thesis by (simp add: chain_check_def)
next
  case (Cons g bs)
  show ?thesis
  proof (cases "genesis_ok g")
    case True
    with assms(2) Cons have "blocks_check e ssl (cv_zeros c) (hash_of e ssl g) bs = Some (r, x)"
      by (simp add: chain_check_def)
    from blocks_check_fails [OF assms(1) this assms(3)] obtain pre b post where
      "bs = pre @ b # post" "x = Some b" "linked_from e ssl (cv_zeros c) (hash_of e ssl g) pre"
      "block_check e ssl (cv_zeros c) (if pre = [] then hash_of e ssl g else hash_of e ssl (last pre)) b =
         Some r" by blast
    then show ?thesis
      using that [of "g # pre" b post] True Cons
      by (auto simp: chain_ok_Cons [where g = g and bs = pre] split: if_splits)
  next
    case False
    with assms(2) Cons that [of "[]" g bs] show ?thesis
      by (simp add: chain_check_def chain_ok_def)
  qed
qed

lemma transactions_check_silent:
  "transactions_check e ssl b = Some Reject_silently \<longleftrightarrow> bv_transactions b = []"
  by (auto simp: transactions_check_def dest: signatures_check_cases)

lemma block_check_silent:
  "block_check e ssl z previous b = Some Reject_silently \<Longrightarrow> bv_transactions b = []"
  by (auto simp: block_check_def transactions_check_silent split: if_splits)

text \<open>
  C13. An "invalid" verdict blames the first invalid block.  When verification reports an
  invalid chain there is a position such that the chain up to it is valid and the block there
  makes it invalid.  The block named is that block; if none is named, that block is not the
  genesis block and has no transactions.
\<close>

theorem blockchain_verify_blames_first_invalid:
  assumes "own_chain h a F c" "wf_chain c" "digest_ok ssl"
    and "blockchain_verify e ssl a True True h = Some (SUCCESS, Some False, x)"
  shows "\<exists>i < length (cv_blocks c).
    chain_ok e ssl (c\<lparr>cv_blocks := take i (cv_blocks c)\<rparr>) \<and>
    \<not> chain_ok e ssl (c\<lparr>cv_blocks := take (Suc i) (cv_blocks c)\<rparr>) \<and>
    (case x of Some d \<Rightarrow> \<exists>G \<subseteq> F. own_block h d G (cv_blocks c ! i)
     | None \<Rightarrow> 0 < i \<and> bv_transactions (cv_blocks c ! i) = [])"
proof -
  from verify_eq [OF assms(1-3), of True e] assms(4) obtain r v d where
    r: "chain_check e ssl c = Some (r, v)" "verdict_of True r d = (SUCCESS, Some False, x)"
    "\<forall>b. v = Some b \<longrightarrow> (\<exists>G \<subseteq> F. own_block h d G b)"
    by (auto simp: verify_result_def split: option.splits)
  then have "r \<noteq> Pass" by auto
  from assms(3) r(1) this obtain pre b post where b: "cv_blocks c = pre @ b # post" "v = Some b"
    "chain_ok e ssl (c\<lparr>cv_blocks := pre\<rparr>)"
    "if pre = [] then r = Reject \<and> \<not> genesis_ok b
     else block_check e ssl (cv_zeros c) (hash_of e ssl (last pre)) b = Some r"
    by (rule chain_check_fails)
  have "\<not> chain_ok e ssl (c\<lparr>cv_blocks := pre @ [b]\<rparr>)"
    using b(4) \<open>r \<noteq> Pass\<close>
    by (auto simp: chain_ok_snoc block_check_Pass [OF assms(3), symmetric] split: if_splits)
  moreover have "case x of Some d \<Rightarrow> \<exists>G \<subseteq> F. own_block h d G b
      | None \<Rightarrow> 0 < length pre \<and> bv_transactions b = []"
  proof (cases r)
    case Reject
    then have "x = Some d" using r(2) by (simp add: invalid_at_def)
    moreover have "\<exists>G \<subseteq> F. own_block h d G b" using r(3) b(2) by blast
    ultimately show ?thesis by simp
  next
    case Reject_silently
    then have "x = None" "pre \<noteq> []" using r(2) b(4) by (auto split: if_splits)
    with b(4) Reject_silently show ?thesis by (auto dest: block_check_silent)
  qed (use r(2) in auto)
  moreover have i: "cv_blocks c ! length pre = b" "take (length pre) (cv_blocks c) = pre"
    "take (Suc (length pre)) (cv_blocks c) = pre @ [b]" "length pre < length (cv_blocks c)"
    using b(1) by simp_all
  ultimately show ?thesis
    using b(3) by (intro exI [of _ "length pre"], unfold i) simp
qed

theorem blockchain_verify_blames_first_invalid_witness:
  "\<exists>h a F c d. own_chain h a F c \<and> length (cv_blocks c) = 2 \<and>
     blockchain_verify Little example_openssl a True True h = Some (SUCCESS, Some False, Some d) \<and>
     (\<exists>i < 2. \<exists>G \<subseteq> F. own_block h d G (cv_blocks c ! i))"
proof -
  let ?b = "example_block\<lparr>bv_previous_block_hash := replicate 32 1\<rparr>"
  let ?c = "example_chain [?b]"
  obtain h a F where own: "own_chain h a F ?c" using chain_representable by blast
  have wf: "wf_chain ?c" using example_block_ok(1) by (intro wf_example_chain) (simp add: wf_block_def)
  have bs: "cv_blocks ?c = [genesis_v 4, ?b]" "cv_zeros ?c = 2" by (simp_all add: example_chain_def)
  have "chain_check Little example_openssl ?c = Some (Reject, Some ?b)"
    by (simp add: chain_check_def bs example_genesis_ok block_check_def example_hash
        replicate_eq_replicate)
  with verify_eq [OF own wf example_openssl_ok(3), of True Little] obtain d where
    d: "blockchain_verify Little example_openssl a True True h = Some (SUCCESS, Some False, Some d)"
    by (auto simp: verify_result_def invalid_at_def)
  have "\<exists>i < 2. \<exists>G \<subseteq> F. own_block h d G (cv_blocks ?c ! i)"
    using blockchain_verify_blames_first_invalid [OF own wf example_openssl_ok(3) d] bs(1)
    by (auto simp: numeral_2_eq_2)
  moreover have "length (cv_blocks ?c) = 2" using bs(1) by simp
  ultimately show ?thesis using own d by blast
qed

section \<open>When verification runs to the end\<close>

lemma signature_check_result:
  "unat (sig_length (sender_signature t)) \<le> length (sig_bytes (sender_signature t)) \<Longrightarrow>
   (\<exists>v. signature_check e ssl t = Some (SUCCESS, Some v)) \<or>
   signature_check e ssl t = Some (FAILURE_OPENSSL_FUNCTION, None)"
  by (auto simp: signature_check_def load_bytes_def split: option.splits)

definition signatures_fit :: "chain_v \<Rightarrow> bool" where
  "signatures_fit c \<longleftrightarrow>
     (\<forall>b \<in> set (cv_blocks c). \<forall>t \<in> set (bv_transactions b).
        unat (sig_length (sender_signature t)) \<le> MAX_SSH_SIGNATURE_LENGTH)"

definition check_done :: "check \<Rightarrow> bool" where
  "check_done r \<longleftrightarrow> (\<forall>rc. r = Abort rc \<longrightarrow> rc = FAILURE_OPENSSL_FUNCTION)"

lemma signatures_check_total:
  assumes "\<forall>t \<in> set ts. unat (sig_length (sender_signature t)) \<le> length (sig_bytes (sender_signature t))"
  shows "\<exists>r. signatures_check e ssl ts = Some r \<and> check_done r"
  using assms
proof (induction ts)
  case Nil
  then show ?case by (simp add: check_done_def)
next
  case (Cons t ts)
  from Cons.IH Cons.prems have "\<exists>r. signatures_check e ssl ts = Some r \<and> check_done r" by simp
  moreover have "(\<exists>v. signature_check e ssl t = Some (SUCCESS, Some v)) \<or>
      signature_check e ssl t = Some (FAILURE_OPENSSL_FUNCTION, None)"
    using Cons.prems by (intro signature_check_result) simp
  ultimately show ?case by (auto simp: check_done_def)
qed

lemma block_check_total:
  assumes "wf_block b" "unat z \<le> SHA256_DIGEST_LENGTH"
    "\<forall>t \<in> set (bv_transactions b). unat (sig_length (sender_signature t)) \<le> MAX_SSH_SIGNATURE_LENGTH"
  shows "\<exists>r. block_check e ssl z previous b = Some r \<and> check_done r"
proof -
  have "\<exists>r. signatures_check e ssl (bv_transactions b) = Some r \<and> check_done r"
    using assms(1,3) by (intro signatures_check_total) (simp add: wf_block_def wf_transaction_def)
  then show ?thesis
    using assms(2) by (auto simp: block_check_def transactions_check_def check_done_def)
qed

lemma blocks_check_total:
  assumes "\<forall>b \<in> set bs. wf_block b" "unat z \<le> SHA256_DIGEST_LENGTH"
    "\<forall>b \<in> set bs. \<forall>t \<in> set (bv_transactions b).
       unat (sig_length (sender_signature t)) \<le> MAX_SSH_SIGNATURE_LENGTH"
  shows "\<exists>r x. blocks_check e ssl z previous bs = Some (r, x) \<and> check_done r"
  using assms
proof (induction bs arbitrary: previous)
  case Nil
  then show ?case by (simp add: check_done_def)
next
  case (Cons b bs)
  from Cons.IH Cons.prems have "\<exists>r x. blocks_check e ssl z (hash_of e ssl b) bs = Some (r, x) \<and> check_done r"
    by simp
  moreover from Cons.prems have "\<exists>r. block_check e ssl z previous b = Some r \<and> check_done r"
    by (intro block_check_total) simp_all
  ultimately show ?case by auto
qed

text \<open>
  C14. Verification returns, without undefined behaviour, on every chain whose required number
  of zero bytes is at most 32 and whose signature lengths are at most 512; it reports either a
  verdict or an OpenSSL failure.
\<close>

theorem blockchain_verify_returns:
  assumes "own_chain h a F c" "wf_chain c" "digest_ok ssl"
    and "unat (cv_zeros c) \<le> SHA256_DIGEST_LENGTH" "signatures_fit c"
  shows "\<exists>rc v x. blockchain_verify e ssl a True f h = Some (rc, v, x) \<and>
    (if v = None then rc = FAILURE_OPENSSL_FUNCTION \<and> x = None else rc = SUCCESS)"
proof -
  have "\<exists>r x. chain_check e ssl c = Some (r, x) \<and> check_done r"
  proof (cases "cv_blocks c")
    case Nil
    then show ?thesis by (simp add: chain_check_def check_done_def)
  next
    case (Cons g bs)
    then have "\<exists>r x. blocks_check e ssl (cv_zeros c) (hash_of e ssl g) bs = Some (r, x) \<and> check_done r"
      using assms(2,4,5) by (intro blocks_check_total) (simp_all add: wf_chain_def signatures_fit_def)
    with Cons show ?thesis by (auto simp: chain_check_def check_done_def)
  qed
  with verify_eq [OF assms(1-3), of f e] obtain r d where
    "blockchain_verify e ssl a True f h = Some (verdict_of f r d)" "check_done r"
    by (auto simp: verify_result_def)
  then show ?thesis by (cases r) (auto simp: check_done_def invalid_at_def)
qed

theorem blockchain_verify_returns_witness:
  "\<exists>h a F rc v x. own_chain h a F (example_chain [example_block]) \<and>
     blockchain_verify Big (example_openssl\<lparr>bio_new_ok := False\<rparr>) a True False h = Some (rc, v, x)"
proof -
  let ?c = "example_chain [example_block]"
  obtain h a F where own: "own_chain h a F ?c" using chain_representable by blast
  have "wf_chain ?c" by (simp add: wf_example_chain example_block_ok)
  moreover have "digest_ok (example_openssl\<lparr>bio_new_ok := False\<rparr>)"
    using example_openssl_ok(3) by (simp add: digest_ok_def)
  moreover have "unat (cv_zeros ?c) \<le> SHA256_DIGEST_LENGTH" "signatures_fit ?c"
    by (simp_all add: example_chain_def signatures_fit_def genesis_v_def example_block_def)
  ultimately show ?thesis
    using blockchain_verify_returns [OF own, of "example_openssl\<lparr>bio_new_ok := False\<rparr>" Big False] own
    by blast
qed

text \<open>
  A block after the genesis block that has no transactions makes the chain invalid, but
  \<open>*first_invalid_block\<close> is left unset although the caller asked for it.
\<close>

lemma blockchain_verify_empty_block_unnamed:
  assumes "own_chain h a F c" "wf_chain c" "digest_ok ssl" "cv_blocks c = g # b # bs" "genesis_ok g"
    and "leading_zeros (cv_zeros c) (hash_of e ssl b)" "bv_previous_block_hash b = hash_of e ssl g"
    and "bv_transactions b = []"
  shows "blockchain_verify e ssl a True True h = Some (SUCCESS, Some False, None)"
proof -
  have "unat (cv_zeros c) \<le> SHA256_DIGEST_LENGTH"
    using leading_zeros_length [OF assms(6)] assms(3) by (simp add: digest_ok_def hash_of_def)
  then have "chain_check e ssl c = Some (Reject_silently, Some b)"
    using assms(4-8) by (simp add: chain_check_def block_check_def transactions_check_def)
  with verify_eq [OF assms(1-3), of True e] show ?thesis by (auto simp: verify_result_def)
qed

section \<open>Growing a valid chain, and why an old block cannot be changed\<close>

text \<open>
  Appending a block that names the hash of the last block, has the required leading zero
  bytes, starts with a minting transaction and is signed throughout keeps a valid chain valid:
  verification of the extended chain succeeds.
\<close>

lemma add_block_keeps_chain_valid:
  assumes c: "own_chain h a F c" "wf_chain c" "chain_ok e ssl c" "cv_blocks c \<noteq> []"
    and b: "own_block h d G b" "wf_block b"
      "block_ok e ssl (cv_zeros c) (hash_of e ssl (last (cv_blocks c))) b"
    and "F \<inter> G = {}" "heap_ok h" "malloc_ok h (brk h)" "digest_ok ssl"
  shows "\<exists>h'. blockchain_add_block a d h = Some (SUCCESS, h') \<and>
    blockchain_verify e ssl a True True h' = Some (SUCCESS, Some True, None)"
  using c(1) b(1) assms(8-10)
proof (rule blockchain_add_block_ok)
  fix h'
  let ?c = "c\<lparr>cv_blocks := cv_blocks c @ [b]\<rparr>"
  assume h': "blockchain_add_block a d h = Some (SUCCESS, h')"
    "own_chain h' a (insert (Suc (brk h)) (F \<union> G)) ?c"
  have "wf_chain ?c" using c(2) b(2) by (auto simp: wf_chain_def)
  moreover have "chain_ok e ssl ?c" using c(3,4) b(3) by (simp add: chain_ok_snoc)
  ultimately show ?thesis
    using h' verify_valid_iff [OF h'(2) _ assms(11)] by blast
qed

definition collision :: "endianness \<Rightarrow> openssl \<Rightarrow> block_v list \<Rightarrow> block_v list \<Rightarrow> bool" where
  "collision e ssl bs bs' \<longleftrightarrow>
     (\<exists>b \<in> set bs. \<exists>b' \<in> set bs'. block_image e b \<noteq> block_image e b' \<and>
        sha256 ssl (block_image e b) = sha256 ssl (block_image e b'))"

lemma chains_agree:
  assumes "chain_ok e ssl (c\<lparr>cv_blocks := bs\<rparr>)" "chain_ok e ssl (c'\<lparr>cv_blocks := bs'\<rparr>)"
    and "\<forall>b \<in> set bs. wf_block b" "\<forall>b \<in> set bs'. wf_block b" "length bs = length bs'" "bs \<noteq> []"
    and "hash_of e ssl (last bs) = hash_of e ssl (last bs')"
  shows "bs = bs' \<or> collision e ssl bs bs'"
  using assms
proof (induction bs arbitrary: bs' rule: rev_induct)
  case Nil
  then show ?case by simp
next
  case (snoc b us)
  from snoc.prems(5) obtain us' b' where bs': "bs' = us' @ [b']" by (cases bs' rule: rev_cases) auto
  show ?case
  proof (cases "block_image e b = block_image e b'")
    case False
    with snoc.prems(7) show ?thesis by (auto simp: collision_def hash_of_def bs')
  next
    case True
    with snoc.prems(3,4) bs' have b: "b = b'" by (intro block_image_inj) auto
    show ?thesis
    proof (cases "us = []")
      case True
      with b bs' snoc.prems(5) show ?thesis by simp
    next
      case False
      then have "us' \<noteq> []" using snoc.prems(5) bs' by auto
      with False snoc.prems(1,2) b bs' have "hash_of e ssl (last us) = hash_of e ssl (last us')"
        by (auto simp: chain_ok_snoc block_ok_def)
      then have "us = us' \<or> collision e ssl us us'"
        using snoc.prems False bs' by (intro snoc.IH) (auto simp: chain_ok_snoc)
      with b bs' show ?thesis by (auto simp: collision_def)
    qed
  qed
qed



end
