(* ===== verification/Blockchain_Deserialize.thy ===== *)
theory Blockchain_Deserialize imports Blockchain_Serialize Blockchain_Verify begin

text \<open>
  \<open>blockchain_deserialize\<close> of \<^verbatim>\<open>src/blockchain.c\<close>, the round trip with the serialiser,
  and what it does with arbitrary bytes.

  The fields of a transaction and of a block header are read by parsers in the sense of theory
  \<open>Wire\<close>; the loops around them build the chain on the heap and, on every error, release
  what was built.
\<close>

section \<open>Fields\<close>

definition parse_transaction :: "transaction_t parser" where
  "parse_transaction e buf buffer_size next =
     parse_then (parse_u64 e buf buffer_size next) (\<lambda>created_at next.
     parse_then (parse_array MAX_SSH_KEY_LENGTH e buf buffer_size next) (\<lambda>sender next.
     parse_then (parse_array MAX_SSH_KEY_LENGTH e buf buffer_size next) (\<lambda>recipient next.
     parse_then (parse_u64 e buf buffer_size next) (\<lambda>amt next.
     parse_then (parse_u64 e buf buffer_size next) (\<lambda>len next.
       if len > of_nat MAX_SSH_KEY_LENGTH then Some (Inl FAILURE_SIGNATURE_TOO_LONG)
       else if too_small buffer_size next (unat len) then Some (Inl FAILURE_BUFFER_TOO_SMALL)
       else parse_then (map_option Inr (load_loop buf next MAX_SSH_SIGNATURE_LENGTH)) (\<lambda>bytes next.
         Some (Inr (\<lparr>tx_created_at = created_at, sender_public_key = sender,
                     recipient_public_key = recipient, amount = amt,
                     sender_signature = \<lparr>sig_length = len, sig_bytes = bytes\<rparr>\<rparr>, next))))))))"

text \<open>Creation time, previous hash, proof of work and number of transactions.\<close>

definition parse_block_header :: "(u64 \<times> sha_256_t \<times> u64 \<times> u64) parser" where
  "parse_block_header e buf buffer_size next =
     parse_then (parse_u64 e buf buffer_size next) (\<lambda>created_at next.
     parse_then (parse_array SHA256_DIGEST_LENGTH e buf buffer_size next) (\<lambda>previous next.
     parse_then (parse_u64 e buf buffer_size next) (\<lambda>pow next.
     parse_then (parse_u64 e buf buffer_size next) (\<lambda>num_transactions next.
       Some (Inr ((created_at, previous, pow, num_transactions), next))))))"

section \<open>The deserialiser\<close>

text \<open>
  A loop returns a code, the position in the buffer, and the heap; when the code is not
  \<open>SUCCESS\<close> it has cleaned up.  The return codes of the clean-up calls are ignored, as
  in the code.
\<close>

definition abandon_chain :: "return_code_t \<Rightarrow> addr \<Rightarrow> heap \<Rightarrow> (return_code_t \<times> nat \<times> heap) option" where
  "abandon_chain return_code new_blockchain h =
     do {
       (_, h) \<leftarrow> blockchain_destroy new_blockchain h;
       Some (return_code, 0, h)
     }"

definition abandon_list ::
  "return_code_t \<Rightarrow> addr \<Rightarrow> addr \<Rightarrow> heap \<Rightarrow> (return_code_t \<times> nat \<times> heap) option" where
  "abandon_list return_code new_blockchain tx_list h =
     do {
       (_, h) \<leftarrow> blockchain_destroy new_blockchain h;
       (_, h) \<leftarrow> linked_list_destroy app_free tx_list h;
       Some (return_code, 0, h)
     }"

definition abandon_transaction ::
  "return_code_t \<Rightarrow> addr \<Rightarrow> addr \<Rightarrow> addr \<Rightarrow> heap \<Rightarrow> (return_code_t \<times> nat \<times> heap) option" where
  "abandon_transaction return_code new_blockchain tx_list transaction h =
     do {
       (_, h) \<leftarrow> blockchain_destroy new_blockchain h;
       (_, h) \<leftarrow> linked_list_destroy app_free tx_list h;
       h \<leftarrow> mem_free transaction h;
       Some (return_code, 0, h)
     }"

definition zeroed_transaction :: transaction_t where
  "zeroed_transaction =
     \<lparr>tx_created_at = 0, sender_public_key = replicate MAX_SSH_KEY_LENGTH 0,
      recipient_public_key = replicate MAX_SSH_KEY_LENGTH 0, amount = 0,
      sender_signature = \<lparr>sig_length = 0, sig_bytes = replicate MAX_SSH_SIGNATURE_LENGTH 0\<rparr>\<rparr>"

partial_function (option) deserialize_transactions_loop ::
  "endianness \<Rightarrow> byte list \<Rightarrow> u64 \<Rightarrow> addr \<Rightarrow> addr \<Rightarrow> u64 \<Rightarrow> u64 \<Rightarrow> nat \<Rightarrow> heap \<Rightarrow>
   (return_code_t \<times> nat \<times> heap) option" where
  "deserialize_transactions_loop e buf buffer_size new_blockchain tx_list num_transactions idx next h =
     (if idx < num_transactions then
        (case malloc (DataObj (TransactionObj zeroed_transaction)) h of
           (transaction, h) \<Rightarrow>
             if transaction = NULL then abandon_list FAILURE_COULD_NOT_MALLOC new_blockchain tx_list h
             else do {
               parsed \<leftarrow> parse_transaction e buf buffer_size next;
               case parsed of
                 Inl return_code \<Rightarrow> abandon_transaction return_code new_blockchain tx_list transaction h
               | Inr (t, next) \<Rightarrow> do {
                   h \<leftarrow> store_obj transaction (DataObj (TransactionObj t)) h;
                   (return_code, h) \<leftarrow> linked_list_append tx_list transaction h;
                   if return_code \<noteq> SUCCESS
                   then abandon_transaction return_code new_blockchain tx_list transaction h
                   else deserialize_transactions_loop e buf buffer_size new_blockchain tx_list
                          num_transactions (idx + 1) next h
                 }
             })
      else Some (SUCCESS, next, h))"

text \<open>
  The end of a round of the block loop: create the block, set its creation time and append it.
  \<open>block_create\<close> stamps the block with the current time \<open>now\<close>, which is then
  overwritten with the time read.
\<close>

definition deserialize_add_block ::
  "u64 \<Rightarrow> addr \<Rightarrow> addr \<Rightarrow> u64 \<Rightarrow> sha_256_t \<Rightarrow> u64 \<Rightarrow> nat \<Rightarrow> heap \<Rightarrow>
   (return_code_t \<times> nat \<times> heap) option" where
  "deserialize_add_block now new_blockchain tx_list created_at previous pow next h =
     (case block_create True tx_list pow previous now h of
        (return_code, block, h) \<Rightarrow>
          if return_code \<noteq> SUCCESS then abandon_list return_code new_blockchain tx_list h
          else do {
            b \<leftarrow> load_block (out_ptr block) h;
            h \<leftarrow> store_obj (out_ptr block)
              (DataObj (BlockObj (b\<lparr>block_created_at := created_at\<rparr>))) h;
            (return_code, h) \<leftarrow> blockchain_add_block new_blockchain (out_ptr block) h;
            if return_code \<noteq> SUCCESS then do {
              (_, h) \<leftarrow> blockchain_destroy new_blockchain h;
              (_, h) \<leftarrow> block_destroy (out_ptr block) h;
              Some (return_code, 0, h)
            }
            else Some (SUCCESS, next, h)
          })"

partial_function (option) deserialize_blocks_loop ::
  "endianness \<Rightarrow> (u64 \<Rightarrow> u64) \<Rightarrow> byte list \<Rightarrow> u64 \<Rightarrow> addr \<Rightarrow> u64 \<Rightarrow> u64 \<Rightarrow> nat \<Rightarrow> heap \<Rightarrow>
   (return_code_t \<times> nat \<times> heap) option" where
  "deserialize_blocks_loop e now buf buffer_size new_blockchain num_blocks idx next h =
     (if idx < num_blocks then do {
        parsed \<leftarrow> parse_block_header e buf buffer_size next;
        case parsed of
          Inl return_code \<Rightarrow> abandon_chain return_code new_blockchain h
        | Inr ((created_at, previous, pow, num_transactions), next) \<Rightarrow>
            (case linked_list_create True (Some TRANSACTION_DESTROY) None h of
               (return_code, tx_list, h) \<Rightarrow>
                 if return_code \<noteq> SUCCESS then abandon_chain return_code new_blockchain h
                 else do {
                   (return_code, next, h) \<leftarrow> deserialize_transactions_loop e buf buffer_size
                     new_blockchain (out_ptr tx_list) num_transactions 0 next h;
                   if return_code \<noteq> SUCCESS then Some (return_code, next, h)
                   else do {
                     (return_code, next, h) \<leftarrow> deserialize_add_block (now idx) new_blockchain
                       (out_ptr tx_list) created_at previous pow next h;
                     if return_code \<noteq> SUCCESS then Some (return_code, next, h)
                     else deserialize_blocks_loop e now buf buffer_size new_blockchain
                            num_blocks (idx + 1) next h
                   }
                 })
      }
      else Some (SUCCESS, next, h))"

definition blockchain_deserialize ::
  "endianness \<Rightarrow> (u64 \<Rightarrow> u64) \<Rightarrow> bool \<Rightarrow> byte list option \<Rightarrow> u64 \<Rightarrow> heap \<Rightarrow>
   (return_code_t \<times> addr option \<times> heap) option" where
  "blockchain_deserialize e now out buffer buffer_size h =
     (case buffer of
        None \<Rightarrow> Some (FAILURE_INVALID_INPUT, None, h)
      | Some buf \<Rightarrow>
          if \<not> out then Some (FAILURE_INVALID_INPUT, None, h)
          else do {
            parsed \<leftarrow> parse_u64 e buf buffer_size 0;
            case parsed of
              Inl return_code \<Rightarrow> Some (return_code, None, h)
            | Inr (zeros, next) \<Rightarrow> do {
                (return_code, new_blockchain, h) \<leftarrow> blockchain_create True zeros h;
                if return_code \<noteq> SUCCESS then Some (return_code, None, h)
                else do {
                  parsed \<leftarrow> parse_u64 e buf buffer_size next;
                  case parsed of
                    Inl return_code \<Rightarrow> do {
                      (_, h) \<leftarrow> blockchain_destroy (out_ptr new_blockchain) h;
                      Some (return_code, None, h)
                    }
                  | Inr (num_blocks, next) \<Rightarrow> do {
                      (return_code, next, h) \<leftarrow> deserialize_blocks_loop e now buf buffer_size
                        (out_ptr new_blockchain) num_blocks 0 next h;
                      if return_code \<noteq> SUCCESS then Some (return_code, None, h)
                      else Some (SUCCESS, new_blockchain, h)
                    }
                }
              }
          })"

section \<open>The parsers meet their contract\<close>

text \<open>
  The transactions whose encoding is read back, and what is known of a transaction that was
  read: the code bounds the signature length by the length of a key.
\<close>

definition wire_transaction :: "transaction_t \<Rightarrow> bool" where
  "wire_transaction t \<longleftrightarrow>
     wf_transaction t \<and> unat (sig_length (sender_signature t)) \<le> MAX_SSH_SIGNATURE_LENGTH"

definition accepted_transaction :: "transaction_t \<Rightarrow> bool" where
  "accepted_transaction t \<longleftrightarrow>
     wf_transaction t \<and> unat (sig_length (sender_signature t)) \<le> MAX_SSH_KEY_LENGTH"

lemma sig_len_4096: "(w :: u64) > of_nat MAX_SSH_KEY_LENGTH \<longleftrightarrow> MAX_SSH_KEY_LENGTH < unat w"
  by (simp add: word_less_nat_alt)

lemma parse_transaction_enc:
  assumes "wire_transaction t" "holds_at buf off (enc_transaction t)"
    "off + length (enc_transaction t) \<le> unat buffer_size"
  shows "parse_transaction e buf buffer_size off = Some (Inr (t, off + length (enc_transaction t)))"
proof -
  have len: "length (sender_public_key t) = 4096" "length (recipient_public_key t) = 4096"
    "length (sig_bytes (sender_signature t)) = 512" "length (enc_transaction t) = 8728"
    using assms(1) by (simp_all add: wire_transaction_def wf_transaction_def length_enc_transaction)
  have at: "holds_at buf off (be_bytes (tx_created_at t))" "holds_at buf (off + 8) (sender_public_key t)"
    "holds_at buf (4104 + off) (recipient_public_key t)" "holds_at buf (8200 + off) (be_bytes (amount t))"
    "holds_at buf (8208 + off) (be_bytes (sig_length (sender_signature t)))"
    "holds_at buf (8216 + off) (sig_bytes (sender_signature t))"
    using assms(2) len by (simp_all add: enc_transaction_def holds_at_append add.commute)
  have bound: "off + 8728 \<le> unat buffer_size" using assms(3) len(4) by simp
  have siglen: "unat (sig_length (sender_signature t)) \<le> 512"
    using assms(1) by (simp add: wire_transaction_def)
  have u64: "parse_u64 e buf buffer_size k = Some (Inr (x, k + 8))"
    if "holds_at buf k (be_bytes x)" "k + 8 \<le> unat buffer_size" for k x
    using u64_wire.parse_enc [OF _ that(1), of buffer_size e] that(2) by simp
  have arr: "parse_array 4096 e buf buffer_size k = Some (Inr (bs, k + 4096))"
    if "holds_at buf k bs" "length bs = 4096" "k + 4096 \<le> unat buffer_size" for k bs
    using parse_array_enc [OF that(2,1,3)] .
  have sig: "load_loop buf (8216 + off) 512 =
      Some (sig_bytes (sender_signature t), off + 8728)"
    using at(6) holds_at_length [OF at(6)] len(3) by (subst load_loop_eq) (simp_all add: holds_at_def)
  have fit: "\<not> too_small buffer_size (8216 + off)
      (unat (sig_length (sender_signature t)))"
    using bound siglen by (intro fits) simp
  show ?thesis
    using bound siglen fit len(4) sig_len_4096 [of "sig_length (sender_signature t)"]
    unfolding parse_transaction_def
    by (simp add: u64 [OF at(1)] arr [OF at(2) len(1)] arr [OF at(3) len(2)] u64 [OF at(4)] u64 [OF at(5)]
        sig parse_then_simps)
qed

lemma signature_sound:
  assumes "unat buffer_size + 512 \<le> length buf" "length buf < 2 ^ 63"
    and "holds_at buf off0 acc" "off0 + length acc \<le> unat buffer_size + 512"
    and t: "\<And>bytes. length bytes = 512 \<Longrightarrow> unat (len :: u64) \<le> MAX_SSH_KEY_LENGTH \<Longrightarrow>
      accepted_transaction (t bytes) \<and> enc_transaction (t bytes) = acc @ bytes"
  shows "sound_parse enc_transaction accepted_transaction buf (unat buffer_size + 512) off0
    (if len > of_nat MAX_SSH_KEY_LENGTH then Some (Inl FAILURE_SIGNATURE_TOO_LONG)
     else if too_small buffer_size (off0 + length acc) (unat len) then Some (Inl FAILURE_BUFFER_TOO_SMALL)
     else parse_then (map_option Inr (load_loop buf (off0 + length acc) MAX_SSH_SIGNATURE_LENGTH))
       (\<lambda>bytes next. Some (Inr (t bytes, next))))"
proof -
  have rest: "sound_parse enc_transaction accepted_transaction buf (unat buffer_size + 512) off0
      (parse_then (map_option Inr (load_loop buf (off0 + length acc) MAX_SSH_SIGNATURE_LENGTH))
        (\<lambda>bytes next. Some (Inr (t bytes, next))))"
    if len: "unat len \<le> MAX_SSH_KEY_LENGTH" "\<not> too_small buffer_size (off0 + length acc) (unat len)"
  proof (rule sound_parse_then [OF load_loop_sound assms(3) refl])
    have "off0 + length acc + unat len \<le> unat buffer_size"
      using len assms(1,2,4) by (subst (asm) too_small_iff) simp_all
    then show "off0 + length acc + 512 \<le> length buf" "off0 + length acc + 512 \<le> unat buffer_size + 512"
      using assms(1) by simp_all
  next
    fix bytes :: "byte list"
    assume "length bytes = 512" "holds_at buf off0 (acc @ id bytes)"
      "off0 + length (acc @ id bytes) \<le> unat buffer_size + 512"
    with t [of bytes] len(1) show "sound_parse enc_transaction accepted_transaction buf
        (unat buffer_size + 512) off0 (Some (Inr (t bytes, off0 + length (acc @ id bytes))))"
      by (intro sound_parse_done) simp_all
  qed
  show ?thesis
    using rest sig_len_4096 [of len] by (simp add: sound_parse_error not_less)
qed

lemma parse_transaction_sound:
  assumes "unat buffer_size + 512 \<le> length buf" "length buf < 2 ^ 63" "off < 2 ^ 63"
  shows "sound_parse enc_transaction accepted_transaction buf (unat buffer_size + 512) off
    (parse_transaction e buf buffer_size off)"
proof -
  note u64 = u64_step [OF assms(1,2)] and arr = array_step [OF assms(1,2)]
    and fin = signature_sound [OF assms(1,2)]
  have start: "holds_at buf off []" "off + length ([] :: byte list) \<le> unat buffer_size + 512"
    if "off \<le> unat buffer_size + 512"
    using that assms(1) by (simp_all add: holds_at_Nil)
  show ?thesis
    unfolding parse_transaction_def
    apply (rule u64_start [OF assms(1,3)])
    apply (rule u64, erule start, erule start)
    apply (rule arr, simp, assumption, assumption)
    apply (rule arr, simp, assumption, assumption)
    apply (rule u64, assumption, assumption)
    apply (rule u64, assumption, assumption)
    apply (rule fin, assumption, assumption)
    apply (simp add: accepted_transaction_def wf_transaction_def enc_transaction_def)
    done
qed

interpretation tx_wire:
  wire_parser enc_transaction wire_transaction accepted_transaction parse_transaction 512
proof
  fix t
  assume "accepted_transaction t"
  then have "length (enc_transaction t) = 8728"
    by (simp add: accepted_transaction_def length_enc_transaction)
  then show "enc_transaction t \<noteq> []" by auto
qed (rule parse_transaction_enc parse_transaction_sound; assumption)+

section \<open>Blocks and chains as parsers\<close>

text \<open>What the two loops read, without the heap.\<close>

fun enc_block_header :: "u64 \<times> sha_256_t \<times> u64 \<times> u64 \<Rightarrow> byte list" where
  "enc_block_header (created_at, previous, pow, n) =
     be_bytes created_at @ previous @ be_bytes pow @ be_bytes n"

fun wf_block_header :: "u64 \<times> sha_256_t \<times> u64 \<times> u64 \<Rightarrow> bool" where
  "wf_block_header (created_at, previous, pow, n) \<longleftrightarrow> length previous = SHA256_DIGEST_LENGTH"

definition parse_block :: "block_v parser" where
  "parse_block e buf buffer_size next =
     parse_then (parse_block_header e buf buffer_size next) (\<lambda>(created_at, previous, pow, n) next.
     parse_then (parse_list parse_transaction (unat n) e buf buffer_size next) (\<lambda>ts next.
       Some (Inr (\<lparr>bv_created_at = created_at, bv_transactions = ts, bv_proof_of_work = pow,
                   bv_previous_block_hash = previous\<rparr>, next))))"

definition parse_chain :: "chain_v parser" where
  "parse_chain e buf buffer_size next =
     parse_then (parse_u64 e buf buffer_size next) (\<lambda>zeros next.
     parse_then (parse_u64 e buf buffer_size next) (\<lambda>n next.
     parse_then (parse_list parse_block (unat n) e buf buffer_size next) (\<lambda>bs next.
       Some (Inr (\<lparr>cv_blocks = bs, cv_zeros = zeros\<rparr>, next)))))"

definition wire_block :: "block_v \<Rightarrow> bool" where
  "wire_block b \<longleftrightarrow>
     length (bv_previous_block_hash b) = SHA256_DIGEST_LENGTH \<and>
     (\<forall>t \<in> set (bv_transactions b). wire_transaction t)"

definition accepted_block :: "block_v \<Rightarrow> bool" where
  "accepted_block b \<longleftrightarrow>
     length (bv_previous_block_hash b) = SHA256_DIGEST_LENGTH \<and>
     (\<forall>t \<in> set (bv_transactions b). accepted_transaction t)"

definition wire_chain :: "chain_v \<Rightarrow> bool" where
  "wire_chain c \<longleftrightarrow> (\<forall>b \<in> set (cv_blocks c). wire_block b)"

definition accepted_chain :: "chain_v \<Rightarrow> bool" where
  "accepted_chain c \<longleftrightarrow> (\<forall>b \<in> set (cv_blocks c). accepted_block b)"

lemma parse_block_header_enc:
  assumes "wf_block_header x" "holds_at buf off (enc_block_header x)" "off + 56 \<le> unat buffer_size"
  shows "parse_block_header e buf buffer_size off = Some (Inr (x, off + 56))"
proof -
  obtain c p w n where x: "x = (c, p, w, n)" by (metis prod_cases4)
  with assms(1) have len: "length p = 32" by simp
  have at: "holds_at buf off (be_bytes c)" "holds_at buf (off + 8) p"
    "holds_at buf (40 + off) (be_bytes w)" "holds_at buf (48 + off) (be_bytes n)"
    using assms(2) len x by (simp_all add: holds_at_append)
  have u64: "parse_u64 e buf buffer_size k = Some (Inr (v, k + 8))"
    if "holds_at buf k (be_bytes v)" "k + 8 \<le> unat buffer_size" for k v
    using u64_wire.parse_enc [OF _ that(1), of buffer_size e] that(2) by simp
  have "parse_array 32 e buf buffer_size (off + 8) = Some (Inr (p, off + 8 + 32))"
    by (rule parse_array_enc [OF len at(2)]) (use assms(3) in simp)
  then show ?thesis
    using assms(3) unfolding parse_block_header_def x
    by (simp add: u64 [OF at(1)] u64 [OF at(3)] u64 [OF at(4)] parse_then_simps)
qed

lemma parse_block_header_sound:
  assumes "unat buffer_size + slack \<le> length buf" "length buf < 2 ^ 63" "off < 2 ^ 63"
  shows "sound_parse enc_block_header wf_block_header buf (unat buffer_size + slack) off
    (parse_block_header e buf buffer_size off)"
proof -
  note u64 = u64_step [OF assms(1,2)] and arr = array_step [OF assms(1,2)]
  have start: "holds_at buf off []" "off + length ([] :: byte list) \<le> unat buffer_size + slack"
    if "off \<le> unat buffer_size + slack"
    using that assms(1) by (simp_all add: holds_at_Nil)
  show ?thesis
    unfolding parse_block_header_def
    apply (rule u64_start [OF assms(1,3)])
    apply (rule u64, erule start, erule start)
    apply (rule arr, simp, assumption, assumption)
    apply (rule u64, assumption, assumption)
    apply (rule u64, assumption, assumption)
    apply (rule sound_parse_done; simp)
    done
qed

lemma parse_block_enc:
  assumes "wire_block b" "holds_at buf off (enc_block b)" "off + length (enc_block b) \<le> unat buffer_size"
  shows "parse_block e buf buffer_size off = Some (Inr (b, off + length (enc_block b)))"
proof -
  let ?ts = "bv_transactions b"
  let ?n = "of_nat (length ?ts) :: u64"
  let ?hdr = "(bv_created_at b, bv_previous_block_hash b, bv_proof_of_work b, ?n)"
  have enc: "enc_block b = enc_block_header ?hdr @ concat (map enc_transaction ?ts)"
    by (simp add: enc_block_def)
  have hdr: "length (enc_block_header ?hdr) = 56" "wf_block_header ?hdr"
    using assms(1) by (simp_all add: wire_block_def)
  have "length ?ts \<le> length (concat (map enc_transaction ?ts))"
    using assms(1) by (intro tx_wire.list_length_bound)
      (auto simp: wire_block_def wire_transaction_def accepted_transaction_def)
  then have "length ?ts < 2 ^ 64"
    using assms(3) unsigned_less [of buffer_size, where 'a = nat] by (simp add: enc)
  then have n: "unat ?n = length ?ts" by simp
  have "parse_block_header e buf buffer_size off = Some (Inr (?hdr, off + 56))"
    using assms(2,3) hdr by (intro parse_block_header_enc) (simp_all add: enc holds_at_append)
  moreover have "parse_list parse_transaction (length ?ts) e buf buffer_size (off + 56) =
      Some (Inr (?ts, off + 56 + length (concat (map enc_transaction ?ts))))"
    using assms hdr(1) by (intro tx_wire.list_enc)
      (simp_all add: wire_block_def enc holds_at_append del: enc_block_header.simps)
  ultimately show ?thesis
    using n hdr(1) by (simp add: parse_block_def parse_then_simps enc del: enc_block_header.simps)
qed

lemma parse_block_sound:
  assumes "unat buffer_size + 512 \<le> length buf" "length buf < 2 ^ 63" "off < 2 ^ 63"
  shows "sound_parse enc_block accepted_block buf (unat buffer_size + 512) off
    (parse_block e buf buffer_size off)"
proof (cases "off \<le> unat buffer_size + 512")
  case False
  then have "too_small buffer_size off 8" using assms(3) by (subst too_small_iff) simp_all
  then show ?thesis
    by (simp add: parse_block_def parse_block_header_def word_parsers parse_then_simps sound_parse_error)
next
  case True
  then have start: "holds_at buf off []" "off = off + length ([] :: byte list)"
    using assms(1) by (simp_all add: holds_at_Nil)
  show ?thesis unfolding parse_block_def
  proof (rule sound_parse_then [OF parse_block_header_sound [OF assms] start])
    fix x
    assume x: "wf_block_header x" "holds_at buf off ([] @ enc_block_header x)"
      "off + length ([] @ enc_block_header x) \<le> unat buffer_size + 512"
    obtain c p w n where hdr: "x = (c, p, w, n)" by (metis prod_cases4)
    show "sound_parse enc_block accepted_block buf (unat buffer_size + 512) off
        ((case x of (created_at, previous, pow, n) \<Rightarrow> \<lambda>next.
          parse_then (parse_list parse_transaction (unat n) e buf buffer_size next) (\<lambda>ts next.
            Some (Inr (\<lparr>bv_created_at = created_at, bv_transactions = ts, bv_proof_of_work = pow,
              bv_previous_block_hash = previous\<rparr>, next))))
         (off + length ([] @ enc_block_header x)))"
      unfolding hdr prod.case
      by (rule sound_parse_then [OF tx_wire.list_sound [OF assms(1,2) x(3) [unfolded hdr]]
            x(2) [unfolded hdr] refl], rule sound_parse_done)
        (use x(1) hdr in \<open>auto simp: accepted_block_def enc_block_def\<close>)
  qed
qed

interpretation blk_wire: wire_parser enc_block wire_block accepted_block parse_block 512
proof
  fix b
  show "enc_block b \<noteq> []"
    using u64_wire.enc_nonempty [of "bv_created_at b"] by (simp add: enc_block_def)
qed (rule parse_block_enc parse_block_sound; assumption)+

lemma wire_accepted:
  "wire_transaction t \<Longrightarrow> accepted_transaction t" "wire_block b \<Longrightarrow> accepted_block b"
  by (auto simp: wire_transaction_def accepted_transaction_def wire_block_def accepted_block_def
      intro: le_trans)

lemma parse_chain_enc:
  assumes "wire_chain c" "holds_at buf off (enc_chain c)"
    "off + length (enc_chain c) \<le> unat buffer_size"
  shows "parse_chain e buf buffer_size off = Some (Inr (c, off + length (enc_chain c)))"
proof -
  let ?bs = "cv_blocks c"
  let ?n = "of_nat (length ?bs) :: u64"
  have len: "length (enc_chain c) = 16 + length (concat (map enc_block ?bs))"
    by (simp add: enc_chain_def)
  have "length ?bs \<le> length (concat (map enc_block ?bs))"
    using assms(1) by (intro blk_wire.list_length_bound) (auto simp: wire_chain_def wire_accepted)
  then have "length ?bs < 2 ^ 64"
    using assms(3) len unsigned_less [of buffer_size, where 'a = nat] by simp
  then have n: "unat ?n = length ?bs" by simp
  have u64: "parse_u64 e buf buffer_size k = Some (Inr (v, k + 8))"
    if "holds_at buf k (be_bytes v)" "k + 8 \<le> unat buffer_size" for k v
    using u64_wire.parse_enc [OF _ that(1), of buffer_size e] that(2) by simp
  have at: "holds_at buf off (be_bytes (cv_zeros c))" "holds_at buf (off + 8) (be_bytes ?n)"
    "holds_at buf (16 + off) (concat (map enc_block ?bs))"
    using assms(2) by (simp_all add: enc_chain_def holds_at_append)
  have "parse_list parse_block (length ?bs) e buf buffer_size (16 + off) =
      Some (Inr (?bs, 16 + off + length (concat (map enc_block ?bs))))"
    using assms(1,3) at(3) len by (intro blk_wire.list_enc) (simp_all add: wire_chain_def)
  with n len assms(3) u64 [OF at(1)] u64 [OF at(2)] show ?thesis
    by (simp add: parse_chain_def parse_then_simps)
qed

lemma parse_chain_sound:
  assumes "unat buffer_size + 512 \<le> length buf" "length buf < 2 ^ 63" "off < 2 ^ 63"
  shows "sound_parse enc_chain accepted_chain buf (unat buffer_size + 512) off
    (parse_chain e buf buffer_size off)"
proof -
  note u64 = u64_step [OF assms(1,2)]
  have start: "holds_at buf off []" "off + length ([] :: byte list) \<le> unat buffer_size + 512"
    if "off \<le> unat buffer_size + 512"
    using that assms(1) by (simp_all add: holds_at_Nil)
  show ?thesis
    unfolding parse_chain_def
    apply (rule u64_start [OF assms(1,3)])
    apply (rule u64, erule start, erule start)
    apply (rule u64, assumption, assumption)
    apply (rule sound_parse_then [OF blk_wire.list_sound [OF assms(1,2)] _ refl], assumption, assumption)
    apply (rule sound_parse_done; auto simp: accepted_chain_def enc_chain_def)
    done
qed

interpretation chain_wire: wire_parser enc_chain wire_chain accepted_chain parse_chain 512
proof
  fix c
  show "enc_chain c \<noteq> []"
    using u64_wire.enc_nonempty [of "cv_zeros c"] by (simp add: enc_chain_def)
qed (rule parse_chain_enc parse_chain_sound; assumption)+

section \<open>Cleaning up and growing\<close>

interpretation tx_app: owned_free own_transaction app_free TRANSACTION_DESTROY
  by unfold_locales (simp add: app_free_def tx_destroy.free_contract)

lemma abandon_chain_eq:
  "own_chain h a C c \<Longrightarrow> abandon_chain rc a h = Some (rc, 0, free_all C h)"
  by (simp add: abandon_chain_def blockchain_destroy_eq)

lemma ll_after_free:
  assumes "own_ll own_transaction f c h l L ts" "C \<inter> L = {}"
  shows "own_ll own_transaction f c (free_all C h) l L ts"
  by (rule tx.ll_frame [OF assms(1)]) (use assms(2) in \<open>auto intro!: free_all_sel(4)\<close>)

lemma abandon_list_eq:
  assumes "own_chain h a C c" "own_ll own_transaction TRANSACTION_DESTROY None h l L ts" "C \<inter> L = {}"
  shows "abandon_list rc a l h = Some (rc, 0, free_all (C \<union> L) h)"
  using assms ll_after_free [OF assms(2,3)]
  by (simp add: abandon_list_def blockchain_destroy_eq tx_app.destroy_eq Un_commute)

lemma abandon_transaction_eq:
  assumes "own_chain h a C c" "own_ll own_transaction TRANSACTION_DESTROY None h l L ts" "C \<inter> L = {}"
    and "d \<noteq> NULL" "store h d = Some v" "d \<notin> C \<union> L"
  shows "abandon_transaction rc a l d h = Some (rc, 0, free_all (insert d (C \<union> L)) h)"
proof -
  have "mem_free d (free_all (C \<union> L) h) = Some (free_all (insert d (C \<union> L)) h)"
    using assms(4-6) by (subst mem_free_eq) simp_all
  then show ?thesis
    using assms(1-3) ll_after_free [OF assms(2,3)]
    by (simp add: abandon_transaction_def blockchain_destroy_eq tx_app.destroy_eq Un_commute)
qed

section \<open>The loops compute the parsers\<close>

text \<open>
  One round of the transaction loop: allocate, read, append.  The list and the chain are owned
  by \<open>L\<close> and \<open>C\<close>.
\<close>

definition tx_state :: "addr \<Rightarrow> addr set \<Rightarrow> chain_v \<Rightarrow> addr \<Rightarrow> transaction_t list \<Rightarrow> addr set \<Rightarrow> heap \<Rightarrow> bool" where
  "tx_state a C c l ts K h \<longleftrightarrow>
     (\<exists>L. own_chain h a C c \<and> own_ll own_transaction TRANSACTION_DESTROY None h l L ts \<and>
        C \<inter> L = {} \<and> K = C \<union> L)"

lemma tx_stateI:
  "own_chain h a C c \<Longrightarrow> own_ll own_transaction TRANSACTION_DESTROY None h l L ts \<Longrightarrow> C \<inter> L = {} \<Longrightarrow>
   K = C \<union> L \<Longrightarrow> tx_state a C c l ts K h"
  unfolding tx_state_def by blast

lemma tx_state_live: "tx_state a C c l ts K h \<Longrightarrow> x \<in> K \<Longrightarrow> store h x \<noteq> None"
  unfolding tx_state_def using own_chain_live tx.ll_live by blast

lemma tx_state_frame:
  assumes "tx_state a C c l ts K h" "\<And>x. x \<in> K \<Longrightarrow> store h' x = store h x"
  shows "tx_state a C c l ts K h'"
proof -
  from assms(1) obtain L where L: "own_chain h a C c"
    "own_ll own_transaction TRANSACTION_DESTROY None h l L ts" "C \<inter> L = {}" "K = C \<union> L"
    unfolding tx_state_def by blast
  have "own_chain h' a C c" using L(4) assms(2) by (intro own_chain_frame [OF L(1)]) auto
  moreover have "own_ll own_transaction TRANSACTION_DESTROY None h' l L ts"
    using L(4) assms(2) by (intro tx.ll_frame [OF L(2)]) auto
  ultimately show ?thesis using L(3,4) by (rule tx_stateI)
qed

lemma tx_state_abandon:
  assumes "tx_state a C c l ts K h"
  shows "abandon_list rc a l h = Some (rc, 0, free_all K h)"
    and "d \<noteq> NULL \<Longrightarrow> store h d = Some v \<Longrightarrow> d \<notin> K \<Longrightarrow>
      abandon_transaction rc a l d h = Some (rc, 0, free_all (insert d K) h)"
  using assms abandon_list_eq abandon_transaction_eq unfolding tx_state_def by blast+

lemma tx_state_append:
  assumes "tx_state a C c l ts K h" "own_transaction h d {d} t" "d \<notin> K" "heap_ok h"
  shows "malloc_ok h (brk h) \<Longrightarrow>
      \<exists>h'. linked_list_append l d h = Some (SUCCESS, h') \<and>
        tx_state a C c l (ts @ [t]) (insert (Suc (brk h)) (insert d K)) h' \<and>
        grows (insert d K) h (insert (Suc (brk h)) (insert d K)) h'"
    and "\<not> malloc_ok h (brk h) \<Longrightarrow>
      linked_list_append l d h = Some (FAILURE_COULD_NOT_MALLOC, h\<lparr>brk := Suc (brk h)\<rparr>)"
proof -
  from assms(1) obtain L where L: "own_chain h a C c"
    "own_ll own_transaction TRANSACTION_DESTROY None h l L ts" "C \<inter> L = {}" "K = C \<union> L"
    unfolding tx_state_def by blast
  let ?n = "Suc (brk h)"
  have apart: "L \<inter> {d} = {}" using assms(3) L(4) by auto
  show "\<not> malloc_ok h (brk h) \<Longrightarrow>
      linked_list_append l d h = Some (FAILURE_COULD_NOT_MALLOC, h\<lparr>brk := ?n\<rparr>)"
    using tx.append_fail [OF L(2)] tx.own_NULL [OF assms(2)] by simp
  assume m: "malloc_ok h (brk h)"
  from L(2) assms(2) apart assms(4) m obtain h' where h': "linked_list_append l d h = Some (SUCCESS, h')"
    "own_ll own_transaction TRANSACTION_DESTROY None h' l (insert ?n (L \<union> {d})) (ts @ [t])"
    "same_except (insert ?n L) h h'" "heap_ok h'"
    by (rule tx.append_ok)
  have C: "?n \<notin> C" "d \<notin> C" using own_chain_fresh [OF L(1) assms(4)] assms(3) L(4) by auto
  have "own_chain h' a C c"
    by (intro own_chain_frame [OF L(1)] same_except_apart [OF h'(3)]) (use C L(3) in auto)
  then have "tx_state a C c l (ts @ [t]) (insert ?n (insert d K)) h'"
    using h'(2) by (rule tx_stateI) (use C L(3,4) in auto)
  moreover have "grows (insert d K) h (insert ?n (insert d K)) h'"
    using same_except_mono [OF h'(3), of "insert ?n (insert d K)"] L(4) h'(4) heap_ok_fresh [OF assms(4)]
    by (auto simp: grows_def)
  ultimately show "\<exists>h'. linked_list_append l d h = Some (SUCCESS, h') \<and>
      tx_state a C c l (ts @ [t]) (insert ?n (insert d K)) h' \<and>
      grows (insert d K) h (insert ?n (insert d K)) h'"
    using h'(1) by blast
qed

lemma parse_transaction_no_success: "parse_transaction e buf buffer_size off = Some (Inl rc) \<Longrightarrow> rc \<noteq> SUCCESS"
  by (auto simp: parse_transaction_def parse_then_def word_parsers parse_array_def bind_Some_iff
      split: option.splits sum.splits if_splits)

lemma abandon_code:
  "abandon_chain rc a h = Some (rc', off, h') \<Longrightarrow> rc' = rc"
  "abandon_list rc a l h = Some (rc', off, h') \<Longrightarrow> rc' = rc"
  "abandon_transaction rc a l d h = Some (rc', off, h') \<Longrightarrow> rc' = rc"
  by (auto simp: abandon_chain_def abandon_list_def abandon_transaction_def split: Option.bind_split_asm)

lemma abandon_stops:
  assumes "rc \<noteq> SUCCESS"
  shows "Option.bind (abandon_chain rc a h) (\<lambda>(rc, off, h). if rc \<noteq> SUCCESS then Some (rc, off, h) else f off h) =
      abandon_chain rc a h"
    and "Option.bind (abandon_list rc a l h) (\<lambda>(rc, off, h). if rc \<noteq> SUCCESS then Some (rc, off, h) else f off h) =
      abandon_list rc a l h"
    and "Option.bind (abandon_transaction rc a l d h)
        (\<lambda>(rc, off, h). if rc \<noteq> SUCCESS then Some (rc, off, h) else f off h) =
      abandon_transaction rc a l d h"
  using assms by (auto intro!: bind_stopped dest: abandon_code)

text \<open>What a round of the transaction loop does once the fields are read.\<close>

definition deserialize_store_transaction ::
  "addr \<Rightarrow> addr \<Rightarrow> addr \<Rightarrow> transaction_t \<Rightarrow> nat \<Rightarrow> heap \<Rightarrow> (return_code_t \<times> nat \<times> heap) option" where
  "deserialize_store_transaction a l d t next h =
     do {
       h \<leftarrow> store_obj d (DataObj (TransactionObj t)) h;
       (return_code, h) \<leftarrow> linked_list_append l d h;
       if return_code \<noteq> SUCCESS then abandon_transaction return_code a l d h
       else Some (SUCCESS, next, h)
     }"

definition deserialize_transaction_round ::
  "endianness \<Rightarrow> byte list \<Rightarrow> u64 \<Rightarrow> addr \<Rightarrow> addr \<Rightarrow> nat \<Rightarrow> heap \<Rightarrow> (return_code_t \<times> nat \<times> heap) option" where
  "deserialize_transaction_round e buf buffer_size a l next h =
     (case malloc (DataObj (TransactionObj zeroed_transaction)) h of
        (d, h) \<Rightarrow>
          if d = NULL then abandon_list FAILURE_COULD_NOT_MALLOC a l h
          else Option.bind (parse_transaction e buf buffer_size next) (\<lambda>parsed.
            case parsed of
              Inl return_code \<Rightarrow> abandon_transaction return_code a l d h
            | Inr (t, next) \<Rightarrow> deserialize_store_transaction a l d t next h))"

lemma transactions_loop_unfold:
  "deserialize_transactions_loop e buf buffer_size a l n idx off h =
     (if idx < n then
        Option.bind (deserialize_transaction_round e buf buffer_size a l off h) (\<lambda>(rc, off, h).
          if rc \<noteq> SUCCESS then Some (rc, off, h)
          else deserialize_transactions_loop e buf buffer_size a l n (idx + 1) off h)
      else Some (SUCCESS, off, h))"
  by (subst deserialize_transactions_loop.simps)
    (auto simp: deserialize_transaction_round_def deserialize_store_transaction_def abandon_stops
      parse_transaction_no_success split: prod.split sum.split intro!: Option.bind_option_cong)

lemma store_transaction_result:
  assumes st: "tx_state a C c l ts K h" and ok: "heap_ok h" and d: "d \<noteq> NULL" "store h d = Some v" "d \<notin> K"
  shows "loop_result (\<lambda>t. tx_state a C c l (ts @ [t])) (insert d K) h (Some (Inr (t, off)))
    (deserialize_store_transaction a l d t off h)"
proof -
  let ?h2 = "h\<lparr>store := (store h)(d \<mapsto> DataObj (TransactionObj t))\<rparr>"
  have g2: "grows (insert d K) h (insert d K) ?h2" by (rule grows_update [OF ok _ d(2)]) simp
  then have ok2: "heap_ok ?h2" by (simp add: grows_def)
  have st2: "tx_state a C c l ts K ?h2" using d(3) by (intro tx_state_frame [OF st]) auto
  have t: "own_transaction ?h2 d {d} t" using d(1) by (simp add: own_transaction_def)
  have run: "deserialize_store_transaction a l d t off h =
      Option.bind (linked_list_append l d ?h2) (\<lambda>(return_code, h).
        if return_code \<noteq> SUCCESS then abandon_transaction return_code a l d h else Some (SUCCESS, off, h))"
    using d by (simp add: deserialize_store_transaction_def store_obj_def)
  show ?thesis
  proof (cases "malloc_ok ?h2 (brk ?h2)")
    case False
    let ?h3 = "?h2\<lparr>brk := Suc (brk ?h2)\<rparr>"
    have "tx_state a C c l ts K ?h3" by (rule tx_state_frame [OF st2]) simp
    from tx_state_abandon(2) [OF this d(1) _ d(3)] have
      "deserialize_store_transaction a l d t off h = Some (FAILURE_COULD_NOT_MALLOC, 0, free_all (insert d K) ?h3)"
      using tx_state_append(2) [OF st2 t d(3) ok2 False] by (simp add: run)
    moreover have "cleaned (insert d K) h (free_all (insert d K) ?h3)"
      by (rule grows_cleaned [OF g2 cleaned_brk [OF ok2]])
    ultimately show ?thesis using False by (intro loop_result_malloc) simp_all
  next
    case True
    from tx_state_append(1) [OF st2 t d(3) ok2 True] grows_trans [OF g2] show ?thesis
      unfolding run loop_result_def by fastforce
  qed
qed

lemma transaction_round_result:
  assumes st: "tx_state a C c l ts K h" and ok: "heap_ok h"
  shows "loop_result (\<lambda>t. tx_state a C c l (ts @ [t])) K h (parse_transaction e buf buffer_size off)
    (deserialize_transaction_round e buf buffer_size a l off h)"
proof (cases "malloc_ok h (brk h)")
  case False
  have "tx_state a C c l ts K (h\<lparr>brk := Suc (brk h)\<rparr>)" by (rule tx_state_frame [OF st]) simp
  from tx_state_abandon(1) [OF this] have "deserialize_transaction_round e buf buffer_size a l off h =
      Some (FAILURE_COULD_NOT_MALLOC, 0, free_all K (h\<lparr>brk := Suc (brk h)\<rparr>))"
    using False by (simp add: deserialize_transaction_round_def malloc_eq)
  then show ?thesis using cleaned_brk [OF ok] False by (rule loop_result_malloc)
next
  case True
  let ?d = "Suc (brk h)"
  let ?h1 = "h\<lparr>brk := ?d, store := (store h)(?d \<mapsto> DataObj (TransactionObj zeroed_transaction))\<rparr>"
  have fresh: "?d \<notin> K" using tx_state_live [OF st] heap_ok_fresh [OF ok] by blast
  have st1: "tx_state a C c l ts K ?h1" using fresh by (intro tx_state_frame [OF st]) auto
  have g1: "grows K h (insert ?d K) ?h1" by (rule grows_alloc [OF ok])
  then have ok1: "heap_ok ?h1" by (simp add: grows_def)
  have d: "store ?h1 ?d = Some (DataObj (TransactionObj zeroed_transaction))" by simp
  have "loop_result (\<lambda>t. tx_state a C c l (ts @ [t])) (insert ?d K) ?h1
      (parse_then (parse_transaction e buf buffer_size off) (\<lambda>t off. Some (Inr (t, off))))
      (Option.bind (parse_transaction e buf buffer_size off) (\<lambda>parsed.
        case parsed of
          Inl return_code \<Rightarrow> abandon_transaction return_code a l ?d ?h1
        | Inr (t, next) \<Rightarrow> deserialize_store_transaction a l ?d t next ?h1))"
    by (rule loop_result_parse)
      (use tx_state_abandon(2) [OF st1 _ d fresh] cleaned_free_all [OF ok1] store_transaction_result [OF st1 ok1 _ d fresh]
        parse_transaction_no_success in auto)
  from loop_result_grows [OF g1 this] show ?thesis
    using True by (simp add: deserialize_transaction_round_def malloc_eq parse_then_id)
qed

interpretation transactions_loop: counted_loop parse_transaction e buf buffer_size n
  "\<lambda>idx. deserialize_transaction_round e buf buffer_size a l"
  "deserialize_transactions_loop e buf buffer_size a l n"
  "tx_state a C c l" for e buf buffer_size n a l C c
  by unfold_locales (rule transactions_loop_unfold, rule transaction_round_result)

text \<open>The chain under construction owns exactly \<open>K\<close>.\<close>

abbreviation (input) extends_chain :: "addr \<Rightarrow> chain_v \<Rightarrow> block_v list \<Rightarrow> addr set \<Rightarrow> heap \<Rightarrow> bool" where
  "extends_chain a c bs K h \<equiv> own_chain h a K (c\<lparr>cv_blocks := cv_blocks c @ bs\<rparr>)"

lemma append_block_result:
  assumes c: "own_chain h a C c" and b: "own_block h d B b" and apart: "C \<inter> B = {}" and ok: "heap_ok h"
  shows "loop_result (\<lambda>b. extends_chain a c [b]) (C \<union> B) h (Some (Inr (b, off)))
    (Option.bind (blockchain_add_block a d h) (\<lambda>(return_code, h).
       if return_code \<noteq> SUCCESS then do {
         (_, h) \<leftarrow> blockchain_destroy a h;
         (_, h) \<leftarrow> block_destroy d h;
         Some (return_code, 0, h)
       } else Some (SUCCESS, off, h)))"
proof (cases "malloc_ok h (brk h)")
  case False
  let ?h = "h\<lparr>brk := Suc (brk h)\<rparr>"
  have "own_chain ?h a C c" by (rule own_chain_frame [OF c]) simp
  moreover have "own_block (free_all C ?h) d B b"
    by (rule own_block_frame [OF b]) (subst free_all_sel(4); use apart in auto)
  moreover have "d \<noteq> NULL" by (rule blk.own_NULL [OF b])
  ultimately show ?thesis
    using blockchain_add_block_fail [OF c _ False, of d] cleaned_brk [OF ok, of "C \<union> B"] False
    by (intro loop_result_malloc)
      (auto simp: blockchain_destroy_eq block_destroy_eq Un_commute)
next
  case True
  from c b apart ok True obtain h' where h': "blockchain_add_block a d h = Some (SUCCESS, h')"
    "own_chain h' a (insert (Suc (brk h)) (C \<union> B)) (c\<lparr>cv_blocks := cv_blocks c @ [b]\<rparr>)"
    "same_except (insert (Suc (brk h)) C) h h'" "heap_ok h'"
    by (rule blockchain_add_block_ok)
  have "grows (C \<union> B) h (insert (Suc (brk h)) (C \<union> B)) h'"
    using same_except_mono [OF h'(3), of "insert (Suc (brk h)) (C \<union> B)"] h'(4) heap_ok_fresh [OF ok]
    by (auto simp: grows_def)
  with h'(1,2) show ?thesis unfolding loop_result_def by auto
qed

lemma add_block_result:
  assumes st: "tx_state a C c l ts K h" and ok: "heap_ok h"
  shows "loop_result (\<lambda>b. extends_chain a c [b]) K h
    (Some (Inr (\<lparr>bv_created_at = t, bv_transactions = ts, bv_proof_of_work = w,
       bv_previous_block_hash = p\<rparr>, off)))
    (deserialize_add_block now a l t p w off h)"
proof -
  from st obtain L where L: "own_chain h a C c"
    "own_ll own_transaction TRANSACTION_DESTROY None h l L ts" "C \<inter> L = {}" "K = C \<union> L"
    unfolding tx_state_def by blast
  have l: "l \<noteq> NULL" using tx.ll_self [OF L(2)] by simp
  let ?d = "Suc (brk h)"
  let ?b = "\<lparr>bv_created_at = t, bv_transactions = ts, bv_proof_of_work = w, bv_previous_block_hash = p\<rparr>"
  show ?thesis
  proof (cases "malloc_ok h (brk h)")
    case False
    have "tx_state a C c l ts K (h\<lparr>brk := ?d\<rparr>)" by (rule tx_state_frame [OF st]) simp
    from tx_state_abandon(1) [OF this] have "deserialize_add_block now a l t p w off h =
        Some (FAILURE_COULD_NOT_MALLOC, 0, free_all K (h\<lparr>brk := ?d\<rparr>))"
      using l False by (simp add: deserialize_add_block_def block_create_def malloc_eq)
    then show ?thesis using cleaned_brk [OF ok] False by (rule loop_result_malloc)
  next
    case True
    let ?v = "\<lparr>block_created_at = t, transaction_list = l, proof_of_work = w, previous_block_hash = p\<rparr>"
    let ?h = "h\<lparr>brk := ?d, store := (store h)(?d \<mapsto> DataObj (BlockObj ?v))\<rparr>"
    have fresh: "?d \<notin> K" using tx_state_live [OF st] heap_ok_fresh [OF ok] by blast
    have g: "grows K h (insert ?d K) ?h" by (rule grows_alloc [OF ok])
    then have ok': "heap_ok ?h" by (simp add: grows_def)
    have c': "own_chain ?h a C c" using fresh L(4) by (intro own_chain_frame [OF L(1)]) auto
    have "own_ll own_transaction TRANSACTION_DESTROY None ?h l L ts"
      using fresh L(4) by (intro tx.ll_frame [OF L(2)]) auto
    then have b: "own_block ?h ?d (insert ?d L) ?b"
      using fresh L(4) by (auto simp: own_block_def own_transaction_list_def)
    have apart: "C \<inter> insert ?d L = {}" and K: "C \<union> insert ?d L = insert ?d K" using L(3,4) fresh by auto
    from loop_result_grows [OF g append_block_result [OF c' b apart ok', unfolded K]] show ?thesis
      using l True by (simp add: deserialize_add_block_def block_create_def malloc_eq out_ptr_def
          load_block_store store_obj_def cong: if_cong)
  qed
qed

lemma parse_block_header_no_success:
  "parse_block_header e buf buffer_size off = Some (Inl rc) \<Longrightarrow> rc \<noteq> SUCCESS"
  by (auto simp: parse_block_header_def parse_then_def word_parsers parse_array_def bind_Some_iff
      split: option.splits sum.splits if_splits)

text \<open>A round of the block loop once the header is read.\<close>

definition deserialize_block_body ::
  "endianness \<Rightarrow> byte list \<Rightarrow> u64 \<Rightarrow> addr \<Rightarrow> u64 \<Rightarrow> u64 \<times> sha_256_t \<times> u64 \<times> u64 \<Rightarrow> nat \<Rightarrow> heap \<Rightarrow>
   (return_code_t \<times> nat \<times> heap) option" where
  "deserialize_block_body e buf buffer_size a now = (\<lambda>(created_at, previous, pow, num_transactions) next h.
     case linked_list_create True (Some TRANSACTION_DESTROY) None h of
       (return_code, tx_list, h) \<Rightarrow>
         if return_code \<noteq> SUCCESS then abandon_chain return_code a h
         else Option.bind (deserialize_transactions_loop e buf buffer_size a (out_ptr tx_list) num_transactions 0 next h)
           (\<lambda>(return_code, next, h).
              if return_code \<noteq> SUCCESS then Some (return_code, next, h)
              else deserialize_add_block now a (out_ptr tx_list) created_at previous pow next h))"

definition deserialize_block_round ::
  "endianness \<Rightarrow> byte list \<Rightarrow> u64 \<Rightarrow> addr \<Rightarrow> u64 \<Rightarrow> nat \<Rightarrow> heap \<Rightarrow> (return_code_t \<times> nat \<times> heap) option" where
  "deserialize_block_round e buf buffer_size a now next h =
     Option.bind (parse_block_header e buf buffer_size next) (\<lambda>parsed.
       case parsed of
         Inl return_code \<Rightarrow> abandon_chain return_code a h
       | Inr (header, next) \<Rightarrow> deserialize_block_body e buf buffer_size a now header next h)"

lemma blocks_loop_unfold:
  "deserialize_blocks_loop e now buf buffer_size a n idx off h =
     (if idx < n then
        Option.bind (deserialize_block_round e buf buffer_size a (now idx) off h) (\<lambda>(rc, off, h).
          if rc \<noteq> SUCCESS then Some (rc, off, h)
          else deserialize_blocks_loop e now buf buffer_size a n (idx + 1) off h)
      else Some (SUCCESS, off, h))"
  by (subst deserialize_blocks_loop.simps)
    (auto simp: deserialize_block_round_def deserialize_block_body_def abandon_stops
      parse_block_header_no_success split: prod.split sum.split intro!: Option.bind_option_cong)

lemma block_body_result:
  assumes c: "own_chain h a K c" and ok: "heap_ok h"
  shows "loop_result (\<lambda>b. extends_chain a c [b]) K h
    (parse_then (parse_list parse_transaction (unat m) e buf buffer_size off) (\<lambda>ts off.
       Some (Inr (\<lparr>bv_created_at = t, bv_transactions = ts, bv_proof_of_work = w,
         bv_previous_block_hash = p\<rparr>, off))))
    (deserialize_block_body e buf buffer_size a now (t, p, w, m) off h)"
proof (cases "malloc_ok h (brk h)")
  case False
  have "own_chain (h\<lparr>brk := Suc (brk h)\<rparr>) a K c" by (rule own_chain_frame [OF c]) simp
  with False have "deserialize_block_body e buf buffer_size a now (t, p, w, m) off h =
      Some (FAILURE_COULD_NOT_MALLOC, 0, free_all K (h\<lparr>brk := Suc (brk h)\<rparr>))"
    by (simp add: deserialize_block_body_def create_fail abandon_chain_eq)
  then show ?thesis using cleaned_brk [OF ok] False by (rule loop_result_malloc)
next
  case True
  let ?l = "Suc (brk h)"
  let ?h = "h\<lparr>brk := ?l, store := (store h)(?l \<mapsto>
    ListObj \<lparr>free_function = TRANSACTION_DESTROY, compare_function = None, head = NULL\<rparr>)\<rparr>"
  have g: "grows K h (insert ?l K) ?h" by (rule grows_alloc [OF ok])
  then have ok': "heap_ok ?h" by (simp add: grows_def)
  have fresh: "?l \<notin> K" using own_chain_fresh [OF c ok] .
  have "own_chain ?h a K c" using fresh by (intro own_chain_frame [OF c]) auto
  moreover have "own_ll own_transaction TRANSACTION_DESTROY None ?h ?l {?l} []" by (auto simp: own_ll_def)
  ultimately have st: "tx_state a K c ?l [] (insert ?l K) ?h" by (rule tx_stateI) (use fresh in auto)
  have run: "deserialize_block_body e buf buffer_size a now (t, p, w, m) off h =
      Option.bind (deserialize_transactions_loop e buf buffer_size a ?l m 0 off ?h) (\<lambda>(rc, off, h).
        if rc \<noteq> SUCCESS then Some (rc, off, h) else deserialize_add_block now a ?l t p w off h)"
    using True by (simp add: deserialize_block_body_def linked_list_create_def malloc_eq out_ptr_def cong: if_cong)
  have "loop_result (\<lambda>ts. tx_state a K c ?l ([] @ ts)) (insert ?l K) ?h
      (parse_list parse_transaction (unat m) e buf buffer_size off)
      (deserialize_transactions_loop e buf buffer_size a ?l m 0 off ?h)"
    by (rule transactions_loop.result [OF st ok']) simp
  then show ?thesis
    unfolding run by (rule loop_result_bind [OF g]) (auto simp: grows_def intro: add_block_result)
qed

lemma block_round_result:
  assumes c: "own_chain h a K c" and ok: "heap_ok h"
  shows "loop_result (\<lambda>b. extends_chain a c [b]) K h (parse_block e buf buffer_size off)
    (deserialize_block_round e buf buffer_size a now off h)"
  unfolding deserialize_block_round_def parse_block_def
  by (rule loop_result_parse)
    (use abandon_chain_eq [OF c] cleaned_free_all [OF ok] parse_block_header_no_success
      block_body_result [OF c ok] in auto)

interpretation blocks_loop: counted_loop parse_block e buf buffer_size n
  "\<lambda>idx. deserialize_block_round e buf buffer_size a (now idx)"
  "deserialize_blocks_loop e now buf buffer_size a n"
  "extends_chain a c" for e buf buffer_size n a now c
proof
  show "loop_result (\<lambda>b. extends_chain a c (bs @ [b])) K h (parse_block e buf buffer_size off)
      (deserialize_block_round e buf buffer_size a (now idx) off h)"
    if "extends_chain a c bs K h" "heap_ok h" for bs K h off idx
    using block_round_result [OF that] by simp
qed (rule blocks_loop_unfold)

text \<open>The whole function, against the parser of chains.\<close>

definition deserialize_outcome ::
  "heap \<Rightarrow> (return_code_t + chain_v \<times> nat) option \<Rightarrow> (return_code_t \<times> addr option \<times> heap) option \<Rightarrow> bool" where
  "deserialize_outcome h r res \<longleftrightarrow>
     (\<exists>h'. res = Some (FAILURE_COULD_NOT_MALLOC, None, h') \<and> cleaned {} h h' \<and> (\<exists>n. \<not> malloc_ok h n)) \<or>
     (case r of
        None \<Rightarrow> res = None
      | Some (Inl rc) \<Rightarrow> \<exists>h'. res = Some (rc, None, h') \<and> cleaned {} h h' \<and> rc \<noteq> SUCCESS
      | Some (Inr (c, off)) \<Rightarrow> \<exists>h' a K. res = Some (SUCCESS, Some a, h') \<and> grows {} h K h' \<and> own_chain h' a K c)"

text \<open>The part after the creation of the chain.\<close>

lemma deserialize_blocks_outcome:
  assumes g: "grows {} h K h1" and c: "own_chain h1 a K \<lparr>cv_blocks = [], cv_zeros = z\<rparr>"
    and n: "parse_u64 e buf buffer_size off = Some (Inr (n, off'))"
  shows "deserialize_outcome h
    (parse_then (parse_u64 e buf buffer_size off) (\<lambda>n next.
       parse_then (parse_list parse_block (unat n) e buf buffer_size next) (\<lambda>bs next.
         Some (Inr (\<lparr>cv_blocks = bs, cv_zeros = z\<rparr>, next)))))
    (Option.bind (deserialize_blocks_loop e now buf buffer_size a n 0 off' h1)
      (\<lambda>(rc, off, h). if rc \<noteq> SUCCESS then Some (rc, None, h) else Some (SUCCESS, Some a, h)))"
proof -
  let ?c = "\<lparr>cv_blocks = [], cv_zeros = z\<rparr> :: chain_v"
  have "extends_chain a ?c [] K h1" "heap_ok h1" using c g by (simp_all add: grows_def)
  from blocks_loop.result [OF this, of 0 "unat n" n] have
    "loop_result (extends_chain a ?c) K h1 (parse_list parse_block (unat n) e buf buffer_size off')
      (deserialize_blocks_loop e now buf buffer_size a n 0 off' h1)" by simp
  from loop_result_cons [OF g this, where good = "\<lambda>c K' h'. own_chain h' a K' c"
      and f = "\<lambda>bs. \<lparr>cv_blocks = bs, cv_zeros = z\<rparr>"] n show ?thesis
    unfolding loop_result_def deserialize_outcome_def
    by (auto simp: parse_then_simps split: option.splits sum.splits)
qed

lemma deserialize_outcome_holds:
  assumes ok: "heap_ok h"
  shows "deserialize_outcome h (parse_chain e buf buffer_size 0)
    (blockchain_deserialize e now True (Some buf) buffer_size h)"
proof (cases "\<exists>z off. parse_u64 e buf buffer_size 0 = Some (Inr (z, off))")
  case False
  then show ?thesis
    using cleaned_free_all [OF ok, of "{}"]
    by (auto simp: blockchain_deserialize_def deserialize_outcome_def parse_chain_def word_parsers
        parse_then_simps bind_Some_iff split: option.splits if_splits)
next
  case True
  then obtain z off where z: "parse_u64 e buf buffer_size 0 = Some (Inr (z, off))" by blast
  show ?thesis
  proof (cases "malloc_ok h (brk h) \<and> malloc_ok h (Suc (brk h))")
    case False
    from blockchain_create_fail [OF ok False, of z] obtain h' where
      "blockchain_create True z h = Some (FAILURE_COULD_NOT_MALLOC, None, h')" "same_except {} h h'"
      "heap_ok h'" by blast
    with z False show ?thesis
      by (auto simp: blockchain_deserialize_def deserialize_outcome_def cleaned_def)
  next
    case True
    let ?a = "Suc (brk h)" and ?l = "Suc (Suc (brk h))"
    from True have m: "malloc_ok h (brk h)" "malloc_ok h (Suc (brk h))" by simp_all
    from ok m obtain h1 where h1: "blockchain_create True z h = Some (SUCCESS, Some ?a, h1)"
      "own_chain h1 ?a {?a, ?l} \<lparr>cv_blocks = [], cv_zeros = z\<rparr>" "same_except {?a, ?l} h h1" "heap_ok h1"
      by (rule blockchain_create_ok [where z = z])
    have "store h ?l = None" using ok by (rule_tac ccontr) (fastforce simp: heap_ok_def)
    then have g: "grows {} h {?a, ?l} h1"
      using h1(3,4) heap_ok_fresh [OF ok] by (simp add: grows_def)
    show ?thesis
    proof (cases "\<exists>n off'. parse_u64 e buf buffer_size off = Some (Inr (n, off'))")
      case False
      have "cleaned {} h (free_all {?a, ?l} h1)"
        by (rule grows_cleaned [OF g cleaned_free_all [OF h1(4)]])
      with False z h1(1) blockchain_destroy_eq [OF h1(2)] parse_u64_cases [of e buf buffer_size off]
      show ?thesis
        by (auto simp: blockchain_deserialize_def deserialize_outcome_def parse_chain_def parse_then_simps
            out_ptr_def)
    next
      case True
      then obtain n off' where n: "parse_u64 e buf buffer_size off = Some (Inr (n, off'))" by blast
      from deserialize_blocks_outcome [OF g h1(2) n] z h1(1) n show ?thesis
        by (simp add: blockchain_deserialize_def parse_chain_def parse_then_simps out_ptr_def cong: if_cong)
    qed
  qed
qed

lemmas deserialize_result = deserialize_outcome_holds [unfolded deserialize_outcome_def]

lemma accepted_chain_wf: "accepted_chain c \<Longrightarrow> wf_chain c"
  by (auto simp: accepted_chain_def accepted_block_def accepted_transaction_def wf_chain_def wf_block_def)

lemma wire_chain_wf: "wire_chain c \<Longrightarrow> wf_chain c"
  by (auto simp: wire_chain_def wire_block_def wire_transaction_def wf_chain_def wf_block_def)

section \<open>The shape of what is read\<close>

lemma parse_transaction_shape:
  "parse_transaction e buf sz off = Some (Inr (t, off')) \<Longrightarrow> wf_transaction t"
  by (auto simp: parse_transaction_def parse_then_Inr wf_transaction_def
      dest!: parse_array_length load_loop_length split: if_splits)

lemma parse_block_shape: "parse_block e buf sz off = Some (Inr (b, off')) \<Longrightarrow> wf_block b"
  by (auto simp: parse_block_def parse_block_header_def parse_then_Inr wf_block_def
      dest!: parse_array_length parse_list_shape [where P = wf_transaction, OF _ parse_transaction_shape])

lemma parse_chain_shape:
  assumes "parse_chain e buf sz off = Some (Inr (c, off'))"
  shows "wf_chain c \<and> length (cv_blocks c) < 2 ^ 64"
proof -
  from assms obtain n bs off1 off2 where
    bs: "parse_list parse_block (unat (n :: u64)) e buf sz off1 = Some (Inr (bs, off2))" "cv_blocks c = bs"
    by (auto simp: parse_chain_def parse_then_Inr)
  from parse_list_shape [OF bs(1), of wf_block] parse_block_shape have
    "length bs = unat n" "\<forall>b \<in> set bs. wf_block b" by blast+
  then show ?thesis using bs(2) unsigned_less [of n, where 'a = nat] by (simp add: wf_chain_def)
qed

section \<open>Round trip\<close>

lemma example_chain_wire:
  "wire_chain (example_chain [example_block])" "length (enc_chain (example_chain [example_block])) = 8856"
  by (simp_all add: wire_chain_def wire_block_def wire_transaction_def wf_transaction_def example_chain_def
      genesis_v_def example_block_def zero_transaction_def enc_chain_def enc_block_def enc_transaction_def)

lemma deserialize_enc_chain:
  assumes "wire_chain c" "length (enc_chain c) < 2 ^ 63" "heap_ok g" "\<forall>n. malloc_ok g n"
  shows "\<exists>b K g'.
    blockchain_deserialize e now True (Some (enc_chain c)) (of_nat (length (enc_chain c))) g =
      Some (SUCCESS, Some b, g') \<and>
    own_chain g' b K c \<and> same_except K g g' \<and> (\<forall>x \<in> K. store g x = None) \<and> heap_ok g'"
proof -
  let ?sz = "of_nat (length (enc_chain c)) :: u64"
  have "unat ?sz = length (enc_chain c)" using assms(2) by simp
  then have "parse_chain e (enc_chain c) ?sz 0 = Some (Inr (c, length (enc_chain c)))"
    using parse_chain_enc [OF assms(1), of "enc_chain c" 0 ?sz e] holds_at_app [of "[]" "enc_chain c" "[]"]
    by simp
  with deserialize_result [OF assms(3), of e now "enc_chain c" ?sz] assms(4) obtain g' b K where
    "blockchain_deserialize e now True (Some (enc_chain c)) ?sz g = Some (SUCCESS, Some b, g')"
    "grows {} g K g'" "own_chain g' b K c" by auto
  then show ?thesis unfolding grows_def by blast
qed

text \<open>
  C34. What one host serialises, any host deserialises: for a chain whose signature lengths
  fit their arrays and enough memory on both sides, the buffer written by
  \<open>blockchain_serialize\<close> is turned by \<open>blockchain_deserialize\<close>, on a host of
  either byte order, into a new chain with the same contents in newly allocated objects.
\<close>

theorem serialize_deserialize_roundtrip:
  assumes "own_chain h a F c" "wire_chain c" "length (enc_chain c) < 2 ^ 63" "\<forall>n. malloc_ok h n"
    and "heap_ok g" "\<forall>n. malloc_ok g n"
  shows "\<exists>buf sz h' b K g'.
    blockchain_serialize e a True True h = Some (SUCCESS, Some (buf, sz), h') \<and>
    own_chain h' a F c \<and> unat sz = length buf \<and>
    blockchain_deserialize e' now True (Some buf) sz g = Some (SUCCESS, Some b, g') \<and>
    own_chain g' b K c \<and> same_except K g g' \<and> (\<forall>x \<in> K. store g x = None)"
proof -
  let ?sz = "of_nat (length (enc_chain c)) :: u64"
  from serialize_eq [OF assms(1) wire_chain_wf [OF assms(2)] assms(3), of e] assms(4) obtain h' where
    s: "same_except {} h h'" "blockchain_serialize e a True True h = Some (SUCCESS, Some (enc_chain c, ?sz), h')"
    by auto
  have "own_chain h' a F c" by (intro own_chain_frame [OF assms(1)] same_except_store [OF s(1)]) simp
  moreover have "unat ?sz = length (enc_chain c)" using assms(3) by simp
  ultimately show ?thesis
    using s(2) deserialize_enc_chain [OF assms(2,3,5,6), of e' now] by blast
qed

theorem serialize_deserialize_roundtrip_witness:
  "\<exists>h a buf sz h' b K g'. blockchain_serialize Little a True True h = Some (SUCCESS, Some (buf, sz), h') \<and>
     blockchain_deserialize Big (\<lambda>_. 77) True (Some buf) sz empty_heap = Some (SUCCESS, Some b, g') \<and>
     own_chain g' b K (example_chain [example_block])"
proof -
  obtain h a F where h: "own_chain h a F (example_chain [example_block])" "\<forall>n. malloc_ok h n"
    using chain_representable by blast
  have "length (enc_chain (example_chain [example_block])) < 2 ^ 63" "\<forall>n. malloc_ok empty_heap n"
    by (simp_all add: example_chain_wire)
  from serialize_deserialize_roundtrip [OF h(1) example_chain_wire(1) this(1) h(2) empty_heap_simps(1)
      this(2), of Little Big "\<lambda>_. 77"]
  show ?thesis by blast
qed



section \<open>A truncated signature\<close>

lemma parse_transaction_truncated:
  assumes t: "wf_transaction t" "unat (sig_length (sender_signature t)) \<le> k" "k < 512"
    and at: "holds_at buf off (take (8216 + k) (enc_transaction t))"
    and len: "length buf = off + 8216 + k" "unat buffer_size = length buf"
  shows "parse_transaction e buf buffer_size off = None"
proof -
  have keys: "length (sender_public_key t) = 4096" "length (recipient_public_key t) = 4096"
    "length (sig_bytes (sender_signature t)) = 512" using t(1) by (simp_all add: wf_transaction_def)
  then have "take (8216 + k) (enc_transaction t) = be_bytes (tx_created_at t) @ sender_public_key t @
      recipient_public_key t @ be_bytes (amount t) @ be_bytes (sig_length (sender_signature t)) @
      take k (sig_bytes (sender_signature t))"
    by (simp add: enc_transaction_def)
  with at keys have at: "holds_at buf off (be_bytes (tx_created_at t))"
    "holds_at buf (off + 8) (sender_public_key t)" "holds_at buf (4104 + off) (recipient_public_key t)"
    "holds_at buf (8200 + off) (be_bytes (amount t))"
    "holds_at buf (8208 + off) (be_bytes (sig_length (sender_signature t)))"
    by (simp_all add: holds_at_append)
  have u64: "parse_u64 e buf buffer_size j = Some (Inr (x, j + 8))"
    if "holds_at buf j (be_bytes x)" "j + 8 \<le> unat buffer_size" for j x
    using u64_wire.parse_enc [OF _ that(1), of buffer_size e] that(2) by simp
  have arr: "parse_array 4096 e buf buffer_size j = Some (Inr (bs, j + 4096))"
    if "holds_at buf j bs" "length bs = 4096" "j + 4096 \<le> unat buffer_size" for j bs
    using parse_array_enc [OF that(2,1,3)] .
  have "load_loop buf (8216 + off) 512 = None"
    using t(3) len(1) by (subst load_loop_eq) (simp_all add: load_bytes_None)
  moreover have "\<not> too_small buffer_size (8216 + off) (unat (sig_length (sender_signature t)))"
    using t(2) len by (intro fits) simp
  ultimately show ?thesis
    using t(2,3) len sig_len_4096 [of "sig_length (sender_signature t)"] unfolding parse_transaction_def
    by (simp add: u64 [OF at(1)] arr [OF at(2) keys(1)] arr [OF at(3) keys(2)] u64 [OF at(4)] u64 [OF at(5)]
        parse_then_simps)
qed

text \<open>
  C37. Without that slack the deserialiser reads past the end of its input: only the stated
  signature length is checked against the buffer, but 512 bytes are read.  A chain with one
  block and one transaction, cut off inside the unused part of the signature array, makes it
  read outside the buffer.
\<close>

theorem deserialize_truncated_signature_overreads:
  assumes "wf_block b" "bv_transactions b = [t]"
    and "unat (sig_length (sender_signature t)) \<le> k" "k < 512"
    and "buf = take (72 + 8216 + k) (enc_chain \<lparr>cv_blocks = [b], cv_zeros = z\<rparr>)"
    and "heap_ok h" "\<forall>n. malloc_ok h n"
  shows "blockchain_deserialize e now True (Some buf) (of_nat (length buf)) h = None"
proof -
  let ?sz = "of_nat (length buf) :: u64"
  let ?hdr = "(bv_created_at b, bv_previous_block_hash b, bv_proof_of_work b, 1)"
  have t: "wf_transaction t" using assms(1,2) by (simp add: wf_block_def)
  have prev: "length (bv_previous_block_hash b) = 32" using assms(1) by (simp add: wf_block_def)
  have buf: "buf = be_bytes z @ be_bytes (1 :: u64) @ enc_block_header ?hdr @
      take (8216 + k) (enc_transaction t)"
    using prev by (simp add: assms(2,5) enc_chain_def enc_block_def)
  then have len: "length buf = 72 + 8216 + k"
    using prev assms(4) by (simp add: length_enc_transaction [OF t])
  have sz: "unat ?sz = length buf" by (rule unat_of_nat_u64) (use len assms(4) in simp)
  have "holds_at buf 0 buf" by (simp add: holds_at_def load_bytes_def)
  then have at: "holds_at buf 0 (be_bytes z)" "holds_at buf 8 (be_bytes (1 :: u64))"
    "holds_at buf 16 (enc_block_header ?hdr)" "holds_at buf 72 (take (8216 + k) (enc_transaction t))"
    using prev by (simp_all add: buf holds_at_append)
  have u64: "parse_u64 e buf ?sz j = Some (Inr (x, j + 8))" if "holds_at buf j (be_bytes x)" "j < 100" for j x
    using u64_wire.parse_enc [OF _ that(1), of ?sz e] that(2) len sz by simp
  have "parse_block_header e buf ?sz 16 = Some (Inr (?hdr, 72))"
    using parse_block_header_enc [OF _ at(3), of ?sz e] prev len sz by simp
  moreover have "parse_transaction e buf ?sz 72 = None"
    using parse_transaction_truncated [OF t assms(3,4) at(4), of ?sz e] len sz by simp
  ultimately have "parse_block e buf ?sz 16 = None"
    by (simp add: parse_block_def parse_then_simps)
  then have "parse_chain e buf ?sz 0 = None"
    using u64 [OF at(1)] u64 [OF at(2)] by (simp add: parse_chain_def parse_then_simps)
  with deserialize_result [OF assms(6), of e now buf ?sz] assms(7) show ?thesis by auto
qed

theorem deserialize_truncated_signature_overreads_witness:
  "\<exists>buf. blockchain_deserialize Little (\<lambda>_. 0) True (Some buf) (of_nat (length buf)) empty_heap = None"
proof -
  have t: "bv_transactions example_block = [zero_transaction\<lparr>sender_signature :=
      \<lparr>sig_length = 1, sig_bytes = 7 # replicate 511 0\<rparr>\<rparr>]"
    by (simp add: example_block_def)
  show ?thesis
    by (rule exI, rule deserialize_truncated_signature_overreads
        [OF example_block_ok(1) t, of 10 _ 0]) simp_all
qed

section \<open>Reading from a file\<close>

text \<open>
  A path that is not in the file system cannot be opened; \<open>read n\<close> is the number of
  bytes \<open>fread\<close> delivers of \<open>n\<close>.  The buffer is one allocation.
\<close>

definition blockchain_read_from_file ::
  "endianness \<Rightarrow> (u64 \<Rightarrow> u64) \<Rightarrow> (nat \<Rightarrow> nat) \<Rightarrow> bool \<Rightarrow> string option \<Rightarrow> files \<Rightarrow> heap \<Rightarrow>
   (return_code_t \<times> addr option \<times> heap) option" where
  "blockchain_read_from_file e now read out infile fs h =
     (case infile of
        None \<Rightarrow> Some (FAILURE_INVALID_INPUT, None, h)
      | Some path \<Rightarrow>
          if \<not> out then Some (FAILURE_INVALID_INPUT, None, h)
          else (case fs path of
              None \<Rightarrow> Some (FAILURE_FILE_IO, None, h)
            | Some contents \<Rightarrow>
                (let buffer_size = of_nat (length contents) :: u64
                 in case request h of (ok, h) \<Rightarrow>
                   if \<not> ok then Some (FAILURE_COULD_NOT_MALLOC, None, h)
                   else if read (unat buffer_size) \<noteq> unat buffer_size then Some (FAILURE_FILE_IO, None, h)
                   else blockchain_deserialize e now True
                          (Some (take (unat buffer_size) contents)) buffer_size h)))"

text \<open>
  A chain written to a file and read back, possibly on another host, is the same chain.
\<close>

lemma file_roundtrip:
  assumes "own_chain h a F c" "wire_chain c" "length (enc_chain c) < 2 ^ 63" "\<forall>n. malloc_ok h n"
    and "heap_ok g" "\<forall>n. malloc_ok g n" "\<forall>n. written n = n" "\<forall>n. read n = n"
  shows "\<exists>fs' h' b K g'.
    blockchain_write_to_file e True written a (Some path) fs h = Some (SUCCESS, fs', h') \<and>
    blockchain_read_from_file e' now read True (Some path) fs' g = Some (SUCCESS, Some b, g') \<and>
    own_chain g' b K c"
proof -
  let ?sz = "of_nat (length (enc_chain c)) :: u64"
  let ?g = "g\<lparr>brk := Suc (brk g)\<rparr>"
  from write_to_file_eq [OF assms(1) wire_chain_wf [OF assms(2)] assms(3,4,7), of e path fs] obtain h' where
    w: "blockchain_write_to_file e True written a (Some path) fs h =
      Some (SUCCESS, fs(path \<mapsto> enc_chain c), h')" by blast
  have sz: "unat ?sz = length (enc_chain c)" using assms(3) by simp
  have "heap_ok ?g" "\<forall>n. malloc_ok ?g n" using assms(5,6) by auto
  from deserialize_enc_chain [OF assms(2,3) this, of e' now] obtain g' b K where
    d: "blockchain_deserialize e' now True (Some (enc_chain c)) ?sz ?g = Some (SUCCESS, Some b, g')"
    "own_chain g' b K c" by auto
  then have "blockchain_read_from_file e' now read True (Some path) (fs(path \<mapsto> enc_chain c)) g =
      Some (SUCCESS, Some b, g')"
    using sz assms(6,8) by (simp add: blockchain_read_from_file_def request_def Let_def)
  with w d(2) show ?thesis by blast
qed

end
