(* ===== verification/Consensus_Server.thy ===== *)
theory Consensus_Server imports Requests Blockchain_Deserialize begin

text \<open>
  The consensus server (\<^verbatim>\<open>src/consensus_peer_server_thread.c\<close>): a peer sends its chain, the server
  takes it over if it is valid, longer and asks for the same number of zero bytes, and answers
  with the chain it then has.
\<close>

section \<open>The handler\<close>

text \<open>
  The critical section.  Its result is the error with which the handler ends, or whether the
  peer's chain was taken over and the serialised reply.
\<close>

definition consensus_switch ::
  "bool \<Rightarrow> addr \<Rightarrow> addr \<Rightarrow> u64 \<Rightarrow> heap \<Rightarrow> ((return_code_t + bool) \<times> heap) option" where
  "consensus_switch peer_blockchain_is_valid sync peer_blockchain peer_blockchain_length h =
     (if \<not> peer_blockchain_is_valid then Some (Inr False, h)
      else do {
        s \<leftarrow> load_sync sync h;
        our \<leftarrow> load_blockchain (sync_blockchain s) h;
        (return_code, our_length) \<leftarrow> linked_list_length (block_list our) True h;
        if return_code \<noteq> SUCCESS then Some (Inl return_code, h)
        else do {
          our_blockchain_length \<leftarrow> our_length;
          peer \<leftarrow> load_blockchain peer_blockchain h;
          if peer_blockchain_length > our_blockchain_length \<and>
             num_leading_zero_bytes our = num_leading_zero_bytes peer
          then do {
            h \<leftarrow> store_obj sync (DataObj (SyncObj
                   \<lparr>sync_blockchain = peer_blockchain, version = version s + 1\<rparr>)) h;
            (return_code, h) \<leftarrow> blockchain_destroy (sync_blockchain s) h;
            if return_code \<noteq> SUCCESS then Some (Inl return_code, h)
            else Some (Inr True, h)
          }
          else Some (Inr False, h)
        }
      })"

definition consensus_update ::
  "endianness \<Rightarrow> connection \<Rightarrow> bool \<Rightarrow> addr \<Rightarrow> addr \<Rightarrow> u64 \<Rightarrow> heap \<Rightarrow>
   ((status + bool \<times> byte list \<times> u64) \<times> heap) option" where
  "consensus_update e conn peer_blockchain_is_valid sync peer_blockchain peer_blockchain_length h =
     (if lock_result conn \<noteq> 0 then Some (Inl (Errno (lock_result conn)), h)
      else do {
        (r, h) \<leftarrow> consensus_switch peer_blockchain_is_valid sync peer_blockchain peer_blockchain_length h;
        case r of
          Inl return_code \<Rightarrow> Some (Inl (Code return_code), h)
        | Inr switched_to_peer_chain \<Rightarrow> do {
            s \<leftarrow> load_sync sync h;
            (return_code, data, h) \<leftarrow> blockchain_serialize e (sync_blockchain s) True True h;
            if return_code \<noteq> SUCCESS then Some (Inl (Code return_code), h)
            else do {
              (buf, len) \<leftarrow> data;
              if unlock_result conn \<noteq> 0 then Some (Inl (Errno (unlock_result conn)), h)
              else Some (Inr (switched_to_peer_chain, buf, len), h)
            }
          }
      })"

text \<open>The answer: the peer's chain is released if it was not taken over, and ours is sent.\<close>

definition consensus_reply ::
  "endianness \<Rightarrow> connection \<Rightarrow> bool \<Rightarrow> addr \<Rightarrow> command_send_blockchain_t \<Rightarrow> heap \<Rightarrow>
   (status \<times> byte list \<times> heap) option" where
  "consensus_reply e conn switched_to_peer_chain peer_blockchain cmd h =
     do {
       (return_code, h) \<leftarrow>
         (if switched_to_peer_chain then Some (SUCCESS, h) else blockchain_destroy peer_blockchain h);
       if return_code \<noteq> SUCCESS then Some (Code return_code, [], h)
       else do {
         (return_code, _, buffer, h) \<leftarrow> command_send_blockchain_serialize e (Some cmd) True True h;
         if return_code \<noteq> SUCCESS then Some (Code return_code, [], h)
         else do {
           (send_buf, send_buf_len) \<leftarrow> buffer;
           (return_code, sent) \<leftarrow> send_all (conn_send conn) (Some send_buf) (unat send_buf_len);
           if return_code \<noteq> SUCCESS then Some (Code FAILURE_NETWORK_FUNCTION, sent, h)
           else Some (Code SUCCESS, sent, h)
         }
       }
     }"

text \<open>
  The chain that was received is verified, compared and answered.  The result is the outcome,
  what was put on the wire, and the heap.
\<close>

definition consensus_answer ::
  "endianness \<Rightarrow> openssl \<Rightarrow> connection \<Rightarrow> addr \<Rightarrow> addr \<Rightarrow> command_send_blockchain_t \<Rightarrow> heap \<Rightarrow>
   (status \<times> byte list \<times> heap) option" where
  "consensus_answer e ssl conn sync peer_blockchain cmd h =
     do {
       (return_code, is_valid, _) \<leftarrow> blockchain_verify e ssl peer_blockchain True False h;
       if return_code \<noteq> SUCCESS then Some (Code return_code, [], h)
       else do {
         p \<leftarrow> load_blockchain peer_blockchain h;
         (return_code, len) \<leftarrow> linked_list_length (block_list p) True h;
         if return_code \<noteq> SUCCESS then Some (Code return_code, [], h)
         else do {
           peer_blockchain_length \<leftarrow> len;
           (r, h) \<leftarrow> consensus_update e conn (is_valid = Some True) sync peer_blockchain
                       peer_blockchain_length h;
           case r of
             Inl st \<Rightarrow> Some (st, [], h)
           | Inr (switched_to_peer_chain, buf, data_len) \<Rightarrow>
               consensus_reply e conn switched_to_peer_chain peer_blockchain
                 (cmd\<lparr>blockchain_data_len := data_len, blockchain_data := buf\<rparr>) h
         }
       }
     }"

definition handle_one_consensus_request ::
  "endianness \<Rightarrow> openssl \<Rightarrow> connection \<Rightarrow> addr \<Rightarrow> heap \<Rightarrow>
   (status \<times> byte list \<times> heap) option" where
  "handle_one_consensus_request e ssl conn sync h =
     do {
       (request, h) \<leftarrow> receive_request COMMAND_SEND_BLOCKCHAIN e (conn_recv conn) h;
       case request of
         Inl return_code \<Rightarrow> Some (Code return_code, [], h)
       | Inr (recv_buf, recv_size) \<Rightarrow> do {
           (return_code, cmd, h) \<leftarrow>
             command_send_blockchain_deserialize e True (Some recv_buf) recv_size h;
           if return_code \<noteq> SUCCESS then Some (Code return_code, [], h)
           else do {
             cmd \<leftarrow> cmd;
             (return_code, peer, h) \<leftarrow> blockchain_deserialize e (conn_time conn) True
               (Some (blockchain_data cmd)) (blockchain_data_len cmd) h;
             if return_code \<noteq> SUCCESS then Some (Code return_code, [], h)
             else consensus_answer e ssl conn sync (out_ptr peer) cmd h
           }
         }
     }"

text \<open>The server thread.\<close>

definition run_consensus_peer_server ::
  "endianness \<Rightarrow> openssl \<Rightarrow> bool \<Rightarrow> server_env \<Rightarrow> addr \<Rightarrow> heap \<Rightarrow> (status \<times> bool \<times> heap) option" where
  "run_consensus_peer_server e ssl print_progress env sync h =
     run_server (\<lambda>conn. handle_one_consensus_request e ssl conn sync) print_progress env h"

text \<open>
  The arguments of the thread that are not part of the environment, and its entry point for
  \<open>pthread_create\<close>.
\<close>

record run_consensus_peer_server_args_t =
  consensus_peer_server_addr :: sockaddr_in6
  consensus_sync :: addr
  consensus_print_progress :: bool

definition run_consensus_peer_server_pthread_wrapper ::
  "endianness \<Rightarrow> openssl \<Rightarrow> run_consensus_peer_server_args_t \<Rightarrow> server_env \<Rightarrow> heap \<Rightarrow> (status \<times> bool \<times> heap) option" where
  "run_consensus_peer_server_pthread_wrapper e ssl args env h =
     run_consensus_peer_server e ssl (consensus_print_progress args) env (consensus_sync args) h"

section \<open>The rule\<close>

text \<open>
  A synchronised blockchain at \<open>sync\<close> with its chain: the structure and everything the
  chain owns.
\<close>

definition own_sync :: "heap \<Rightarrow> addr \<Rightarrow> addr set \<Rightarrow> chain_v \<Rightarrow> u64 \<Rightarrow> bool" where
  "own_sync h sync F c v \<longleftrightarrow>
     (\<exists>a G. sync \<noteq> NULL \<and> sync \<notin> G \<and> F = insert sync G \<and>
        store h sync = Some (DataObj (SyncObj \<lparr>sync_blockchain = a, version = v\<rparr>)) \<and>
        own_chain h a G c)"

text \<open>The longest valid chain wins, if the difficulty is the same.\<close>

definition better :: "endianness \<Rightarrow> openssl \<Rightarrow> chain_v \<Rightarrow> chain_v \<Rightarrow> bool" where
  "better e ssl c c' \<longleftrightarrow>
     chain_ok e ssl c' \<and> length (cv_blocks c) < length (cv_blocks c') \<and> cv_zeros c' = cv_zeros c"

definition consensus_choice :: "endianness \<Rightarrow> openssl \<Rightarrow> chain_v \<times> u64 \<Rightarrow> chain_v \<Rightarrow> chain_v \<times> u64" where
  "consensus_choice e ssl s c' = (if better e ssl (fst s) c' then (c', snd s + 1) else s)"

lemma own_syncE:
  assumes "own_sync h sync F c v"
  obtains a G where "sync \<noteq> NULL" "sync \<notin> G" "F = insert sync G" "own_chain h a G c"
    "store h sync = Some (DataObj (SyncObj \<lparr>sync_blockchain = a, version = v\<rparr>))"
  using assms by (auto simp: own_sync_def)

lemma own_sync_frame:
  assumes "own_sync h sync F c v" "\<And>x. x \<in> F \<Longrightarrow> store h' x = store h x"
  shows "own_sync h' sync F c v"
  using assms(1)
proof (rule own_syncE)
  fix a G
  assume *: "sync \<noteq> NULL" "sync \<notin> G" "F = insert sync G" "own_chain h a G c"
    "store h sync = Some (DataObj (SyncObj \<lparr>sync_blockchain = a, version = v\<rparr>))"
  have "own_chain h' a G c" using *(3) assms(2) by (intro own_chain_frame [OF *(4)]) simp
  with * assms(2) show ?thesis by (auto simp: own_sync_def)
qed

lemma own_sync_live: "own_sync h sync F c v \<Longrightarrow> x \<in> F \<Longrightarrow> store h x \<noteq> None"
  by (erule own_syncE) (use own_chain_live in force)

lemma load_sync_store:
  "a \<noteq> NULL \<Longrightarrow> store h a = Some (DataObj (SyncObj s)) \<Longrightarrow> load_sync a h = Some s"
  by (simp add: load_sync_def load_data_def load_obj_def)

lemma chain_length_eq:
  assumes "own_chain h a F c"
  obtains t where "load_blockchain a h = Some t" "num_leading_zero_bytes t = cv_zeros c"
    "linked_list_length (block_list t) True h = Some (SUCCESS, Some (of_nat (length (cv_blocks c))))"
  using assms
proof (rule own_chainE)
  fix l G
  assume *: "a \<noteq> NULL" "own_ll own_block BLOCK_DESTROY None h l G (cv_blocks c)"
    "store h a = Some (DataObj (BlockchainObj \<lparr>block_list = l, num_leading_zero_bytes = cv_zeros c\<rparr>))"
  from that [OF load_blockchain_store [OF *(1,3)]] blk.length_eq [OF *(2)] show ?thesis by simp
qed

section \<open>Taking over a chain\<close>

lemma consensus_switch_eq:
  assumes own: "own_sync h sync F c v" and peer: "own_chain h p K c'" and disj: "F \<inter> K = {}"
    and size: "length (cv_blocks c) < 2 ^ 64" "length (cv_blocks c') < 2 ^ 64"
    and ok: "heap_ok h"
  shows "\<exists>h'. consensus_switch (chain_ok e ssl c') sync p (of_nat (length (cv_blocks c'))) h =
      Some (Inr (better e ssl c c'), h') \<and> heap_ok h' \<and> malloc_ok h' = malloc_ok h \<and>
      (if better e ssl c c'
       then own_sync h' sync (insert sync K) c' (v + 1) \<and> same_except F h h' \<and>
         (\<forall>x \<in> F - {sync}. store h' x = None)
       else h' = h)"
  using own
proof (rule own_syncE)
  fix a G
  let ?s = "\<lparr>sync_blockchain = a, version = v\<rparr>"
  assume *: "sync \<noteq> NULL" "sync \<notin> G" "F = insert sync G" "own_chain h a G c"
    "store h sync = Some (DataObj (SyncObj ?s))"
  obtain t where t: "load_blockchain a h = Some t" "num_leading_zero_bytes t = cv_zeros c"
    "linked_list_length (block_list t) True h = Some (SUCCESS, Some (of_nat (length (cv_blocks c))))"
    using chain_length_eq [OF *(4)] by blast
  obtain t' where t': "load_blockchain p h = Some t'" "num_leading_zero_bytes t' = cv_zeros c'"
    using chain_length_eq [OF peer] by blast
  have less: "(of_nat (length (cv_blocks c)) :: u64) < of_nat (length (cv_blocks c')) \<longleftrightarrow>
      length (cv_blocks c) < length (cv_blocks c')"
    using size by (simp add: word_less_nat_alt)
  note unfolded = consensus_switch_def load_sync_store [OF *(1,5)] t t' less better_def
  show ?thesis
  proof (cases "better e ssl c c'")
    case False
    then show ?thesis using ok by (auto simp: unfolded)
  next
    case True
    define h1 where "h1 = h\<lparr>store := (store h)(sync \<mapsto> DataObj (SyncObj \<lparr>sync_blockchain = p, version = v + 1\<rparr>))\<rparr>"
    have "own_chain h1 a G c" using *(2) by (intro own_chain_frame [OF *(4)]) (auto simp: h1_def)
    then have "blockchain_destroy a h1 = Some (SUCCESS, free_all G h1)" by (rule blockchain_destroy_eq)
    moreover have "store_obj sync (DataObj (SyncObj \<lparr>sync_blockchain = p, version = v + 1\<rparr>)) h = Some h1"
      using *(1,5) by (simp add: store_obj_def h1_def)
    ultimately have "consensus_switch (chain_ok e ssl c') sync p (of_nat (length (cv_blocks c'))) h =
        Some (Inr True, free_all G h1)"
      using True by (simp add: unfolded)
    moreover have "x \<notin> G \<and> x \<noteq> sync" if "x \<in> K" for x using disj *(3) that by auto
    then have "own_chain (free_all G h1) p K c'"
      by (intro own_chain_frame [OF peer]) (simp add: h1_def)
    then have "own_sync (free_all G h1) sync (insert sync K) c' (v + 1)"
      using disj *(1-3) by (auto simp: own_sync_def h1_def)
    moreover have "heap_ok (free_all G h1)"
      using heap_ok_update [OF ok *(5)] by (auto simp: h1_def)
    moreover have "same_except F h (free_all G h1)"
      using *(3) by (auto simp: same_except_def h1_def)
    ultimately show ?thesis using True *(2,3) by (auto simp: h1_def)
  qed
qed

section \<open>Any request\<close>

lemma own_sync_leaves:
  assumes "own_sync h sync F c v" "leaves {} h h'"
  shows "own_sync h' sync F c v"
  using own_sync_live [OF assms(1)] assms(2) by (intro own_sync_frame [OF assms(1)]) (simp add: leaves_def)

lemma consensus_reply_leaves:
  assumes "consensus_reply e conn switched p cmd h = Some (st, sent, h')" "heap_ok h"
    "switched \<or> own_chain h p K c'"
  shows "leaves K h h'"
proof -
  from assms(1) obtain rc h1 where h1:
    "(if switched then Some (SUCCESS, h) else blockchain_destroy p h) = Some (rc, h1)"
    "same_except {} h1 h'"
    by (auto simp: consensus_reply_def dest!: send_blockchain_serialize_frame
        split: Option.bind_split_asm if_split_asm prod.split_asm)
  have "leaves K h h1"
  proof (cases switched)
    case True
    with h1(1) assms(2) show ?thesis by (simp add: leaves_def)
  next
    case False
    with assms(3) blockchain_destroy_eq [of h p K c'] h1(1) have "h1 = free_all K h" by simp
    with assms(2) show ?thesis by (auto simp: leaves_def)
  qed
  moreover from this h1(2) have "leaves K h1 h'" by (intro leaves_same) (simp_all add: leaves_def)
  ultimately show ?thesis by (rule leaves_trans)
qed

lemma consensus_update_result:
  assumes run: "consensus_update e conn (chain_ok e ssl c') sync p (of_nat (length (cv_blocks c'))) h = Some (r, h')"
    and own: "own_sync h sync F c v" and peer: "own_chain h p K c'" and disj: "F \<inter> K = {}"
    and size: "length (cv_blocks c) < 2 ^ 64" "length (cv_blocks c') < 2 ^ 64" and ok: "heap_ok h"
  shows "(own_sync h' sync F c v \<and> own_chain h' p K c' \<and> leaves {} h h' \<and> (\<forall>x. r = Inr x \<longrightarrow> \<not> fst x)) \<or>
    (better e ssl c c' \<and> own_sync h' sync (insert sync K) c' (v + 1) \<and> leaves F h h' \<and>
      (\<forall>x. r = Inr x \<longrightarrow> fst x))"
proof (cases "lock_result conn = 0")
  case False
  with run have "h' = h" "\<forall>x. r \<noteq> Inr x" by (auto simp: consensus_update_def)
  with own peer ok show ?thesis by (auto simp: leaves_def)
next
  case True
  from consensus_switch_eq [OF own peer disj size ok, of e ssl] obtain h1 where
    h1: "consensus_switch (chain_ok e ssl c') sync p (of_nat (length (cv_blocks c'))) h =
      Some (Inr (better e ssl c c'), h1)" "heap_ok h1"
    "if better e ssl c c' then own_sync h1 sync (insert sync K) c' (v + 1) \<and> same_except F h h1 else h1 = h"
    by (auto split: if_splits)
  with run True have h': "same_except {} h1 h'" "\<forall>x. r = Inr x \<longrightarrow> fst x = better e ssl c c'"
    by (auto simp: consensus_update_def dest!: serialize_frame
        split: Option.bind_split_asm if_split_asm prod.split_asm)
  then have h1': "leaves {} h1 h'" using h1(2) by (intro leaves_same)
  show ?thesis
  proof (cases "better e ssl c c'")
    case True
    with h1 have "leaves F h h1" by (auto simp: leaves_def same_except_def)
    moreover have "leaves F h1 h'" using h1' by (auto simp: leaves_def)
    ultimately have "leaves F h h'" by (rule leaves_trans)
    with True h1(3) h'(2) own_sync_leaves [OF _ h1'] show ?thesis by auto
  next
    case False
    with h1(3) h1' have "leaves {} h h'" by simp
    moreover have "own_chain h' p K c'"
      using own_chain_live [OF peer] \<open>leaves {} h h'\<close>
      by (intro own_chain_frame [OF peer]) (auto simp: leaves_def)
    ultimately show ?thesis using False h'(2) own_sync_leaves [OF own] by auto
  qed
qed

lemma consensus_answer_leaves:
  assumes run: "consensus_answer e ssl conn sync p cmd h = Some (st, sent, h')"
    and own: "own_sync h sync F c v" and peer: "own_chain h p K c'" and disj: "F \<inter> K = {}"
    and size: "length (cv_blocks c) < 2 ^ 64" "length (cv_blocks c') < 2 ^ 64"
    and ok: "heap_ok h" "wf_chain c'" "digest_ok ssl"
  shows "own_sync h' sync F c v \<and> leaves K h h' \<or>
    better e ssl c c' \<and> own_sync h' sync (insert sync K) c' (v + 1) \<and> leaves F h h'"
proof (cases "\<exists>valid x. blockchain_verify e ssl p True False h = Some (SUCCESS, valid, x)")
  case False
  with run have "h' = h"
    by (auto simp: consensus_answer_def split: Option.bind_split_asm if_split_asm)
  with own ok(1) show ?thesis by (simp add: leaves_def)
next
  case True
  then obtain valid x where v: "blockchain_verify e ssl p True False h = Some (SUCCESS, valid, x)" by blast
  then have valid: "valid = Some True \<longleftrightarrow> chain_ok e ssl c'"
    using verify_valid_iff [OF peer ok(2,3), of e False] by auto
  obtain t where t: "load_blockchain p h = Some t"
    "linked_list_length (block_list t) True h = Some (SUCCESS, Some (of_nat (length (cv_blocks c'))))"
    using chain_length_eq [OF peer] by blast
  from run v t obtain r h1 where r:
    "consensus_update e conn (chain_ok e ssl c') sync p (of_nat (length (cv_blocks c'))) h = Some (r, h1)"
    "(\<exists>st. r = Inl st \<and> h' = h1) \<or> (\<exists>switched buf len. r = Inr (switched, buf, len) \<and>
       consensus_reply e conn switched p (cmd\<lparr>blockchain_data_len := len, blockchain_data := buf\<rparr>) h1 =
         Some (st, sent, h'))"
    by (auto simp: consensus_answer_def valid split: Option.bind_split_asm sum.split_asm prod.split_asm)
  from consensus_update_result [OF r(1) own peer disj size ok(1)] show ?thesis
  proof (elim disjE conjE)
    assume h1: "own_sync h1 sync F c v" "own_chain h1 p K c'" "leaves {} h h1" "\<forall>x. r = Inr x \<longrightarrow> \<not> fst x"
    have "leaves K h1 h'"
      using r(2) h1 consensus_reply_leaves [of e conn False p _ h1 st sent h' K c'] by (auto simp: leaves_def)
    moreover have "own_sync h' sync F c v"
      using own_sync_live [OF h1(1)] disj \<open>leaves K h1 h'\<close>
      by (intro own_sync_frame [OF h1(1)]) (auto simp: leaves_def)
    moreover have "leaves K h h1" using h1(3) by (auto simp: leaves_def)
    ultimately show ?thesis by (blast intro: leaves_trans)
  next
    assume h1: "better e ssl c c'" "own_sync h1 sync (insert sync K) c' (v + 1)" "leaves F h h1"
      "\<forall>x. r = Inr x \<longrightarrow> fst x"
    have "leaves {} h1 h'"
      using r(2) h1 consensus_reply_leaves [of e conn True p _ h1 st sent h' "{}"] by (auto simp: leaves_def)
    moreover from this have "leaves F h1 h'" by (auto simp: leaves_def)
    ultimately show ?thesis using h1(1,3) own_sync_leaves [OF h1(2)] by (blast intro: leaves_trans)
  qed
qed

lemma consensus_request_parts:
  assumes run: "handle_one_consensus_request e ssl conn sync h = Some (st, sent, h')"
  shows "same_except {} h h' \<or> (\<exists>cmd rc peer h1 h2. same_except {} h h1 \<and>
      blockchain_deserialize e (conn_time conn) True (Some (blockchain_data cmd)) (blockchain_data_len cmd) h1 = Some (rc, peer, h2) \<and>
      (if rc \<noteq> SUCCESS then h' = h2 else consensus_answer e ssl conn sync (out_ptr peer) cmd h2 = Some (st, sent, h')))"
proof -
  from run obtain req h0 where req: "receive_request COMMAND_SEND_BLOCKCHAIN e (conn_recv conn) h = Some (req, h0)"
    by (auto simp: handle_one_consensus_request_def split: Option.bind_split_asm)
  have h0: "same_except {} h h0" by (rule receive_request_frame [OF req])
  show ?thesis
  proof (cases req)
    case (Inl rc)
    with run req h0 show ?thesis by (simp add: handle_one_consensus_request_def)
  next
    case (Inr b)
    obtain buf sz where b: "b = (buf, sz)" by force
    with run req Inr obtain rc cmd h1 where
      c: "command_send_blockchain_deserialize e True (Some buf) sz h0 = Some (rc, cmd, h1)"
      by (auto simp: handle_one_consensus_request_def split: Option.bind_split_asm)
    have h1: "same_except {} h h1"
      using h0 send_blockchain_deserialize_frame [OF c] by (rule same_except_empty_trans)
    show ?thesis
    proof (cases "rc = SUCCESS")
      case False
      with run req Inr b c h1 show ?thesis by (simp add: handle_one_consensus_request_def)
    next
      case True
      with run req Inr b c obtain cmd' rc' peer h2 where "cmd = Some cmd'"
        "blockchain_deserialize e (conn_time conn) True (Some (blockchain_data cmd')) (blockchain_data_len cmd') h1 =
          Some (rc', peer, h2)"
        by (auto simp: handle_one_consensus_request_def split: Option.bind_split_asm)
      with run req Inr b c h1 True show ?thesis
        by (intro disjI2 exI [of _ cmd'] exI [of _ rc'] exI [of _ peer] exI [of _ h1] exI [of _ h2])
          (simp add: handle_one_consensus_request_def split: if_split_asm)
    qed
  qed
qed

text \<open>What a request leaves of the shared chain: it is as it was, or a better one took its place.\<close>

definition kept_or_better ::
  "endianness \<Rightarrow> openssl \<Rightarrow> addr \<Rightarrow> addr set \<Rightarrow> chain_v \<Rightarrow> u64 \<Rightarrow> heap \<Rightarrow> heap \<Rightarrow> bool" where
  "kept_or_better e ssl sync F c v h h' \<longleftrightarrow>
     own_sync h' sync F c v \<and> leaves {} h h' \<or>
     (\<exists>c' K. better e ssl c c' \<and> wf_chain c' \<and> length (cv_blocks c') < 2 ^ 64 \<and>
        own_sync h' sync (insert sync K) c' (v + 1) \<and> leaves F h h' \<and> (\<forall>x \<in> K. store h x = None))"

lemma consensus_answer_kept_or_better:
  assumes own: "own_sync h sync F c v" and size: "length (cv_blocks c) < 2 ^ 64" and ssl: "digest_ok ssl"
    and h2: "same_except K h h2" "heap_ok h2" and K: "\<forall>x \<in> K. store h x = None"
    and c': "own_chain h2 p K c'" "wf_chain c'" "length (cv_blocks c') < 2 ^ 64"
    and run: "consensus_answer e ssl conn sync p cmd h2 = Some (st, sent, h')"
  shows "kept_or_better e ssl sync F c v h h'"
proof -
  have lv: "leaves {} h h2" using h2 K unfolding leaves_def same_except_def by (metis option.distinct(1))
  have "F \<inter> K = {}" using own_sync_live [OF own] K by blast
  then have "own_sync h' sync F c v \<and> leaves K h2 h' \<or>
      better e ssl c c' \<and> own_sync h' sync (insert sync K) c' (v + 1) \<and> leaves F h2 h'"
    using own_sync_leaves [OF own lv] c' size h2(2) ssl run by (intro consensus_answer_leaves)
  then show ?thesis
  proof (elim disjE conjE)
    assume h': "own_sync h' sync F c v" "leaves K h2 h'"
    have "leaves {} h h'" using lv h'(2) K unfolding leaves_def by (metis empty_iff order_trans)
    with h'(1) show ?thesis by (simp add: kept_or_better_def)
  next
    assume h': "better e ssl c c'" "own_sync h' sync (insert sync K) c' (v + 1)" "leaves F h2 h'"
    have "leaves F h h2" using lv by (auto simp: leaves_def)
    with h' K c'(2,3) show ?thesis unfolding kept_or_better_def by (blast intro: leaves_trans)
  qed
qed

lemma consensus_request_kept_or_better:
  assumes run: "handle_one_consensus_request e ssl conn sync h = Some (st, sent, h')"
    and own: "own_sync h sync F c v" and size: "length (cv_blocks c) < 2 ^ 64"
    and ok: "heap_ok h" "digest_ok ssl"
  shows "kept_or_better e ssl sync F c v h h'"
proof -
  have quiet: ?thesis if "same_except {} h h'"
    using leaves_same [OF ok(1) that] own_sync_leaves [OF own] unfolding kept_or_better_def by blast
  from consensus_request_parts [OF run] consider (early) "same_except {} h h'"
    | (read) cmd rc peer h1 h2 where "same_except {} h h1"
      "blockchain_deserialize e (conn_time conn) True (Some (blockchain_data cmd)) (blockchain_data_len cmd) h1 = Some (rc, peer, h2)"
      "if rc \<noteq> SUCCESS then h' = h2 else consensus_answer e ssl conn sync (out_ptr peer) cmd h2 = Some (st, sent, h')"
    by blast
  then show ?thesis
  proof cases
    case early
    then show ?thesis by (rule quiet)
  next
    case read
    have h1: "heap_ok h1" using heap_ok_same [OF ok(1) read(1)] .
    note parsed = deserialize_result [OF h1, of e "conn_time conn" "blockchain_data cmd" "blockchain_data_len cmd"]
    show ?thesis
    proof (cases "rc = SUCCESS")
      case False
      with parsed read(2,3) have "cleaned {} h1 h'" by (auto split: option.splits sum.splits)
      then have "same_except {} h1 h'" by (simp add: cleaned_def)
      then show ?thesis using read(1) by (intro quiet) (rule same_except_empty_trans)
    next
      case True
      with parsed read(2)
      obtain c' off p K where c': "parse_chain e (blockchain_data cmd) (blockchain_data_len cmd) 0 = Some (Inr (c', off))"
        "peer = Some p" "grows {} h1 K h2" "own_chain h2 p K c'"
        by (auto split: option.splits sum.splits)
      have K: "\<forall>x \<in> K. store h x = None" "same_except K h h2" "heap_ok h2"
        using c'(3) read(1) by (auto simp: grows_def same_except_def)
      have shape: "wf_chain c'" "length (cv_blocks c') < 2 ^ 64" using parse_chain_shape [OF c'(1)] by simp_all
      have "consensus_answer e ssl conn sync p cmd h2 = Some (st, sent, h')"
        using read(3) True c'(2) by (simp add: out_ptr_def)
      from consensus_answer_kept_or_better [OF own size ok(2) K(2,3,1) c'(4) shape this] show ?thesis .
    qed
  qed
qed

lemmas consensus_request_leaves = consensus_request_kept_or_better [unfolded kept_or_better_def]

section \<open>A well-formed request\<close>

text \<open>Verification comes to a verdict: OpenSSL reports no failure and no bound is exceeded.\<close>

definition verifiable :: "endianness \<Rightarrow> openssl \<Rightarrow> chain_v \<Rightarrow> bool" where
  "verifiable e ssl c \<longleftrightarrow> (\<exists>r b. chain_check e ssl c = Some (r, b) \<and> (\<forall>rc. r \<noteq> Abort rc))"

lemma verify_verifiable:
  assumes "own_chain h a F c" "wf_chain c" "digest_ok ssl" "verifiable e ssl c"
  shows "\<exists>v x. blockchain_verify e ssl a True f h = Some (SUCCESS, v, x) \<and> (v = Some True \<longleftrightarrow> chain_ok e ssl c)"
proof -
  from assms(4) obtain r b where r: "chain_check e ssl c = Some (r, b)" "\<forall>rc. r \<noteq> Abort rc"
    by (auto simp: verifiable_def)
  with verify_eq [OF assms(1-3), of f e] obtain d where
    "blockchain_verify e ssl a True f h = Some (verdict_of f r d)" by (auto simp: verify_result_def)
  moreover from r(2) have "\<exists>v x. verdict_of f r d = (SUCCESS, v, x)"
    by (cases r) (auto simp: invalid_at_def)
  ultimately show ?thesis using verify_valid_iff [OF assms(1-3), of e f] by auto
qed

text \<open>A connection on which a peer sends the chain \<open>c\<close> under the header \<open>hdr\<close>.\<close>

definition sends_chain :: "connection \<Rightarrow> command_header_t \<Rightarrow> chain_v \<Rightarrow> bool" where
  "sends_chain conn hdr c \<longleftrightarrow>
     wf_header hdr \<and> command hdr = command_code COMMAND_SEND_BLOCKCHAIN \<and>
     command_len hdr = 8 + of_nat (length (enc_chain c)) \<and>
     arrives (conn_recv conn 0) (enc_command_header hdr) \<and>
     arrives (conn_recv conn 1) (be_bytes (of_nat (length (enc_chain c)) :: u64) @ enc_chain c)"

lemma receive_chain:
  assumes "sends_chain conn hdr c" "length (enc_chain c) + 24 < 2 ^ 63" "\<forall>n. malloc_ok h n"
  obtains buf sz h1 where
    "receive_request COMMAND_SEND_BLOCKCHAIN e (conn_recv conn) h = Some (Inr (buf, sz), h1)"
    "command_send_blockchain_deserialize e True (Some buf) sz h1 = Some (SUCCESS,
       Some \<lparr>blockchain_header = hdr, blockchain_data_len = of_nat (length (enc_chain c)),
             blockchain_data = enc_chain c\<rparr>, h1\<lparr>brk := Suc (brk h1)\<rparr>)"
    "same_except {} h h1"
proof -
  let ?len = "of_nat (length (enc_chain c)) :: u64"
  let ?buf = "enc_command_header hdr @ be_bytes ?len @ enc_chain c"
  let ?h = "h\<lparr>brk := Suc (Suc (brk h))\<rparr>"
  have hdr: "wf_header hdr" "command hdr = command_code COMMAND_SEND_BLOCKCHAIN" "command_len hdr = 8 + ?len"
    "arrives (conn_recv conn 0) (enc_command_header hdr)"
    "arrives (conn_recv conn 1) (be_bytes ?len @ enc_chain c)"
    using assms(1) by (simp_all add: sends_chain_def)
  have size: "unat ?len = length (enc_chain c)" "unat (24 + ?len) = 24 + length (enc_chain c)"
    "unat (8 + ?len) = 8 + length (enc_chain c)"
    using assms(2) by (simp_all add: unat_word_ariths)
  have wf: "wf_send_data COMMAND_SEND_BLOCKCHAIN hdr ?len (enc_chain c)"
    using hdr(1,2) size(1) by (simp add: wf_send_data_def)
  have "receive_request COMMAND_SEND_BLOCKCHAIN e (conn_recv conn) h = Some (Inr (?buf, 16 + command_len hdr), ?h)"
    using assms(2,3) hdr size(3) by (intro receive_request_ok) simp_all
  moreover have "holds_at ?buf 0 (enc_send_data hdr ?len (enc_chain c))"
    using holds_at_app [of "[]" ?buf "[]"] by (simp add: enc_send_data_def)
  then have "send_data_deserialize COMMAND_SEND_BLOCKCHAIN e ?buf (24 + ?len) ?h =
      Some (SUCCESS, Some (hdr, ?len, enc_chain c), ?h\<lparr>brk := Suc (brk ?h)\<rparr>)"
    using wf assms(2,3) size(2) by (intro send_data_deserialize_eq) simp_all
  ultimately show ?thesis
    using hdr(3) by (intro that [of ?buf "24 + ?len" ?h])
      (simp_all add: command_send_blockchain_deserialize_def same_except_def)
qed

lemma consensus_reply_ok:
  assumes "switched \<or> own_chain h p K c'" "conn_ok conn" "\<forall>n. malloc_ok h n"
    "wf_header hdr" "command hdr = command_code COMMAND_SEND_BLOCKCHAIN" "length data + 24 < 2 ^ 63"
  shows "\<exists>h'. consensus_reply e conn switched p
      \<lparr>blockchain_header = hdr, blockchain_data_len = of_nat (length data), blockchain_data = data\<rparr> h =
    Some (Code SUCCESS, enc_send_data (hdr\<lparr>command_len := 8 + of_nat (length data)\<rparr>) (of_nat (length data)) data, h') \<and>
    same_except {} (if switched then h else free_all K h) h'"
proof -
  let ?len = "of_nat (length data) :: u64"
  let ?h = "if switched then h else free_all K h"
  let ?enc = "enc_send_data (hdr\<lparr>command_len := 8 + ?len\<rparr>) ?len data"
  have "(if switched then Some (SUCCESS, h) else blockchain_destroy p h) = Some (SUCCESS, ?h)"
    using assms(1) blockchain_destroy_eq by auto
  moreover have wf: "wf_send_data COMMAND_SEND_BLOCKCHAIN hdr ?len data"
    using assms(4-6) by (simp add: wf_send_data_def)
  then have "wf_send_data COMMAND_SEND_BLOCKCHAIN (hdr\<lparr>command_len := 8 + ?len\<rparr>) ?len data"
    by (simp add: wf_send_data_def wf_header_def)
  then have "unat (24 + ?len) = length ?enc"
    using assms(6) length_enc_send_data by (subst unat_24_plus) fastforce+
  then have "send_all (conn_send conn) (Some ?enc) (unat (24 + ?len)) = Some (SUCCESS, ?enc)"
    using send_all_ok [of "conn_send conn" ?enc] assms(2) by (simp add: conn_ok_def)
  moreover have "send_data_serialize COMMAND_SEND_BLOCKCHAIN e hdr ?len data ?h =
      Some (SUCCESS, hdr\<lparr>command_len := 8 + ?len\<rparr>, Some (?enc, 24 + ?len), ?h\<lparr>brk := Suc (Suc (Suc (brk ?h)))\<rparr>)"
    using wf assms(3,6) by (intro send_data_serialize_eq) simp_all
  ultimately show ?thesis
    by (auto simp: consensus_reply_def command_send_blockchain_serialize_def same_except_def)
qed

text \<open>Comparing and serialising, after which the chain \<open>w\<close> is the shared one.\<close>

lemma consensus_update_ok:
  assumes own: "own_sync h sync F c v" and peer: "own_chain h p K c'" and disj: "F \<inter> K = {}"
    and size: "length (cv_blocks c) < 2 ^ 64" "length (cv_blocks c') < 2 ^ 64"
    and env: "heap_ok h" "conn_ok conn" "\<forall>n. malloc_ok h n"
    and w_def: "w = (if better e ssl c c' then c' else c)" and w: "wf_chain w" "length (enc_chain w) + 24 < 2 ^ 63"
  shows "\<exists>h'. consensus_update e conn (chain_ok e ssl c') sync p (of_nat (length (cv_blocks c'))) h =
      Some (Inr (better e ssl c c', enc_chain w, of_nat (length (enc_chain w))), h') \<and>
    (\<forall>n. malloc_ok h' n) \<and>
    (if better e ssl c c'
     then own_sync h' sync (insert sync K) c' (v + 1) \<and> same_except F h h' \<and> (\<forall>x \<in> F - {sync}. store h' x = None)
     else same_except {} h h')"
proof -
  from consensus_switch_eq [OF own peer disj size env(1), of e ssl] obtain h1 where
    h1: "consensus_switch (chain_ok e ssl c') sync p (of_nat (length (cv_blocks c'))) h =
      Some (Inr (better e ssl c c'), h1)" "heap_ok h1" "malloc_ok h1 = malloc_ok h"
    "if better e ssl c c'
     then own_sync h1 sync (insert sync K) c' (v + 1) \<and> same_except F h h1 \<and> (\<forall>x \<in> F - {sync}. store h1 x = None)
     else h1 = h" by blast
  have "own_sync h1 sync (if better e ssl c c' then insert sync K else F) w (if better e ssl c c' then v + 1 else v)"
    using h1(4) own by (auto simp: w_def)
  then obtain s A where s: "load_sync sync h1 = Some s" "own_chain h1 (sync_blockchain s) A w"
    by (rule own_syncE) (use load_sync_store in fastforce)
  from serialize_eq [OF s(2) w(1), of e] w(2) env(3) h1(3) obtain h2 where
    h2: "same_except {} h1 h2" "blockchain_serialize e (sync_blockchain s) True True h1 =
      Some (SUCCESS, Some (enc_chain w, of_nat (length (enc_chain w))), h2)" by auto
  then have "consensus_update e conn (chain_ok e ssl c') sync p (of_nat (length (cv_blocks c'))) h =
      Some (Inr (better e ssl c c', enc_chain w, of_nat (length (enc_chain w))), h2)"
    using h1(1) s(1) env(2) by (simp add: consensus_update_def conn_ok_def)
  moreover have "\<forall>n. malloc_ok h2 n" using h2(1) h1(3) env(3) by (simp add: same_except_def)
  moreover have "if better e ssl c c'
     then own_sync h2 sync (insert sync K) c' (v + 1) \<and> same_except F h h2 \<and> (\<forall>x \<in> F - {sync}. store h2 x = None)
     else same_except {} h h2"
    using h1(4) h2(1) own_sync_frame [of h1 sync "insert sync K" c' "v + 1" h2]
      same_except_trans [of F h h1 "{}" h2] same_except_store [of "{}" h1 h2]
    by (cases "better e ssl c c'") simp_all
  ultimately show ?thesis by blast
qed

text \<open>The answer to a chain that has been read into the objects \<open>K\<close>.\<close>

lemma consensus_answer_ok:
  assumes own: "own_sync h sync F c v" and peer: "own_chain h p K c'" and disj: "F \<inter> K = {}"
    and c: "wf_chain c" "length (enc_chain c) + 24 < 2 ^ 63" "length (cv_blocks c) < 2 ^ 64"
    and c': "wf_chain c'" "length (enc_chain c') + 24 < 2 ^ 63" "length (cv_blocks c') < 2 ^ 64" "verifiable e ssl c'"
    and env: "heap_ok h" "digest_ok ssl" "conn_ok conn" "\<forall>n. malloc_ok h n"
    and hdr: "wf_header hdr" "command hdr = command_code COMMAND_SEND_BLOCKCHAIN"
  defines "w \<equiv> if better e ssl c c' then c' else c"
  shows "\<exists>h'. consensus_answer e ssl conn sync p
      \<lparr>blockchain_header = hdr, blockchain_data_len = len, blockchain_data = data\<rparr> h =
      Some (Code SUCCESS, enc_send_data (hdr\<lparr>command_len := 8 + of_nat (length (enc_chain w))\<rparr>)
        (of_nat (length (enc_chain w))) (enc_chain w), h') \<and>
    (if better e ssl c c'
     then own_sync h' sync (insert sync K) c' (v + 1) \<and> same_except F h h' \<and> (\<forall>x \<in> F - {sync}. store h' x = None)
     else own_sync h' sync F c v \<and> same_except {} (free_all K h) h')"
proof -
  from verify_verifiable [OF peer c'(1) env(2) c'(4), of False] obtain valid x where
    v: "blockchain_verify e ssl p True False h = Some (SUCCESS, valid, x)" "valid = Some True \<longleftrightarrow> chain_ok e ssl c'"
    by blast
  obtain t where t: "load_blockchain p h = Some t"
    "linked_list_length (block_list t) True h = Some (SUCCESS, Some (of_nat (length (cv_blocks c'))))"
    using chain_length_eq [OF peer] by blast
  have w: "wf_chain w" "length (enc_chain w) + 24 < 2 ^ 63" using c c' by (simp_all add: w_def)
  from consensus_update_ok [OF own peer disj c(3) c'(3) env(1,3,4) w_def [THEN meta_eq_to_obj_eq] w] obtain h2 where
    u: "consensus_update e conn (chain_ok e ssl c') sync p (of_nat (length (cv_blocks c'))) h =
      Some (Inr (better e ssl c c', enc_chain w, of_nat (length (enc_chain w))), h2)" "\<forall>n. malloc_ok h2 n"
    "if better e ssl c c'
     then own_sync h2 sync (insert sync K) c' (v + 1) \<and> same_except F h h2 \<and> (\<forall>x \<in> F - {sync}. store h2 x = None)
     else same_except {} h h2" by blast
  have "better e ssl c c' \<or> own_chain h2 p K c'"
    using u(3) own_chain_frame [OF peer, of h2] same_except_store [of "{}" h h2] by (auto split: if_splits)
  with u(2) obtain h' where h':
    "consensus_reply e conn (better e ssl c c') p
      \<lparr>blockchain_header = hdr, blockchain_data_len = of_nat (length (enc_chain w)), blockchain_data = enc_chain w\<rparr> h2 =
    Some (Code SUCCESS, enc_send_data (hdr\<lparr>command_len := 8 + of_nat (length (enc_chain w))\<rparr>)
      (of_nat (length (enc_chain w))) (enc_chain w), h')"
    "same_except {} (if better e ssl c c' then h2 else free_all K h2) h'"
    using consensus_reply_ok [OF _ env(3) _ hdr w(2)] by metis
  have "if better e ssl c c'
     then own_sync h' sync (insert sync K) c' (v + 1) \<and> same_except F h h' \<and> (\<forall>x \<in> F - {sync}. store h' x = None)
     else own_sync h' sync F c v \<and> same_except {} (free_all K h) h'"
  proof (cases "better e ssl c c'")
    case True
    with u(3) h'(2) show ?thesis
      using own_sync_frame [of h2 sync "insert sync K" c' "v + 1" h'] same_except_trans [of F h h2 "{}" h']
        same_except_store [of "{}" h2 h'] by simp
  next
    case False
    then have "same_except {} (free_all K h) h'"
      using u(3) h'(2) same_except_free_all_mono [of h h2 K] by (simp add: same_except_empty_trans)
    moreover have "x \<notin> K" if "x \<in> F" for x using disj that by blast
    ultimately show ?thesis
      using False own_sync_frame [OF own, of h'] same_except_store [of "{}" "free_all K h" h'] by simp
  qed
  with v t u(1) h'(1) show ?thesis by (auto simp: consensus_answer_def)
qed

lemma consensus_request_ok:
  assumes own: "own_sync h sync F c v" and c: "wf_chain c" "length (enc_chain c) + 24 < 2 ^ 63"
    and req: "sends_chain conn hdr c'" "wire_chain c'" "length (enc_chain c') + 24 < 2 ^ 63" "verifiable e ssl c'"
    and env: "heap_ok h" "digest_ok ssl" "conn_ok conn" "\<forall>n. malloc_ok h n"
  defines "w \<equiv> if better e ssl c c' then c' else c"
  shows "\<exists>h' K. handle_one_consensus_request e ssl conn sync h =
      Some (Code SUCCESS, enc_send_data (hdr\<lparr>command_len := 8 + of_nat (length (enc_chain w))\<rparr>)
        (of_nat (length (enc_chain w))) (enc_chain w), h') \<and> (\<forall>x \<in> K. store h x = None) \<and>
    (if better e ssl c c'
     then own_sync h' sync (insert sync K) c' (v + 1) \<and> same_except (F \<union> K) h h' \<and>
       (\<forall>x \<in> F - {sync}. store h' x = None)
     else own_sync h' sync F c v \<and> same_except {} h h')"
proof -
  let ?len = "of_nat (length (enc_chain c')) :: u64"
  let ?cmd = "\<lparr>blockchain_header = hdr, blockchain_data_len = ?len, blockchain_data = enc_chain c'\<rparr>"
  obtain buf sz h1 where h1: "receive_request COMMAND_SEND_BLOCKCHAIN e (conn_recv conn) h = Some (Inr (buf, sz), h1)"
    "command_send_blockchain_deserialize e True (Some buf) sz h1 = Some (SUCCESS, Some ?cmd, h1\<lparr>brk := Suc (brk h1)\<rparr>)"
    "same_except {} h h1"
    by (rule receive_chain [OF req(1,3) env(4)])
  let ?h = "h1\<lparr>brk := Suc (brk h1)\<rparr>"
  have eq: "same_except {} h ?h" using h1(3) by (auto simp: same_except_def)
  then have "heap_ok ?h" "\<forall>n. malloc_ok ?h n"
    using env(4) heap_ok_same [OF env(1)] by (auto simp: same_except_def)
  from deserialize_enc_chain [OF req(2) _ this, of e "conn_time conn"] req(3) obtain p K h2 where
    d: "blockchain_deserialize e (conn_time conn) True (Some (enc_chain c')) ?len ?h = Some (SUCCESS, Some p, h2)"
    "own_chain h2 p K c'" "same_except K ?h h2" "\<forall>x \<in> K. store ?h x = None" "heap_ok h2" by auto
  have K: "\<forall>x \<in> K. store h x = None" "same_except K h h2"
    using d(3,4) eq same_except_trans [OF eq d(3)] by (simp_all add: same_except_def)
  have disj: "F \<inter> K = {}" using own_sync_live [OF own] K(1) by blast
  then have own2: "own_sync h2 sync F c v"
    using same_except_apart [OF K(2), of F] by (intro own_sync_frame [OF own]) blast
  have len: "length (cv_blocks c) < 2 ^ 64" "length (cv_blocks c') < 2 ^ 64"
    using length_blocks_enc_chain [of c] length_blocks_enc_chain [of c'] c(2) req(3) by simp_all
  have hdr: "wf_header hdr" "command hdr = command_code COMMAND_SEND_BLOCKCHAIN"
    using req(1) by (simp_all add: sends_chain_def)
  have "\<forall>n. malloc_ok h2 n" using env(4) K(2) by (simp add: same_except_def)
  from consensus_answer_ok [OF own2 d(2) disj c len(1) wire_chain_wf [OF req(2)] req(3) len(2) req(4) d(5)
      env(2,3) this hdr, of ?len "enc_chain c'"] obtain h' where
    a: "consensus_answer e ssl conn sync p ?cmd h2 =
      Some (Code SUCCESS, enc_send_data (hdr\<lparr>command_len := 8 + of_nat (length (enc_chain w))\<rparr>)
        (of_nat (length (enc_chain w))) (enc_chain w), h')"
    "if better e ssl c c'
     then own_sync h' sync (insert sync K) c' (v + 1) \<and> same_except F h2 h' \<and> (\<forall>x \<in> F - {sync}. store h' x = None)
     else own_sync h' sync F c v \<and> same_except {} (free_all K h2) h'"
    unfolding w_def by blast
  have "handle_one_consensus_request e ssl conn sync h = consensus_answer e ssl conn sync p ?cmd h2"
    using h1(1,2) d(1) by (simp add: handle_one_consensus_request_def out_ptr_def)
  moreover have "if better e ssl c c'
     then own_sync h' sync (insert sync K) c' (v + 1) \<and> same_except (F \<union> K) h h' \<and>
       (\<forall>x \<in> F - {sync}. store h' x = None)
     else own_sync h' sync F c v \<and> same_except {} h h'"
  proof (cases "better e ssl c c'")
    case True
    with a(2) same_except_trans [OF K(2), of F h'] show ?thesis by (simp add: Un_commute)
  next
    case False
    with a(2) same_except_free_all [OF K(2)] K show ?thesis by (simp add: same_except_def)
  qed
  ultimately show ?thesis
    unfolding a(1) by (intro exI [of _ h'] exI [of _ K] conjI K(1)) simp_all
qed

text \<open>
  C3. A well-formed request refines the consensus rule.  When a peer sends a chain, the node then
  has the longest valid chain of the same difficulty of the two, answers with exactly this chain
  and, if it took over the peer's, counts its version up.  The chain that lost is released, every
  object of it, and nothing else on the heap changes.
\<close>

theorem consensus_longest_valid_chain_wins:
  assumes "own_sync h sync F c v" "wf_chain c" "length (enc_chain c) + 24 < 2 ^ 63"
    and "sends_chain conn hdr c'" "wire_chain c'" "length (enc_chain c') + 24 < 2 ^ 63" "verifiable e ssl c'"
    and "heap_ok h" "digest_ok ssl" "conn_ok conn" "\<forall>n. malloc_ok h n"
    and "(w, v') = consensus_choice e ssl (c, v) c'"
  shows "\<exists>h' F'. handle_one_consensus_request e ssl conn sync h =
      Some (Code SUCCESS, enc_send_data (hdr\<lparr>command_len := 8 + of_nat (length (enc_chain w))\<rparr>)
        (of_nat (length (enc_chain w))) (enc_chain w), h') \<and>
    own_sync h' sync F' w v' \<and> (\<forall>x \<in> F - F'. store h' x = None) \<and>
    (\<forall>x. x \<notin> F \<union> F' \<longrightarrow> store h' x = store h x)"
proof -
  have w: "w = (if better e ssl c c' then c' else c)" "v' = (if better e ssl c c' then v + 1 else v)"
    using assms(12) by (simp_all add: consensus_choice_def split: if_splits)
  from consensus_request_ok [OF assms(1-11)] obtain h' K where
    h': "handle_one_consensus_request e ssl conn sync h =
      Some (Code SUCCESS, enc_send_data (hdr\<lparr>command_len := 8 + of_nat (length (enc_chain w))\<rparr>)
        (of_nat (length (enc_chain w))) (enc_chain w), h')"
    "if better e ssl c c'
     then own_sync h' sync (insert sync K) c' (v + 1) \<and> same_except (F \<union> K) h h' \<and>
       (\<forall>x \<in> F - {sync}. store h' x = None)
     else own_sync h' sync F c v \<and> same_except {} h h'" unfolding w(1) [symmetric] by blast
  show ?thesis
  proof (cases "better e ssl c c'")
    case True
    with h' w show ?thesis
      by (intro exI [of _ h'] exI [of _ "insert sync K"]) (auto simp: same_except_def)
  next
    case False
    with h' w show ?thesis by (intro exI [of _ h'] exI [of _ F]) (simp add: same_except_def)
  qed
qed

text \<open>A synchronised blockchain for the witnesses.\<close>

lemma sync_representable:
  "\<exists>h sync F. own_sync h sync F c v \<and> heap_ok h \<and> (\<forall>n. malloc_ok h n)"
proof -
  obtain h a F where h: "own_chain h a F c" "heap_ok h" "\<forall>n. malloc_ok h n"
    using chain_representable by blast
  obtain h' where h': "same_except {Suc (brk h)} h h'" "heap_ok h'"
    "store h' (Suc (brk h)) = Some (DataObj (SyncObj \<lparr>sync_blockchain = a, version = v\<rparr>))"
    using alloc_data [OF h(2,3)] by blast
  have new: "Suc (brk h) \<notin> F" by (rule own_chain_fresh [OF h(1,2)])
  then have "own_chain h' a F c"
    by (intro own_chain_frame [OF h(1)] same_except_apart [OF h'(1)]) simp_all
  with new h'(3) have "own_sync h' (Suc (brk h)) (insert (Suc (brk h)) F) c v" by (auto simp: own_sync_def)
  moreover have "\<forall>n. malloc_ok h' n" using h'(1) h(3) by (simp add: same_except_def)
  ultimately show ?thesis using h'(2) by blast
qed

lemma verifiable_chain_ok: "chain_ok e ssl c \<Longrightarrow> digest_ok ssl \<Longrightarrow> verifiable e ssl c"
  unfolding verifiable_def using chain_check_Pass [of ssl e c None]
  by (intro exI [of _ Pass] exI [of _ None]) simp

lemma example_chain_request:
  assumes "length (enc_chain c) + 8 \<le> INT_MAX"
  shows "\<exists>conn hdr. sends_chain conn hdr c \<and> conn_ok conn"
proof -
  let ?len = "of_nat (length (enc_chain c)) :: u64"
  let ?hdr = "\<lparr>command_prefix = COMMAND_PREFIX, command = 4, command_len = 8 + ?len\<rparr>"
  let ?conn = "example_connection (enc_command_header ?hdr) (be_bytes ?len @ enc_chain c)"
  have hdr: "wf_header ?hdr" by (simp add: wf_header_def)
  have "arrives (conn_recv ?conn 0) (enc_command_header ?hdr)"
    using example_arrives [of "enc_command_header ?hdr"] length_enc_command_header [OF hdr]
    by (simp add: example_connection_def)
  moreover have "arrives (conn_recv ?conn 1) (be_bytes ?len @ enc_chain c)"
    using example_arrives [of "be_bytes ?len @ enc_chain c"] assms by (simp add: example_connection_def)
  ultimately have "sends_chain ?conn ?hdr c" using hdr by (simp add: sends_chain_def)
  then show ?thesis using example_conn_ok by blast
qed

lemma example_request:
  "\<exists>conn hdr. sends_chain conn hdr (example_chain [example_block]) \<and> conn_ok conn"
  by (rule example_chain_request) (simp add: example_chain_wire(2))

lemma example_chains:
  "wf_chain (example_chain [])" "length (enc_chain (example_chain [])) + 24 < 2 ^ 63"
  "length (enc_chain (example_chain [example_block])) + 24 < 2 ^ 63"
  "verifiable e example_openssl (example_chain [example_block])"
  "better e example_openssl (example_chain []) (example_chain [example_block])"
proof -
  show "wf_chain (example_chain [])" by (simp add: wf_example_chain)
  show "length (enc_chain (example_chain [])) + 24 < 2 ^ 63"
    by (simp add: enc_chain_def example_chain_def enc_block_def genesis_v_def)
  show "length (enc_chain (example_chain [example_block])) + 24 < 2 ^ 63"
    by (simp add: example_chain_wire(2))
  show "verifiable e example_openssl (example_chain [example_block])"
    by (rule verifiable_chain_ok [OF example_chain_ok example_openssl_ok(3)])
  show "better e example_openssl (example_chain []) (example_chain [example_block])"
    by (simp add: better_def example_chain_ok) (simp add: example_chain_def)
qed

theorem consensus_longest_valid_chain_wins_witness:
  "\<exists>h sync F conn sent h' F'. own_sync h sync F (example_chain []) 6 \<and>
     handle_one_consensus_request Little example_openssl conn sync h = Some (Code SUCCESS, sent, h') \<and>
     own_sync h' sync F' (example_chain [example_block]) 7"
proof -
  let ?c = "example_chain [example_block]"
  obtain conn hdr where req: "sends_chain conn hdr ?c" "conn_ok conn" using example_request by blast
  obtain h sync F where h: "own_sync h sync F (example_chain []) 6" "heap_ok h" "\<forall>n. malloc_ok h n"
    using sync_representable by blast
  have "(?c, 7) = consensus_choice Little example_openssl (example_chain [], 6) ?c"
    by (simp add: consensus_choice_def example_chains)
  from consensus_longest_valid_chain_wins [OF h(1) example_chains(1,2) req(1) example_chain_wire(1)
      example_chains(3,4) h(2) example_openssl_ok(3) req(2) h(3) this] h(1)
  show ?thesis by blast
qed

section \<open>The server\<close>

lemma better_trans: "better e ssl a b \<Longrightarrow> better e ssl b c \<Longrightarrow> better e ssl a c"
  by (auto simp: better_def)

text \<open>
  What every request keeps, from a heap \<open>h0\<close> on which the synchronised blockchain owned
  \<open>F\<close> and had the chain \<open>c\<close>.
\<close>

definition consensus_inv ::
  "endianness \<Rightarrow> openssl \<Rightarrow> addr \<Rightarrow> heap \<Rightarrow> addr set \<Rightarrow> chain_v \<Rightarrow> u64 \<Rightarrow> heap \<Rightarrow> bool" where
  "consensus_inv e ssl sync h0 F c v h \<longleftrightarrow>
     digest_ok ssl \<and>
     (\<exists>F' c' v'. own_sync h sync F' c' v' \<and> (c' = c \<and> v' = v \<or> better e ssl c c') \<and>
        length (cv_blocks c') < 2 ^ 64 \<and> leaves F h0 h \<and> (\<forall>x \<in> F'. x \<in> F \<or> store h0 x = None))"

lemma consensus_inv_start:
  "own_sync h sync F c v \<Longrightarrow> length (cv_blocks c) < 2 ^ 64 \<Longrightarrow> heap_ok h \<Longrightarrow> digest_ok ssl \<Longrightarrow>
   consensus_inv e ssl sync h F c v h"
  by (auto simp: consensus_inv_def leaves_def)

interpretation consensus: request_handler "\<lambda>conn. handle_one_consensus_request e ssl conn sync"
  "consensus_inv e ssl sync h0 F c v"
  for e ssl sync h0 F c v
proof
  fix h conn st sent h'
  assume inv: "consensus_inv e ssl sync h0 F c v h"
    and run: "handle_one_consensus_request e ssl conn sync h = Some (st, sent, h')"
  from inv obtain F1 c1 v1 where
    h1: "own_sync h sync F1 c1 v1" "c1 = c \<and> v1 = v \<or> better e ssl c c1" "length (cv_blocks c1) < 2 ^ 64"
    "leaves F h0 h" "\<forall>x \<in> F1. x \<in> F \<or> store h0 x = None" and ssl: "digest_ok ssl"
    unfolding consensus_inv_def by blast
  have step: "leaves F h0 h'" if "leaves F1 h h'"
    using h1(4,5) that unfolding leaves_def by (metis order_trans)
  have "heap_ok h" using h1(4) by (simp add: leaves_def)
  from consensus_request_leaves [OF run h1(1,3) this ssl] show "consensus_inv e ssl sync h0 F c v h'"
  proof (elim disjE exE conjE)
    assume h2: "own_sync h' sync F1 c1 v1" "leaves {} h h'"
    then have "leaves F1 h h'" by (auto simp: leaves_def)
    with h2(1) h1 step ssl show ?thesis unfolding consensus_inv_def by blast
  next
    fix c' K
    assume h2: "better e ssl c1 c'" "length (cv_blocks c') < 2 ^ 64" "own_sync h' sync (insert sync K) c' (v1 + 1)"
      "leaves F1 h h'" "\<forall>x \<in> K. store h x = None"
    have "better e ssl c c'" using h1(2) h2(1) by (auto dest: better_trans)
    moreover have "\<forall>x \<in> insert sync K. x \<in> F \<or> store h0 x = None"
      using h1(1,4,5) h2(5) unfolding leaves_def own_sync_def by (metis insert_iff)
    ultimately show ?thesis using h2 step ssl unfolding consensus_inv_def by blast
  qed
next
  fix h
  assume "consensus_inv e ssl sync h0 F c v h"
  then obtain F1 c1 v1 where
    h1: "own_sync h sync F1 c1 v1" "c1 = c \<and> v1 = v \<or> better e ssl c c1" "length (cv_blocks c1) < 2 ^ 64"
    "leaves F h0 h" "\<forall>x \<in> F1. x \<in> F \<or> store h0 x = None" and ssl: "digest_ok ssl"
    unfolding consensus_inv_def by blast
  have "own_sync (h\<lparr>brk := Suc (brk h)\<rparr>) sync F1 c1 v1" by (rule own_sync_frame [OF h1(1)]) simp
  moreover have "leaves F h0 (h\<lparr>brk := Suc (brk h)\<rparr>)" using h1(4) by (auto simp: leaves_def)
  ultimately show "consensus_inv e ssl sync h0 F c v (h\<lparr>brk := Suc (brk h)\<rparr>)"
    using h1 ssl unfolding consensus_inv_def by blast
qed



text \<open>
  C21. The server can be stopped.  If every request that is served comes to an end, the thread
  ends in the round in which it sees \<open>should_stop\<close>, or earlier because a system call failed,
  and it always reports \<open>exit_ready\<close>.
\<close>

theorem consensus_server_stops:
  assumes "own_sync h sync F c v" "length (cv_blocks c) < 2 ^ 64" "heap_ok h" "digest_ok ssl" "\<forall>n. malloc_ok h n"
    and "stop_requested env n"
    and "\<forall>j < n. \<forall>h1. consensus_inv e ssl sync h F c v h1 \<longrightarrow>
      handle_one_consensus_request e ssl (client env j) sync h1 \<noteq> None"
  shows "\<exists>st h'. run_consensus_peer_server e ssl print env sync h = Some (st, True, h')"
proof -
  have inv: "consensus_inv e ssl sync h F c v h" by (rule consensus_inv_start [OF assms(1-4)])
  let ?loop = "server_loop (\<lambda>conn. handle_one_consensus_request e ssl conn sync) print env 0 (Code SUCCESS) h"
  have "?loop \<noteq> None"
    by (rule consensus.server_loop_stops [OF _ assms(6) _ inv]) (use assms(7) in auto)
  then obtain st h1 where loop: "?loop = Some (st, h1)" by auto
  from consensus.server_loop_inv [OF loop inv] have "\<forall>n. malloc_ok h1 n"
    using assms(5) by (auto simp: consensus_inv_def leaves_def)
  with loop assms(5) show ?thesis by (simp add: run_consensus_peer_server_def run_server_def request_def)
qed

theorem consensus_server_stops_witness:
  "\<exists>h sync F st h'. own_sync h sync F (example_chain []) 0 \<and>
     run_consensus_peer_server Big example_openssl True
       (example_server ((example_connection [] [])\<lparr>conn_recv := (\<lambda>k i n. None)\<rparr>)) sync h = Some (st, True, h')"
proof -
  let ?conn = "(example_connection [] [])\<lparr>conn_recv := (\<lambda>k i n. None)\<rparr>"
  obtain h sync F where h: "own_sync h sync F (example_chain []) 0" "heap_ok h" "\<forall>n. malloc_ok h n"
    using sync_representable by blast
  have "handle_one_consensus_request Big example_openssl ?conn sync h1 \<noteq> None" for h1
    by (simp add: handle_one_consensus_request_def receive_request_def calloc_buf_eq recv_all_at_def
        recv_all_def recv_all_loop.simps)
  then have "\<forall>j < 2. \<forall>h1. consensus_inv Big example_openssl sync h F (example_chain []) 0 h1 \<longrightarrow>
      handle_one_consensus_request Big example_openssl (client (example_server ?conn) j) sync h1 \<noteq> None"
    by (simp add: example_server_def)
  moreover have "length (cv_blocks (example_chain [])) < 2 ^ 64" "stop_requested (example_server ?conn) 2"
    by (simp_all add: example_chain_def example_server_def)
  ultimately show ?thesis
    using consensus_server_stops [OF h(1) _ h(2) example_openssl_ok(3) h(3)] h(1) by blast
qed

section \<open>Oversized requests\<close>

text \<open>
  C31. A request that states a payload of \<open>2^63 - 16\<close> bytes or more is undefined behaviour:
  the size of the receive buffer wraps around, or \<open>realloc\<close> fails unnoticed, and the bytes
  that follow are written outside the buffer.
\<close>

theorem oversized_consensus_request:
  assumes "wf_header hdr" "command hdr = command_code COMMAND_SEND_BLOCKCHAIN" "malloc_ok h (brk h)"
    and "arrives (conn_recv conn 0) (enc_command_header hdr)"
    and "2 ^ 63 - 16 \<le> unat (command_len hdr)"
    and "conn_recv conn 1 0 (unat (command_len hdr)) = Some bs" "bs \<noteq> []"
  shows "handle_one_consensus_request e ssl conn sync h = None"
  using receive_request_overflow [of hdr COMMAND_SEND_BLOCKCHAIN h "conn_recv conn" bs e] assms
  by (simp add: handle_one_consensus_request_def)

theorem oversized_consensus_request_witness:
  "handle_one_consensus_request Little example_openssl
     (example_connection (enc_command_header
       \<lparr>command_prefix = COMMAND_PREFIX, command = 4, command_len = - 8\<rparr>) [65]) 1 empty_heap = None"
proof -
  let ?hdr = "\<lparr>command_prefix = COMMAND_PREFIX, command = 4, command_len = - 8\<rparr>"
  have hdr: "wf_header ?hdr" by (simp add: wf_header_def)
  have "arrives (conn_recv (example_connection (enc_command_header ?hdr) [65]) 0) (enc_command_header ?hdr)"
    using example_arrives [of "enc_command_header ?hdr"] length_enc_command_header [OF hdr]
    by (simp add: example_connection_def)
  then show ?thesis
    by (intro oversized_consensus_request [where hdr = ?hdr and bs = "[65]"])
      (simp_all add: hdr example_connection_def)
qed

end
