(* ===== verification/Mining_Thread.thy ===== *)
theory Mining_Thread imports Consensus_Server begin

text \<open>
  The mining thread (\<^verbatim>\<open>src/mining_thread.c\<close>): it takes over a new chain when the shared
  version has changed, verifies the chain it mines on, builds a block with one minting
  transaction, searches for its proof of work, and appends it.

  A round of the thread's loop is a function on the heap.  What other threads do while it runs
  shows in the values the search loop reads (\<open>stop_seen\<close>, \<open>version_seen\<close>); what they do
  to the heap happens between two rounds, or between two parts of a round in the theory \<open>Node\<close>.
\<close>

section \<open>State and environment\<close>

text \<open>What the thread reads of its arguments.\<close>

record mine_blocks_args =
  mining_sync :: addr
  miner_public_key :: "ssh_key_t option"
  miner_private_key :: "ssh_key_t option"
  mining_progress :: bool
  mining_outfile :: "string option"

text \<open>
  The local variable \<open>blockchain\<close>, the shared \<open>*sync_version_currently_mined\<close> (which only
  this thread writes), and the files.
\<close>

record miner_state =
  mining_chain :: addr
  mined_version :: u64
  mining_files :: files

text \<open>The results of the system calls of one round.\<close>

record mining_env =
  refresh_lock_ok :: bool
  refresh_unlock_ok :: bool
  signal_lock_ok :: bool
  signal_unlock_ok :: bool
  transaction_time :: u64
  block_time :: u64
  mine_lock_ok :: bool
  mine_unlock_ok :: bool
  stop_seen :: "nat \<Rightarrow> bool"
  version_seen :: "nat \<Rightarrow> u64"
  outfile_opens :: bool
  outfile_written :: "nat \<Rightarrow> nat"

section \<open>A round\<close>

text \<open>
  Changing to the shared chain.  The result is the code with which the thread ends, if it does.
  The chain mined so far is destroyed.
\<close>

definition mining_refresh ::
  "mine_blocks_args \<Rightarrow> mining_env \<Rightarrow> miner_state \<Rightarrow> heap \<Rightarrow> (return_code_t option \<times> miner_state \<times> heap) option" where
  "mining_refresh args env st h =
     do {
       s \<leftarrow> load_sync (mining_sync args) h;
       if mined_version st = version s then Some (None, st, h)
       else if \<not> refresh_lock_ok env then Some (Some FAILURE_PTHREAD_FUNCTION, st, h)
       else (let old_blockchain = mining_chain st;
                 st = st\<lparr>mining_chain := sync_blockchain s\<rparr>
         in if \<not> refresh_unlock_ok env then Some (Some FAILURE_PTHREAD_FUNCTION, st, h)
            else do {
              (return_code, h) \<leftarrow> blockchain_destroy old_blockchain h;
              if return_code \<noteq> SUCCESS then Some (Some return_code, st, h)
              else do {
                s \<leftarrow> load_sync (mining_sync args) h;
                let st = st\<lparr>mined_version := version s\<rparr>
                in if \<not> signal_lock_ok env \<or> \<not> signal_unlock_ok env
                   then Some (Some FAILURE_PTHREAD_FUNCTION, st, h)
                   else Some (None, st, h)
              }
            })
     }"

text \<open>
  Verifying the chain.  If it is invalid, the block that was blamed is printed; verification
  blames no block when it rejects one without transactions, and the null pointer is
  dereferenced.
\<close>

definition mining_verify :: "endianness \<Rightarrow> openssl \<Rightarrow> addr \<Rightarrow> heap \<Rightarrow> return_code_t option option" where
  "mining_verify e ssl blockchain h =
     do {
       (return_code, is_valid_blockchain, first_invalid_block) \<leftarrow>
         blockchain_verify e ssl blockchain True True h;
       if return_code \<noteq> SUCCESS then Some (Some return_code)
       else if is_valid_blockchain \<noteq> Some True then do {
         _ \<leftarrow> load_block (out_ptr first_invalid_block) h;
         Some (Some FAILURE_INVALID_BLOCKCHAIN)
       }
       else Some None
     }"

text \<open>
  The list with the minting transaction: the return code, the list, and the heap.  What was
  built is destroyed when a step fails.
\<close>

definition mining_transactions ::
  "endianness \<Rightarrow> openssl \<Rightarrow> mine_blocks_args \<Rightarrow> mining_env \<Rightarrow> heap \<Rightarrow> (return_code_t \<times> addr \<times> heap) option" where
  "mining_transactions e ssl args env h =
     (case linked_list_create True (Some FREE) None h of
        (return_code, tx_list, h) \<Rightarrow>
          if return_code \<noteq> SUCCESS then Some (return_code, NULL, h)
          else do {
            (return_code, mint_coin_transaction, h) \<leftarrow> transaction_create e ssl (transaction_time env) True
              (miner_public_key args) (miner_public_key args) AMOUNT_GENERATED_DURING_MINTING
              (miner_private_key args) h;
            if return_code \<noteq> SUCCESS then do {
              (_, h) \<leftarrow> linked_list_destroy leaf_free (out_ptr tx_list) h;
              Some (return_code, NULL, h)
            }
            else do {
              (return_code, h) \<leftarrow>
                linked_list_prepend (out_ptr tx_list) (out_ptr mint_coin_transaction) h;
              if return_code \<noteq> SUCCESS then do {
                (_, h) \<leftarrow> transaction_destroy (out_ptr mint_coin_transaction) h;
                (_, h) \<leftarrow> linked_list_destroy leaf_free (out_ptr tx_list) h;
                Some (return_code, NULL, h)
              }
              else Some (SUCCESS, out_ptr tx_list, h)
            }
          })"

text \<open>The next block: the return code, the block, and the heap.\<close>

definition mining_next_block ::
  "endianness \<Rightarrow> openssl \<Rightarrow> mine_blocks_args \<Rightarrow> mining_env \<Rightarrow> addr \<Rightarrow> heap \<Rightarrow> (return_code_t \<times> addr \<times> heap) option" where
  "mining_next_block e ssl args env blockchain h =
     do {
       c \<leftarrow> load_blockchain blockchain h;
       (return_code, node) \<leftarrow> linked_list_get_last (block_list c) True h;
       if return_code \<noteq> SUCCESS then Some (return_code, NULL, h)
       else do {
         n \<leftarrow> load_node (out_ptr node) h;
         (return_code, prev_hash) \<leftarrow> block_hash e ssl (node_data n) True h;
         if return_code \<noteq> SUCCESS then Some (return_code, NULL, h)
         else do {
           prev_hash \<leftarrow> prev_hash;
           (return_code, tx_list, h) \<leftarrow> mining_transactions e ssl args env h;
           if return_code \<noteq> SUCCESS then Some (return_code, NULL, h)
           else (case block_create True tx_list 0 prev_hash (block_time env) h of
               (return_code, next_block, h) \<Rightarrow>
                 if return_code \<noteq> SUCCESS then do {
                   (_, h) \<leftarrow> linked_list_destroy leaf_free tx_list h;
                   Some (return_code, NULL, h)
                 }
                 else Some (SUCCESS, out_ptr next_block, h))
         }
       }
     }"

text \<open>
  What follows the search, and the search.  The result is the new return code, whether the thread
  ends, the files and the heap.
\<close>

definition mining_append ::
  "endianness \<Rightarrow> mine_blocks_args \<Rightarrow> mining_env \<Rightarrow> addr \<Rightarrow> addr \<Rightarrow> files \<Rightarrow> heap \<Rightarrow>
   (return_code_t \<times> bool \<times> files \<times> heap) option" where
  "mining_append e args env blockchain next_block fs h =
     do {
       (return_code, h) \<leftarrow> blockchain_add_block blockchain next_block h;
       if return_code \<noteq> SUCCESS then do {
         (_, h) \<leftarrow> block_destroy next_block h;
         Some (return_code, True, fs, h)
       }
       else do {
         _ \<leftarrow> (if mining_progress args then blockchain_print blockchain h else Some []);
         (fs, h) \<leftarrow> (case mining_outfile args of
             None \<Rightarrow> Some (fs, h)
           | Some path \<Rightarrow> do {
               (_, fs, h) \<leftarrow> blockchain_write_to_file e (outfile_opens env) (outfile_written env)
                              blockchain (Some path) fs h;
               Some (fs, h)
             });
         Some (SUCCESS, False, fs, h)
       }
     }"

text \<open>The search failed: the block is released, and the code decides whether the thread goes on.\<close>

definition mining_give_up :: "return_code_t \<Rightarrow> addr \<Rightarrow> heap \<Rightarrow> (return_code_t \<times> bool \<times> heap) option" where
  "mining_give_up return_code next_block h =
     do {
       (_, h) \<leftarrow> block_destroy next_block h;
       if return_code = FAILURE_COULD_NOT_FIND_VALID_PROOF_OF_WORK then Some (return_code, False, h)
       else if return_code = FAILURE_LONGER_BLOCKCHAIN_DETECTED \<or> return_code = FAILURE_STOPPED_EARLY
       then Some (SUCCESS, False, h)
       else Some (return_code, True, h)
     }"

definition mining_search ::
  "endianness \<Rightarrow> openssl \<Rightarrow> mine_blocks_args \<Rightarrow> mining_env \<Rightarrow> miner_state \<Rightarrow> addr \<Rightarrow> heap \<Rightarrow>
   (return_code_t \<times> bool \<times> files \<times> heap) option" where
  "mining_search e ssl args env st next_block h =
     do {
       (return_code, h) \<leftarrow> synchronized_blockchain_mine_block e ssl (mine_lock_ok env) (mine_unlock_ok env)
         (mining_sync args) next_block (Some (stop_seen env)) (Some (\<lambda>_. mined_version st)) (version_seen env) h;
       if return_code \<noteq> SUCCESS then do {
         (return_code, ends, h) \<leftarrow> mining_give_up return_code next_block h;
         Some (return_code, ends, mining_files st, h)
       }
       else mining_append e args env (mining_chain st) next_block (mining_files st) h
     }"

definition mining_round ::
  "endianness \<Rightarrow> openssl \<Rightarrow> mine_blocks_args \<Rightarrow> mining_env \<Rightarrow> miner_state \<Rightarrow> heap \<Rightarrow>
   (return_code_t \<times> bool \<times> miner_state \<times> heap) option" where
  "mining_round e ssl args env st h =
     do {
       (r, st, h) \<leftarrow> mining_refresh args env st h;
       case r of
         Some return_code \<Rightarrow> Some (return_code, True, st, h)
       | None \<Rightarrow> do {
           r \<leftarrow> mining_verify e ssl (mining_chain st) h;
           case r of
             Some return_code \<Rightarrow> Some (return_code, True, st, h)
           | None \<Rightarrow> do {
               (return_code, next_block, h) \<leftarrow> mining_next_block e ssl args env (mining_chain st) h;
               if return_code \<noteq> SUCCESS then Some (return_code, True, st, h)
               else do {
                 (return_code, ends, fs, h) \<leftarrow> mining_search e ssl args env st next_block h;
                 Some (return_code, ends, st\<lparr>mining_files := fs\<rparr>, h)
               }
             }
         }
     }"

section \<open>The thread\<close>

text \<open>
  The result is the return code, whether the loop was left by \<open>goto end\<close> (then
  \<open>*exit_ready\<close> is not set), the state and the heap.
\<close>

partial_function (option) mining_loop ::
  "endianness \<Rightarrow> openssl \<Rightarrow> mine_blocks_args \<Rightarrow> (nat \<Rightarrow> bool) \<Rightarrow> (nat \<Rightarrow> mining_env) \<Rightarrow> nat \<Rightarrow>
   return_code_t \<Rightarrow> miner_state \<Rightarrow> heap \<Rightarrow> (return_code_t \<times> bool \<times> miner_state \<times> heap) option" where
  "mining_loop e ssl args should_stop env i return_code st h =
     (if should_stop i then Some (return_code, False, st, h)
      else do {
        (return_code, ends, st, h) \<leftarrow> mining_round e ssl args (env i) st h;
        if ends then Some (return_code, True, st, h)
        else mining_loop e ssl args should_stop env (Suc i) return_code st h
      })"

text \<open>
  The thread, from the version \<open>mined\<close> on: the return code, \<open>*exit_ready\<close>, the state and
  the heap.  A null argument has no state.
\<close>

definition mine_blocks ::
  "endianness \<Rightarrow> openssl \<Rightarrow> mine_blocks_args option \<Rightarrow> bool \<Rightarrow> bool \<Rightarrow> (nat \<Rightarrow> bool) \<Rightarrow> (nat \<Rightarrow> mining_env) \<Rightarrow>
   u64 \<Rightarrow> files \<Rightarrow> heap \<Rightarrow> (return_code_t \<times> bool \<times> miner_state option \<times> heap) option" where
  "mine_blocks e ssl args lock_ok unlock_ok should_stop env mined fs h =
     do {
       (return_code, exit_ready, st, h) \<leftarrow>
         (case args of
            None \<Rightarrow> Some (FAILURE_INVALID_INPUT, False, None, h)
          | Some args \<Rightarrow>
              if \<not> lock_ok then Some (FAILURE_PTHREAD_FUNCTION, False, None, h)
              else do {
                s \<leftarrow> load_sync (mining_sync args) h;
                if \<not> unlock_ok then Some (FAILURE_PTHREAD_FUNCTION, False, None, h)
                else do {
                  (return_code, left, st, h) \<leftarrow> mining_loop e ssl args should_stop env 0 SUCCESS
                    \<lparr>mining_chain = sync_blockchain s, mined_version = mined, mining_files = fs\<rparr> h;
                  Some (return_code, \<not> left, Some st, h)
                }
              });
       (case request h of
          (ok, h) \<Rightarrow> if ok then Some (return_code, exit_ready, st, h) else None)
     }"

text \<open>The entry point for \<open>pthread_create\<close>.\<close>

definition mine_blocks_pthread_wrapper ::
  "endianness \<Rightarrow> openssl \<Rightarrow> mine_blocks_args option \<Rightarrow> bool \<Rightarrow> bool \<Rightarrow> (nat \<Rightarrow> bool) \<Rightarrow> (nat \<Rightarrow> mining_env) \<Rightarrow>
   u64 \<Rightarrow> files \<Rightarrow> heap \<Rightarrow> (return_code_t \<times> bool \<times> miner_state option \<times> heap) option" where
  "mine_blocks_pthread_wrapper e ssl args lock_ok unlock_ok should_stop env mined fs h =
     mine_blocks e ssl args lock_ok unlock_ok should_stop env mined fs h"

section \<open>Building a block\<close>

text \<open>The key pair of the miner, and the transaction and block it produces.\<close>

definition miner_keys :: "openssl \<Rightarrow> mine_blocks_args \<Rightarrow> ssh_key_t \<Rightarrow> bool" where
  "miner_keys ssl args pub \<longleftrightarrow>
     openssl_ready ssl \<and> digest_ok ssl \<and> miner_public_key args = Some pub \<and> length pub = MAX_SSH_KEY_LENGTH \<and>
     (\<exists>priv. miner_private_key args = Some priv \<and> key_pair ssl priv pub)"

definition minted :: "endianness \<Rightarrow> openssl \<Rightarrow> ssh_key_t \<Rightarrow> transaction_t \<Rightarrow> bool" where
  "minted e ssl pub t \<longleftrightarrow>
     wf_transaction t \<and> sender_public_key t = pub \<and> recipient_public_key t = pub \<and>
     amount t = AMOUNT_GENERATED_DURING_MINTING \<and> signature_valid e ssl t"

definition new_block :: "endianness \<Rightarrow> openssl \<Rightarrow> ssh_key_t \<Rightarrow> u64 \<Rightarrow> sha_256_t \<Rightarrow> block_v \<Rightarrow> bool" where
  "new_block e ssl pub now prev b \<longleftrightarrow>
     (\<exists>t. minted e ssl pub t \<and> b = \<lparr>bv_created_at = now, bv_transactions = [t], bv_proof_of_work = 0,
        bv_previous_block_hash = prev\<rparr>)"

text \<open>Released objects are no longer among those a run leaves behind.\<close>

lemma evolves_free:
  assumes "heap_ok h" "evolves A h (F \<union> K) h'" "F \<inter> K = {}"
  shows "evolves A h F (free_all K h')"
  using assms by (auto simp: evolves_def same_except_def free_all_store restrict_map_def)

lemma evolves_alloc:
  assumes "heap_ok h" "evolves F0 h0 F h"
  shows "evolves F0 h0 (insert (Suc (brk h)) F) (h\<lparr>brk := Suc (brk h), store := (store h)(Suc (brk h) \<mapsto> v)\<rparr>)"
proof (rule evolves_trans [OF assms(2)])
  let ?h = "h\<lparr>brk := Suc (brk h), store := (store h)(Suc (brk h) \<mapsto> v)\<rparr>"
  have "heap_ok ?h" using assms(1) by auto
  then show "evolves F h (insert (Suc (brk h)) F) ?h"
    using heap_ok_fresh [OF assms(1)] by (auto simp: evolves_def same_except_def)
qed

text \<open>
  The result of code that builds something: it is there and owns what was added, or memory ran
  out and everything is as it was.
\<close>

definition builds :: "(heap \<Rightarrow> addr \<Rightarrow> addr set \<Rightarrow> bool) \<Rightarrow> heap \<Rightarrow> (return_code_t \<times> addr \<times> heap) option \<Rightarrow> bool" where
  "builds good h r \<longleftrightarrow>
     (\<exists>rc d K h'. r = Some (rc, d, h') \<and> evolves {} h K h' \<and>
        (if rc = SUCCESS then good h' d K else K = {} \<and> (\<exists>n. \<not> malloc_ok h n)))"

lemma buildsI: "r = Some (SUCCESS, d, h') \<Longrightarrow> evolves {} h K h' \<Longrightarrow> good h' d K \<Longrightarrow> builds good h r"
  by (auto simp: builds_def)

lemma builds_mono: "builds good h r \<Longrightarrow> (\<And>h' d K. good h' d K \<Longrightarrow> good' h' d K) \<Longrightarrow> builds good' h r"
  unfolding builds_def by metis

text \<open>A failed allocation, after which the objects \<open>G\<close> built so far are released.\<close>

lemma builds_abandon:
  assumes "heap_ok h" "evolves {} h G h1" "\<not> malloc_ok h1 (brk h1)"
    and "r = Some (FAILURE_COULD_NOT_MALLOC, d, free_all G (h1\<lparr>brk := Suc (brk h1)\<rparr>))"
  shows "builds good h r"
proof -
  let ?h = "h1\<lparr>brk := Suc (brk h1)\<rparr>"
  have "heap_ok h1" "same_except {} h1 ?h" using assms(2) by (simp_all add: evolves_def same_except_def)
  then have "evolves {} h ({} \<union> G) ?h" using evolves_trans [OF assms(2) evolves_same] by simp
  then have "evolves {} h {} (free_all G ?h)" by (rule evolves_free [OF assms(1)]) simp
  moreover have "\<exists>n. \<not> malloc_ok h n" using assms(2,3) by (auto simp: evolves_def same_except_def)
  ultimately show ?thesis using assms(4) by (auto simp: builds_def)
qed

lemma mint_prepend_result:
  assumes ok: "heap_ok h" and ev: "evolves {} h {l, a} h2" and apart: "l \<noteq> a"
    and l: "own_ll own_transaction FREE None h2 l {l} []" and a: "own_transaction h2 a {a} t"
  shows "builds (\<lambda>h l K. own_transaction_list h l K [t]) h
    (Option.bind (linked_list_prepend l a h2) (\<lambda>(return_code, h).
       if return_code \<noteq> SUCCESS then do {
         (_, h) \<leftarrow> transaction_destroy a h;
         (_, h) \<leftarrow> linked_list_destroy leaf_free l h;
         Some (return_code, NULL, h)
       }
       else Some (SUCCESS, l, h)))"
proof -
  have ok2: "heap_ok h2" using ev by (simp add: evolves_def)
  show ?thesis
  proof (cases "malloc_ok h2 (brk h2)")
    case True
    have "{l} \<inter> {a} = {}" using apart by simp
    from l a this ok2 True obtain h3 where
      h3: "linked_list_prepend l a h2 = Some (SUCCESS, h3)"
      "own_ll own_transaction FREE None h3 l (insert (Suc (brk h2)) ({l} \<union> {a})) [t]"
      "same_except (insert (Suc (brk h2)) {l}) h2 h3" "heap_ok h3"
      by (rule tx.prepend_ok)
    have "evolves {l, a} h2 (insert (Suc (brk h2)) ({l} \<union> {a})) h3"
      using h3(3,4) heap_ok_fresh [OF ok2] by (auto simp: evolves_def same_except_def)
    from evolves_trans [OF ev this] show ?thesis
      by (rule buildsI [rotated]) (use h3(1,2) in \<open>auto simp: own_transaction_list_def\<close>)
  next
    case False
    let ?h = "h2\<lparr>brk := Suc (brk h2)\<rparr>"
    have "linked_list_prepend l a h2 = Some (FAILURE_COULD_NOT_MALLOC, ?h)"
      by (rule tx.prepend_fail [OF l tx.own_NULL [OF a] False])
    moreover have "own_transaction ?h a {a} t" by (rule tx.own_frame [OF a]) simp
    then have "transaction_destroy a ?h = Some (SUCCESS, free_all {a} ?h)" by (rule transaction_destroy_eq)
    moreover have "own_ll own_transaction FREE None (free_all {a} ?h) l {l} []"
      using apart by (intro tx.ll_frame [OF l]) auto
    then have "linked_list_destroy leaf_free l (free_all {a} ?h) = Some (SUCCESS, free_all {l, a} ?h)"
      by (simp add: tx_free.destroy_eq insert_commute)
    ultimately show ?thesis by (intro builds_abandon [OF ok ev False]) simp
  qed
qed

lemma mining_transactions_result:
  assumes ok: "heap_ok h" and keys: "miner_keys ssl args pub"
  shows "builds (\<lambda>h l K. \<exists>t. own_transaction_list h l K [t] \<and> minted e ssl pub t) h
    (mining_transactions e ssl args env h)"
proof (cases "malloc_ok h (brk h)")
  case False
  have "evolves {} h {} h" by (rule evolves_same [OF ok]) simp
  from builds_abandon [OF ok this False] create_fail [OF False, of FREE None] show ?thesis
    by (simp add: mining_transactions_def)
next
  case True
  let ?l = "Suc (brk h)"
  from keys obtain priv where k: "openssl_ready ssl" "miner_public_key args = Some pub" "length pub = MAX_SSH_KEY_LENGTH"
    "miner_private_key args = Some priv" "key_pair ssl priv pub"
    by (auto simp: miner_keys_def)
  from create_eq [OF ok True, of FREE None own_transaction] obtain h1 where
    h1: "linked_list_create True (Some FREE) None h = (SUCCESS, Some ?l, h1)"
    "own_ll own_transaction FREE None h1 ?l {?l} []" "same_except {?l} h h1" "heap_ok h1" "brk h1 = ?l" by blast
  have fresh: "store h ?l = None" by (rule heap_ok_fresh [OF ok])
  have ev1: "evolves {} h {?l} h1" using h1(3,4) fresh by (auto simp: evolves_def)
  show ?thesis
  proof (cases "malloc_ok h1 (brk h1)")
    case False
    have "own_ll own_transaction FREE None (h1\<lparr>brk := Suc (brk h1)\<rparr>) ?l {?l} []"
      by (intro tx.ll_frame [OF h1(2)]) simp
    from tx_free.destroy_eq [OF this] h1(1) k False show ?thesis
      by (intro builds_abandon [OF ok ev1 False, where d = NULL])
        (simp add: mining_transactions_def out_ptr_def transaction_create_def malloc_eq)
  next
    case m1: True
    from transaction_create_signed [OF h1(4) m1 k(1,5,3,3), of e "transaction_time env" 1] obtain h2 a t where
      h2: "transaction_create e ssl (transaction_time env) True (Some pub) (Some pub) 1 (Some priv) h1 = Some (SUCCESS, Some a, h2)"
      "own_transaction h2 a {a} t" "a = Suc (brk h1)" "same_except {a} h1 h2" "heap_ok h2"
      "wf_transaction t" "sender_public_key t = pub" "recipient_public_key t = pub" "amount t = 1"
      "signature_check e ssl t = Some (SUCCESS, Some True)" by blast
    have apart: "?l \<noteq> a" using h1(5) h2(3) by simp
    have "evolves {} h {?l, a} h2"
      using ev1 h2(3-5) heap_ok_fresh [OF h1(4)] apart h1(3) fresh by (auto simp: evolves_def same_except_def)
    moreover have "own_ll own_transaction FREE None h2 ?l {?l} []"
      using apart by (intro tx.ll_frame [OF h1(2)] same_except_store [OF h2(4)]) auto
    moreover have "minted e ssl pub t" using h2(6-10) by (simp add: minted_def signature_valid_def)
    ultimately show ?thesis
      using mint_prepend_result [OF ok _ apart _ h2(2)] h1(1) h2(1) k
      by (auto simp: mining_transactions_def out_ptr_def cong: if_cong elim: builds_mono)
  qed
qed

lemma last_block_hash:
  assumes "own_chain h a F c" "cv_blocks c = bs @ [b]" "md_ctx_new_ok ssl"
  obtains t q n where "load_blockchain a h = Some t" "linked_list_get_last (block_list t) True h = Some (SUCCESS, Some q)"
    "load_node q h = Some n" "block_hash e ssl (node_data n) True h = Some (SUCCESS, Some (hash_of e ssl b))"
  using assms(1)
proof (rule own_chainE)
  fix l G
  assume *: "a \<noteq> NULL" "store h a = Some (DataObj (BlockchainObj \<lparr>block_list = l, num_leading_zero_bytes = cv_zeros c\<rparr>))"
    "own_ll own_block BLOCK_DESTROY None h l G (cv_blocks c)"
  from *(3) [unfolded assms(2)] show ?thesis
  proof (rule blk.get_last_eq)
    fix p q d A B
    assume q: "linked_list_get_last l True h = Some (SUCCESS, Some q)" "q \<noteq> NULL"
      "store h q = Some (NodeObj \<lparr>node_data = d, node_next = NULL\<rparr>)" "own_block h d B b"
    have "load_node q h = Some \<lparr>node_data = d, node_next = NULL\<rparr>"
      using q(2,3) by (simp add: load_node_def load_obj_def)
    with that [OF load_blockchain_store [OF *(1,2)]] q(1) block_hash_eq [OF q(4) assms(3)] show ?thesis by simp
  qed
qed

lemma last_block_empty:
  assumes "own_chain h a F c" "cv_blocks c = []"
  obtains t where "load_blockchain a h = Some t"
    "linked_list_get_last (block_list t) True h = Some (FAILURE_LINKED_LIST_EMPTY, None)"
  using assms(1)
proof (rule own_chainE)
  fix l G
  assume *: "a \<noteq> NULL" "store h a = Some (DataObj (BlockchainObj \<lparr>block_list = l, num_leading_zero_bytes = cv_zeros c\<rparr>))"
    "own_ll own_block BLOCK_DESTROY None h l G (cv_blocks c)"
  have "linked_list_get_last l True h = Some (FAILURE_LINKED_LIST_EMPTY, None)"
    using blk.is_empty_eq [OF *(3)] blk.ll_self [OF *(3)] assms(2) by (simp add: linked_list_get_last_def)
  with that [OF load_blockchain_store [OF *(1,2)]] show ?thesis by simp
qed

lemma create_block_result:
  assumes ok: "heap_ok h" and ev: "evolves {} h K h1" and own: "own_transaction_list h1 l K ts"
  shows "builds (\<lambda>h d K. own_block h d K \<lparr>bv_created_at = now, bv_transactions = ts, bv_proof_of_work = w,
       bv_previous_block_hash = prev\<rparr>) h
    (case block_create True l w prev now h1 of
       (return_code, next_block, h) \<Rightarrow>
         if return_code \<noteq> SUCCESS then do {
           (_, h) \<leftarrow> linked_list_destroy leaf_free l h;
           Some (return_code, NULL, h)
         }
         else Some (SUCCESS, out_ptr next_block, h))"
proof -
  from own obtain f where f: "own_ll own_transaction f None h1 l K ts" by (auto elim: own_transaction_listE)
  have l: "l \<noteq> NULL" using tx.ll_self [OF f] by simp
  have ok1: "heap_ok h1" using ev by (simp add: evolves_def)
  let ?d = "Suc (brk h1)"
  show ?thesis
  proof (cases "malloc_ok h1 (brk h1)")
    case True
    let ?h = "h1\<lparr>brk := ?d, store := (store h1)(?d \<mapsto> DataObj (BlockObj
      \<lparr>block_created_at = now, transaction_list = l, proof_of_work = w, previous_block_hash = prev\<rparr>))\<rparr>"
    have fresh: "?d \<notin> K" by (rule tx.ll_fresh [OF f ok1])
    then have "own_transaction_list ?h l K ts" by (intro own_transaction_list_frame [OF own]) auto
    with fresh True l show ?thesis
      by (intro buildsI [OF _ evolves_alloc [OF ok1 ev]])
        (auto simp: block_create_def malloc_eq out_ptr_def own_block_def)
  next
    case False
    have "own_transaction_list (h1\<lparr>brk := ?d\<rparr>) l K ts" by (intro own_transaction_list_frame [OF own]) simp
    from transaction_list_destroy_eq [OF this] False l show ?thesis
      by (intro builds_abandon [OF ok ev False]) (simp add: block_create_def malloc_eq)
  qed
qed

lemma mining_next_block_builds:
  assumes own: "own_chain h a F c" and c: "cv_blocks c = bs @ [g]" and ok: "heap_ok h"
    and keys: "miner_keys ssl args pub"
  shows "builds (\<lambda>h d K. \<exists>b. own_block h d K b \<and> new_block e ssl pub (block_time env) (hash_of e ssl g) b) h
    (mining_next_block e ssl args env a h)"
proof -
  have "md_ctx_new_ok ssl" using keys by (simp add: miner_keys_def digest_ok_def)
  from last_block_hash [OF own c this, of e] obtain t q n where
    q: "load_blockchain a h = Some t" "linked_list_get_last (block_list t) True h = Some (SUCCESS, Some q)"
    "load_node q h = Some n" "block_hash e ssl (node_data n) True h = Some (SUCCESS, Some (hash_of e ssl g))"
    by metis
  from mining_transactions_result [OF ok keys, of e env] obtain rc l K h1 where
    t: "mining_transactions e ssl args env h = Some (rc, l, h1)" "evolves {} h K h1"
    "if rc = SUCCESS then \<exists>t. own_transaction_list h1 l K [t] \<and> minted e ssl pub t
     else K = {} \<and> (\<exists>n. \<not> malloc_ok h n)" unfolding builds_def by blast
  show ?thesis
  proof (cases "rc = SUCCESS")
    case False
    with q t show ?thesis by (auto simp: mining_next_block_def builds_def out_ptr_def)
  next
    case True
    with t(3) obtain tx where tx: "own_transaction_list h1 l K [tx]" "minted e ssl pub tx" by auto
    from create_block_result [OF ok t(2) tx(1), of "block_time env" 0 "hash_of e ssl g"] q t(1) tx(2) True
    show ?thesis
      by (auto simp: mining_next_block_def out_ptr_def new_block_def cong: if_cong elim!: builds_mono)
  qed
qed

lemmas mining_next_block_result = mining_next_block_builds [unfolded builds_def]

section \<open>The search\<close>

text \<open>The shared structure at \<open>sync\<close> with the address of its chain.\<close>

definition own_sync_at :: "heap \<Rightarrow> addr \<Rightarrow> addr \<Rightarrow> addr set \<Rightarrow> chain_v \<Rightarrow> u64 \<Rightarrow> bool" where
  "own_sync_at h sync a F c v \<longleftrightarrow>
     own_sync h sync F c v \<and> load_sync sync h = Some \<lparr>sync_blockchain = a, version = v\<rparr>"

lemma own_sync_atE:
  assumes "own_sync_at h sync a F c v"
  obtains G where "sync \<noteq> NULL" "sync \<notin> G" "F = insert sync G" "own_chain h a G c"
    "store h sync = Some (DataObj (SyncObj \<lparr>sync_blockchain = a, version = v\<rparr>))"
    "load_sync sync h = Some \<lparr>sync_blockchain = a, version = v\<rparr>"
proof -
  from assms have own: "own_sync h sync F c v"
    and ld: "load_sync sync h = Some \<lparr>sync_blockchain = a, version = v\<rparr>" by (simp_all add: own_sync_at_def)
  from own show ?thesis
  proof (rule own_syncE)
    fix a' G
    assume *: "sync \<noteq> NULL" "sync \<notin> G" "F = insert sync G" "own_chain h a' G c"
      "store h sync = Some (DataObj (SyncObj \<lparr>sync_blockchain = a', version = v\<rparr>))"
    have "a' = a" using ld load_sync_store [OF *(1,5)] by simp
    with * ld that show ?thesis by blast
  qed
qed

lemma own_sync_atI:
  assumes "sync \<noteq> NULL" "sync \<notin> G" "own_chain h a G c"
    "store h sync = Some (DataObj (SyncObj \<lparr>sync_blockchain = a, version = v\<rparr>))"
  shows "own_sync_at h sync a (insert sync G) c v"
  using assms load_sync_store [OF assms(1,4)] by (auto simp: own_sync_at_def own_sync_def)

lemma own_sync_at_frame:
  assumes "own_sync_at h sync a F c v" "\<And>x. x \<in> F \<Longrightarrow> store h' x = store h x"
  shows "own_sync_at h' sync a F c v"
  using assms(1)
proof (rule own_sync_atE)
  fix G
  assume *: "sync \<noteq> NULL" "sync \<notin> G" "F = insert sync G" "own_chain h a G c"
    "store h sync = Some (DataObj (SyncObj \<lparr>sync_blockchain = a, version = v\<rparr>))"
  have "own_chain h' a G c" using *(3) assms(2) by (intro own_chain_frame [OF *(4)]) simp
  then show ?thesis using * assms(2) own_sync_atI by simp
qed

lemma own_sync_at_live: "own_sync_at h sync a F c v \<Longrightarrow> x \<in> F \<Longrightarrow> store h x \<noteq> None"
  using own_sync_live by (auto simp: own_sync_at_def)

text \<open>The codes with which the search ends before it hashes, as the environment shows them.\<close>

definition mining_interrupt :: "mining_env \<Rightarrow> u64 \<Rightarrow> nat \<Rightarrow> return_code_t option" where
  "mining_interrupt env v i =
     (if stop_seen env i then Some FAILURE_STOPPED_EARLY
      else if v \<noteq> version_seen env i then Some FAILURE_LONGER_BLOCKCHAIN_DETECTED else None)"

lemma search_outcome:
  assumes own: "own_sync_at h sync a F c v" and b: "own_block h d K b" and disj: "F \<inter> K = {}"
    and ok: "heap_ok h" and ssl: "digest_ok ssl" "unat (cv_zeros c) \<le> 32"
  shows "\<exists>rc p h1. synchronized_blockchain_mine_block e ssl (mine_lock_ok env) (mine_unlock_ok env) sync d
      (Some (stop_seen env)) (Some (\<lambda>_. v')) (version_seen env) h = Some (rc, h1) \<and>
    own_sync_at h1 sync a F c v \<and> own_block h1 d K (b\<lparr>bv_proof_of_work := p\<rparr>) \<and> evolves (F \<union> K) h (F \<union> K) h1 \<and>
    (if mine_lock_ok env \<and> mine_unlock_ok env
     then \<exists>m. mining_outcome (good_proof e ssl (cv_zeros c) b) (mining_interrupt env v') 0 m rc p
     else rc = FAILURE_PTHREAD_FUNCTION)"
  using own
proof (rule own_sync_atE)
  fix G
  assume *: "sync \<noteq> NULL" "sync \<notin> G" "F = insert sync G" "own_chain h a G c"
    "store h sync = Some (DataObj (SyncObj \<lparr>sync_blockchain = a, version = v\<rparr>))"
    "load_sync sync h = Some \<lparr>sync_blockchain = a, version = v\<rparr>"
  have d: "d \<noteq> NULL" "d \<in> K" using b by (auto elim: own_blockE)
  show ?thesis
  proof (cases "mine_lock_ok env \<and> mine_unlock_ok env")
    case False
    have "b = b\<lparr>bv_proof_of_work := bv_proof_of_work b\<rparr>" by simp
    with False own b *(1,6) d(1) evolves_same [OF ok same_except_refl] show ?thesis
      by (intro exI [of _ FAILURE_PTHREAD_FUNCTION] exI [of _ "bv_proof_of_work b"] exI [of _ h])
        (auto simp: synchronized_blockchain_mine_block_def)
  next
    case True
    have apart: "d \<notin> G" using disj *(3) d(2) by auto
    have "0 + UINT64_MAX = UINT64_MAX" by simp
    from mine_loop_outcome [OF b *(4) apart ssl this, where e = e and interrupt = "mining_interrupt env v'"]
    obtain rc h1 m p where
      h1: "mine_loop e ssl a d (mining_interrupt env v') 0 h = Some (rc, h1)"
      "own_block h1 d K (b\<lparr>bv_proof_of_work := p\<rparr>)" "own_chain h1 a G c" "same_except {d} h h1"
      "heap_ok h1" "mining_outcome (good_proof e ssl (cv_zeros c) b) (mining_interrupt env v') 0 m rc p"
      using ok by auto
    have "own_sync_at h1 sync a F c v"
      using d(2) disj by (intro own_sync_at_frame [OF own] same_except_store [OF h1(4)]) auto
    moreover have "evolves (F \<union> K) h (F \<union> K) h1" using h1(4,5) d(2) by (auto simp: evolves_def same_except_def)
    moreover have "synchronized_blockchain_mine_block e ssl (mine_lock_ok env) (mine_unlock_ok env) sync d
      (Some (stop_seen env)) (Some (\<lambda>_. v')) (version_seen env) h = Some (rc, h1)"
      using True *(1,6) d(1) h1(1) by (simp add: synchronized_blockchain_mine_block_def mining_interrupt_def [abs_def])
    ultimately show ?thesis using True h1(2,6) by (intro exI [of _ rc] exI [of _ p] exI [of _ h1]) auto
  qed
qed

lemma mining_append_result:
  assumes run: "mining_append e args env a d fs h = Some (rc, ends, fs', h')"
    and own: "own_sync_at h sync a F c v" and b: "own_block h d K b" and disj: "F \<inter> K = {}" and ok: "heap_ok h"
  shows "\<exists>F'. own_sync_at h' sync a F' (if ends then c else c\<lparr>cv_blocks := cv_blocks c @ [b]\<rparr>) v \<and>
    evolves (F \<union> K) h F' h' \<and> (ends \<longrightarrow> (\<exists>n. \<not> malloc_ok h n)) \<and> (\<not> ends \<longrightarrow> rc = SUCCESS)"
  using own
proof (rule own_sync_atE)
  fix G
  assume *: "sync \<noteq> NULL" "sync \<notin> G" "F = insert sync G" "own_chain h a G c"
    "store h sync = Some (DataObj (SyncObj \<lparr>sync_blockchain = a, version = v\<rparr>))"
  have disj': "G \<inter> K = {}" "sync \<notin> K" using disj *(3) by auto
  show ?thesis
  proof (cases "malloc_ok h (brk h)")
    case True
    let ?n = "Suc (brk h)" and ?c = "c\<lparr>cv_blocks := cv_blocks c @ [b]\<rparr>"
    from *(4) b disj'(1) ok True obtain h1 where
      h1: "blockchain_add_block a d h = Some (SUCCESS, h1)" "own_chain h1 a (insert ?n (G \<union> K)) ?c"
      "same_except (insert ?n G) h h1" "heap_ok h1"
      by (rule blockchain_add_block_ok)
    have n: "sync \<noteq> ?n" "store h ?n = None" using *(5) heap_ok_fresh [OF ok] by auto
    have "store h1 sync = store h sync" using n(1) *(2) by (intro same_except_store [OF h1(3)]) auto
    then have own1: "own_sync_at h1 sync a (insert sync (insert ?n (G \<union> K))) ?c v"
      using * disj'(2) n(1) h1(2) by (intro own_sync_atI) simp_all
    from run h1(1) have h': "same_except {} h1 h'" "rc = SUCCESS" "\<not> ends"
      by (auto simp: mining_append_def dest!: write_to_file_frame
          split: Option.bind_split_asm option.split_asm if_split_asm)
    have "own_sync_at h' sync a (insert sync (insert ?n (G \<union> K))) ?c v"
      by (intro own_sync_at_frame [OF own1] same_except_store [OF h'(1)]) simp
    moreover have "heap_ok h'" by (rule heap_ok_same [OF h1(4) h'(1)])
    then have "evolves (F \<union> K) h (insert sync (insert ?n (G \<union> K))) h'"
      using h1(3) h'(1) n(2) *(3) by (auto simp: evolves_def same_except_def)
    ultimately show ?thesis using h'(2,3) by (intro exI [of _ "insert sync (insert ?n (G \<union> K))"]) simp
  next
    case False
    let ?h = "h\<lparr>brk := Suc (brk h)\<rparr>"
    have d: "d \<noteq> NULL" using b by (auto elim: own_blockE)
    have b': "own_block ?h d K b" by (intro own_block_frame [OF b]) simp
    with run blockchain_add_block_fail [OF *(4) d False] block_destroy_eq [OF b'] have
      h': "h' = free_all K ?h" "ends" by (auto simp: mining_append_def)
    have "own_sync_at h' sync a F c v"
      using disj h'(1) by (intro own_sync_at_frame [OF own]) (auto simp: free_all_store restrict_map_def)
    moreover have "same_except {} h ?h" by (simp add: same_except_def)
    then have "heap_ok h'" using heap_ok_same [OF ok] h'(1) by auto
    then have "evolves (F \<union> K) h F h'"
      using h'(1) disj by (auto simp: evolves_def same_except_def free_all_store restrict_map_def)
    ultimately show ?thesis using h'(2) False by auto
  qed
qed

lemma search_success:
  assumes "mining_outcome (good_proof e ssl z b) (mining_interrupt env v) 0 m SUCCESS p"
  shows "m < UINT64_MAX" "p = of_nat m" "mining_interrupt env v m = None"
    "leading_zeros z (hash_of e ssl (b\<lparr>bv_proof_of_work := p\<rparr>))"
  using assms by (auto simp: mining_outcome_def good_proof_def mining_interrupt_def split: if_splits option.splits)

text \<open>Everything that can come out of the search.\<close>

lemma mining_search_result:
  assumes run: "mining_search e ssl args env st d h = Some (rc, ends, fs, h')"
    and own: "own_sync_at h (mining_sync args) (mining_chain st) F c v"
    and b: "own_block h d K b" and disj: "F \<inter> K = {}"
    and ok: "heap_ok h" and ssl: "digest_ok ssl" "unat (cv_zeros c) \<le> 32"
  shows "\<exists>F' c'. own_sync_at h' (mining_sync args) (mining_chain st) F' c' v \<and> evolves (F \<union> K) h F' h' \<and>
    (c' = c \<or> (\<exists>p. c' = c\<lparr>cv_blocks := cv_blocks c @ [b\<lparr>bv_proof_of_work := p\<rparr>]\<rparr> \<and>
       leading_zeros (cv_zeros c) (hash_of e ssl (b\<lparr>bv_proof_of_work := p\<rparr>))))"
proof -
  from search_outcome [OF own b disj ok ssl, of e env "mined_version st"] obtain rc1 p h1 where
    m: "synchronized_blockchain_mine_block e ssl (mine_lock_ok env) (mine_unlock_ok env) (mining_sync args) d
      (Some (stop_seen env)) (Some (\<lambda>_. mined_version st)) (version_seen env) h = Some (rc1, h1)"
    "own_sync_at h1 (mining_sync args) (mining_chain st) F c v" "own_block h1 d K (b\<lparr>bv_proof_of_work := p\<rparr>)"
    "evolves (F \<union> K) h (F \<union> K) h1"
    "if mine_lock_ok env \<and> mine_unlock_ok env
     then \<exists>m. mining_outcome (good_proof e ssl (cv_zeros c) b) (mining_interrupt env (mined_version st)) 0 m rc1 p
     else rc1 = FAILURE_PTHREAD_FUNCTION" by blast
  have ok1: "heap_ok h1" using m(4) by (simp add: evolves_def)
  show ?thesis
  proof (cases "rc1 = SUCCESS")
    case True
    with m(5) have z: "leading_zeros (cv_zeros c) (hash_of e ssl (b\<lparr>bv_proof_of_work := p\<rparr>))"
      using search_success(4) by (auto split: if_splits)
    from run m(1) True have "mining_append e args env (mining_chain st) d (mining_files st) h1 = Some (rc, ends, fs, h')"
      by (simp add: mining_search_def)
    from mining_append_result [OF this m(2,3) disj ok1] obtain F' where
      "own_sync_at h' (mining_sync args) (mining_chain st) F'
        (if ends then c else c\<lparr>cv_blocks := cv_blocks c @ [b\<lparr>bv_proof_of_work := p\<rparr>]\<rparr>) v"
      "evolves (F \<union> K) h1 F' h'" by blast
    with z evolves_trans [OF m(4)] show ?thesis by (cases ends) (auto intro!: exI)
  next
    case False
    from run m(1) False block_destroy_eq [OF m(3)] have h': "h' = free_all K h1"
      by (auto simp: mining_search_def mining_give_up_def split: if_splits)
    have "own_sync_at h' (mining_sync args) (mining_chain st) F c v"
      using disj h' by (intro own_sync_at_frame [OF m(2)]) (auto simp: free_all_store restrict_map_def)
    with h' evolves_free [OF ok m(4) disj] show ?thesis by blast
  qed
qed

section \<open>What a round does\<close>

definition extended :: "endianness \<Rightarrow> openssl \<Rightarrow> ssh_key_t \<Rightarrow> chain_v \<Rightarrow> chain_v \<Rightarrow> bool" where
  "extended e ssl pub c c' \<longleftrightarrow>
     chain_ok e ssl c' \<and>
     (\<exists>b t. c' = c\<lparr>cv_blocks := cv_blocks c @ [b]\<rparr> \<and> bv_transactions b = [t] \<and> minted e ssl pub t)"

lemma new_block_extends:
  assumes c: "chain_ok e ssl c" "cv_blocks c = bs @ [g]" and b: "new_block e ssl pub now (hash_of e ssl g) b"
    and z: "leading_zeros (cv_zeros c) (hash_of e ssl (b\<lparr>bv_proof_of_work := p\<rparr>))"
    and wf: "wf_chain c" "digest_ok ssl"
  defines "c' \<equiv> c\<lparr>cv_blocks := cv_blocks c @ [b\<lparr>bv_proof_of_work := p\<rparr>]\<rparr>"
  shows "extended e ssl pub c c' \<and> wf_chain c'"
proof -
  from b obtain t where t: "bv_previous_block_hash b = hash_of e ssl g" "bv_transactions b = [t]" "minted e ssl pub t"
    by (auto simp: new_block_def)
  then have "block_ok e ssl (cv_zeros c) (hash_of e ssl g) (b\<lparr>bv_proof_of_work := p\<rparr>)"
    using z by (simp add: block_ok_def mints_def minted_def)
  moreover have "chain_ok e ssl (c\<lparr>cv_blocks := bs @ [g]\<rparr>)" using c by (cases c) simp
  ultimately have "chain_ok e ssl c'"
    unfolding c'_def c(2) by (subst chain_ok_snoc) simp
  moreover have "wf_block (b\<lparr>bv_proof_of_work := p\<rparr>)"
    using t wf(2) by (simp add: wf_block_def minted_def digest_ok_def hash_of_def)
  ultimately show ?thesis using t wf(1) by (auto simp: extended_def c'_def wf_chain_def)
qed

lemma mining_verify_valid:
  assumes "own_chain h a F c" "wf_chain c" "digest_ok ssl"
  shows "mining_verify e ssl a h = Some None \<longleftrightarrow> chain_ok e ssl c"
proof
  assume "mining_verify e ssl a h = Some None"
  then obtain x where "blockchain_verify e ssl a True True h = Some (SUCCESS, Some True, x)"
    by (auto simp: mining_verify_def split: Option.bind_split_asm if_split_asm)
  with verify_valid_iff [OF assms, of e True] show "chain_ok e ssl c" by blast
next
  assume "chain_ok e ssl c"
  with verify_valid_iff [OF assms, of e True]
  have "blockchain_verify e ssl a True True h = Some (SUCCESS, Some True, None)" by blast
  then show "mining_verify e ssl a h = Some None" by (simp add: mining_verify_def)
qed

lemma evolves_keep:
  assumes "evolves {} h K h'" "\<And>x. x \<in> F \<Longrightarrow> store h x \<noteq> None"
  shows "evolves F h (F \<union> K) h'" "F \<inter> K = {}" "\<And>x. x \<in> F \<Longrightarrow> store h' x = store h x"
  using assms by (auto simp: evolves_def same_except_def) force+

lemma mining_search_extends:
  assumes s: "mining_search e ssl args env st d h1 = Some (rc, ends, fs, h')"
    and own: "own_sync_at h (mining_sync args) (mining_chain st) F c (mined_version st)"
    and ev: "evolves {} h K h1" and b: "own_block h1 d K b" "new_block e ssl pub (block_time env) (hash_of e ssl g) b"
    and c: "chain_ok e ssl c" "cv_blocks c = bs @ [g]" "wf_chain c" "unat (cv_zeros c) \<le> 32" and ssl: "digest_ok ssl"
  shows "\<exists>F' c'. own_sync_at h' (mining_sync args) (mining_chain st) F' c' (mined_version st) \<and>
    evolves F h F' h' \<and> wf_chain c' \<and> (c' = c \<or> extended e ssl pub c c')"
proof -
  note keep = evolves_keep [OF ev own_sync_at_live [OF own]]
  have own1: "own_sync_at h1 (mining_sync args) (mining_chain st) F c (mined_version st)"
    by (rule own_sync_at_frame [OF own keep(3)])
  have "heap_ok h1" using ev by (simp add: evolves_def)
  from mining_search_result [OF s own1 b(1) keep(2) this ssl c(4)] obtain F' c' where
    r: "own_sync_at h' (mining_sync args) (mining_chain st) F' c' (mined_version st)" "evolves (F \<union> K) h1 F' h'"
    "c' = c \<or> (\<exists>p. c' = c\<lparr>cv_blocks := cv_blocks c @ [b\<lparr>bv_proof_of_work := p\<rparr>]\<rparr> \<and>
       leading_zeros (cv_zeros c) (hash_of e ssl (b\<lparr>bv_proof_of_work := p\<rparr>)))" by blast
  have "c' = c \<or> extended e ssl pub c c' \<and> wf_chain c'"
    using r(3) new_block_extends [OF c(1,2) b(2) _ c(3) ssl] by blast
  with r(1) evolves_trans [OF keep(1) r(2)] c(3) show ?thesis by auto
qed

text \<open>The ways a round of a current thread ends.\<close>

lemma mining_round_cases:
  assumes run: "mining_round e ssl args env st h = Some (rc, ends, st', h')"
    and refresh: "mining_refresh args env st h = Some (None, st, h)"
  obtains (invalid) code where "mining_verify e ssl (mining_chain st) h = Some (Some code)" "st' = st" "h' = h" "ends"
  | (unbuilt) d where "mining_verify e ssl (mining_chain st) h = Some None"
      "mining_next_block e ssl args env (mining_chain st) h = Some (rc, d, h')" "rc \<noteq> SUCCESS" "st' = st" "ends"
  | (searched) d h1 fs where "mining_verify e ssl (mining_chain st) h = Some None"
      "mining_next_block e ssl args env (mining_chain st) h = Some (SUCCESS, d, h1)"
      "mining_search e ssl args env st d h1 = Some (rc, ends, fs, h')" "st' = st\<lparr>mining_files := fs\<rparr>"
proof -
  from run refresh obtain r where v: "mining_verify e ssl (mining_chain st) h = Some r"
    by (auto simp: mining_round_def split: Option.bind_split_asm)
  show ?thesis
  proof (cases r)
    case (Some code)
    with run refresh v have "st' = st" "h' = h" "ends" by (simp_all add: mining_round_def)
    with v Some show ?thesis by (intro invalid) simp_all
  next
    case None
    then have v: "mining_verify e ssl (mining_chain st) h = Some None" using v by simp
    with run refresh obtain rc1 d h1 where n: "mining_next_block e ssl args env (mining_chain st) h = Some (rc1, d, h1)"
      by (auto simp: mining_round_def split: Option.bind_split_asm)
    show ?thesis
    proof (cases "rc1 = SUCCESS")
      case False
      with run refresh v n have "rc = rc1" "h' = h1" "st' = st" "ends" by (simp_all add: mining_round_def)
      with v n False show ?thesis by (intro unbuilt) simp_all
    next
      case True
      with run refresh v n obtain fs where
        s: "mining_search e ssl args env st d h1 = Some (rc, ends, fs, h')" "st' = st\<lparr>mining_files := fs\<rparr>"
        by (auto simp: mining_round_def split: Option.bind_split_asm)
      from n True have "mining_next_block e ssl args env (mining_chain st) h = Some (SUCCESS, d, h1)" by simp
      from searched [OF v this s] show ?thesis .
    qed
  qed
qed

lemma mining_next_block_any:
  assumes own: "own_chain h a F c" and ok: "heap_ok h" and keys: "miner_keys ssl args pub"
    and run: "mining_next_block e ssl args env a h = Some (rc, d, h1)"
  shows "if rc = SUCCESS
    then \<exists>bs g K b. cv_blocks c = bs @ [g] \<and> evolves {} h K h1 \<and> own_block h1 d K b \<and>
      new_block e ssl pub (block_time env) (hash_of e ssl g) b
    else evolves {} h {} h1"
proof (cases "cv_blocks c" rule: rev_cases)
  case Nil
  obtain t where "load_blockchain a h = Some t"
    "linked_list_get_last (block_list t) True h = Some (FAILURE_LINKED_LIST_EMPTY, None)"
    by (rule last_block_empty [OF own Nil])
  with run evolves_same [OF ok same_except_refl] show ?thesis by (auto simp: mining_next_block_def)
next
  case (snoc bs g)
  with mining_next_block_result [OF own snoc ok keys, of e env] run show ?thesis by (auto split: if_splits)
qed

lemma mining_round_result:
  assumes run: "mining_round e ssl args env st h = Some (rc, ends, st', h')"
    and own: "own_sync_at h (mining_sync args) (mining_chain st) F c (mined_version st)"
    and ok: "heap_ok h" "wf_chain c" "unat (cv_zeros c) \<le> 32" and keys: "miner_keys ssl args pub"
  shows "\<exists>F' c'. own_sync_at h' (mining_sync args) (mining_chain st') F' c' (mined_version st') \<and>
    mined_version st' = mined_version st \<and> evolves F h F' h' \<and> wf_chain c' \<and>
    (c' = c \<or> extended e ssl pub c c')"
  using own
proof (rule own_sync_atE)
  fix G
  assume *: "own_chain h (mining_chain st) G c"
    "load_sync (mining_sync args) h = Some \<lparr>sync_blockchain = mining_chain st, version = mined_version st\<rparr>"
  have refresh: "mining_refresh args env st h = Some (None, st, h)" using *(2) by (simp add: mining_refresh_def)
  have ssl: "digest_ok ssl" using keys by (simp add: miner_keys_def)
  have idle: ?thesis if "st' = st" "evolves {} h {} h'"
    using that evolves_keep [OF that(2) own_sync_at_live [OF own]] own_sync_at_frame [OF own, of h'] ok(2)
    by (intro exI [of _ F] exI [of _ c]) auto
  from run refresh show ?thesis
  proof (cases rule: mining_round_cases)
    case invalid
    with evolves_same [OF ok(1) same_except_refl] idle show ?thesis by simp
  next
    case unbuilt
    with mining_next_block_any [OF *(1) ok(1) keys unbuilt(2)] idle show ?thesis by simp
  next
    case (searched d h1 fs)
    then have c: "chain_ok e ssl c" using mining_verify_valid [OF *(1) ok(2) ssl] by simp
    from mining_next_block_any [OF *(1) ok(1) keys searched(2)] obtain bs g K b where
      n: "cv_blocks c = bs @ [g]" "evolves {} h K h1" "own_block h1 d K b"
      "new_block e ssl pub (block_time env) (hash_of e ssl g) b" by auto
    from mining_search_extends [OF searched(3) own n(2-4) c n(1) ok(2,3) ssl] searched(4) show ?thesis by auto
  qed
qed

section \<open>The whole thread\<close>

definition mined_from :: "endianness \<Rightarrow> openssl \<Rightarrow> ssh_key_t \<Rightarrow> chain_v \<Rightarrow> block_v list \<Rightarrow> chain_v \<Rightarrow> bool" where
  "mined_from e ssl pub c bs c' \<longleftrightarrow>
     c' = c\<lparr>cv_blocks := cv_blocks c @ bs\<rparr> \<and> (bs \<noteq> [] \<longrightarrow> chain_ok e ssl c') \<and>
     (\<forall>b \<in> set bs. \<exists>t. bv_transactions b = [t] \<and> minted e ssl pub t)"

lemma mined_from_refl: "mined_from e ssl pub c [] c"
  by (simp add: mined_from_def)

lemma mined_from_extended:
  assumes "mined_from e ssl pub c bs c1" "extended e ssl pub c1 c2"
  shows "\<exists>b. mined_from e ssl pub c (bs @ [b]) c2"
  using assms by (auto simp: mined_from_def extended_def)

definition mining_inv ::
  "endianness \<Rightarrow> openssl \<Rightarrow> mine_blocks_args \<Rightarrow> ssh_key_t \<Rightarrow> addr set \<Rightarrow> heap \<Rightarrow> chain_v \<Rightarrow> u64 \<Rightarrow>
   miner_state \<Rightarrow> heap \<Rightarrow> bool" where
  "mining_inv e ssl args pub F0 h0 c v st h \<longleftrightarrow>
     mined_version st = v \<and>
     (\<exists>F bs c'. own_sync_at h (mining_sync args) (mining_chain st) F c' v \<and> evolves F0 h0 F h \<and>
        wf_chain c' \<and> mined_from e ssl pub c bs c')"

lemma mining_round_inv:
  assumes "mining_round e ssl args env st h = Some (rc, ends, st', h')"
    and "mining_inv e ssl args pub F0 h0 c v st h" "miner_keys ssl args pub" "unat (cv_zeros c) \<le> 32"
  shows "mining_inv e ssl args pub F0 h0 c v st' h'"
proof -
  from assms(2) obtain F bs c1 where
    h: "mined_version st = v" "own_sync_at h (mining_sync args) (mining_chain st) F c1 (mined_version st)" "evolves F0 h0 F h"
    "wf_chain c1" "mined_from e ssl pub c bs c1"
    unfolding mining_inv_def by blast
  have "heap_ok h" "unat (cv_zeros c1) \<le> 32" using h(3,5) assms(4) by (simp_all add: evolves_def mined_from_def)
  from mining_round_result [OF assms(1) h(2) this(1) h(4) this(2) assms(3)] obtain F' c2 where
    h': "own_sync_at h' (mining_sync args) (mining_chain st') F' c2 (mined_version st')"
    "mined_version st' = mined_version st" "evolves F h F' h'" "wf_chain c2"
    "c2 = c1 \<or> extended e ssl pub c1 c2" by blast
  then have "\<exists>bs. mined_from e ssl pub c bs c2" using h(5) mined_from_extended by blast
  with h' h(1) evolves_trans [OF h(3) h'(3)] show ?thesis unfolding mining_inv_def by auto
qed

lemma mining_loop_inv:
  assumes "mining_loop e ssl args should_stop env i rc st h = Some r"
    and "mining_inv e ssl args pub F0 h0 c v st h" "miner_keys ssl args pub" "unat (cv_zeros c) \<le> 32"
  shows "mining_inv e ssl args pub F0 h0 c v (fst (snd (snd r))) (snd (snd (snd r)))"
proof -
  have "miner_keys ssl args pub \<longrightarrow> mining_inv e ssl args pub F0 h0 c v st h \<longrightarrow>
      mining_inv e ssl args pub F0 h0 c v (fst (snd (snd r))) (snd (snd (snd r)))"
    by (rule mining_loop.raw_induct [OF _ assms(1)])
      (auto split: if_split_asm Option.bind_split_asm dest: mining_round_inv [OF _ _ _ assms(4)])
  with assms(2,3) show ?thesis by blast
qed

lemma mine_blocks_result:
  assumes "mine_blocks e ssl (Some args) lock_ok unlock_ok should_stop env v fs h = Some (rc, ready, st, h')"
    and "own_sync h (mining_sync args) F c v" "heap_ok h" "wf_chain c" "unat (cv_zeros c) \<le> 32"
    and "miner_keys ssl args pub"
  shows "\<exists>F' bs c'. own_sync h' (mining_sync args) F' c' v \<and> evolves F h F' h' \<and>
    c' = c\<lparr>cv_blocks := cv_blocks c @ bs\<rparr> \<and> (bs \<noteq> [] \<longrightarrow> chain_ok e ssl c') \<and>
    (\<forall>b \<in> set bs. \<exists>t. bv_transactions b = [t] \<and> minted e ssl pub t)"
proof -
  from assms(2) obtain a where own: "own_sync_at h (mining_sync args) a F c v"
    by (rule own_syncE) (use own_sync_atI in blast)
  then have ld: "load_sync (mining_sync args) h = Some \<lparr>sync_blockchain = a, version = v\<rparr>" by (simp add: own_sync_at_def)
  let ?st = "\<lparr>mining_chain = a, mined_version = v, mining_files = fs\<rparr>"
  have inv: "mining_inv e ssl args pub F h c v ?st h"
    using own assms(4) evolves_same [OF assms(3) same_except_refl] mined_from_refl
    unfolding mining_inv_def by (intro conjI exI [of _ F] exI [of _ "[]"] exI [of _ c]) simp_all
  have "\<exists>h1 st1. h' = h1\<lparr>brk := Suc (brk h1)\<rparr> \<and>
      (h1 = h \<or> (\<exists>rc left. mining_loop e ssl args should_stop env 0 SUCCESS ?st h = Some (rc, left, st1, h1)))"
    using assms(1) ld by (auto simp: mine_blocks_def request_def split: Option.bind_split_asm if_split_asm)
  then obtain h1 st1 where h1: "h' = h1\<lparr>brk := Suc (brk h1)\<rparr>"
    "h1 = h \<or> (\<exists>rc left. mining_loop e ssl args should_stop env 0 SUCCESS ?st h = Some (rc, left, st1, h1))" by blast
  have "\<exists>st. mining_inv e ssl args pub F h c v st h1"
    using h1(2) inv mining_loop_inv [OF _ inv assms(6,5)] by fastforce
  then obtain st2 :: miner_state and F' bs c' where
    h2: "own_sync_at h1 (mining_sync args) (mining_chain st2) F' c' v" "evolves F h F' h1" "mined_from e ssl pub c bs c'"
    unfolding mining_inv_def by (elim exE conjE)
  have same: "same_except {} h1 h'" using h1(1) by (simp add: same_except_def)
  have "own_sync h' (mining_sync args) F' c' v"
    using own_sync_at_frame [OF h2(1) same_except_store [OF same]] by (simp add: own_sync_at_def)
  moreover have "evolves F h F' h'"
    using evolves_trans [OF h2(2) evolves_same [OF _ same]] h2(2) by (simp add: evolves_def)
  ultimately show ?thesis
    using h2(3) unfolding mined_from_def by blast
qed


section \<open>A round in detail\<close>

lemma length_enc_snoc:
  "length (enc_chain (c\<lparr>cv_blocks := cv_blocks c @ [b]\<rparr>)) = length (enc_chain c) + length (enc_block b)"
  by (simp add: enc_chain_def)

lemma mining_append_total:
  assumes own: "own_sync_at h sync a F c v" and b: "own_block h d K b" and disj: "F \<inter> K = {}"
    and ok: "heap_ok h" "\<forall>n. malloc_ok h n"
    and c': "wf_chain (c\<lparr>cv_blocks := cv_blocks c @ [b]\<rparr>)" "length (enc_chain (c\<lparr>cv_blocks := cv_blocks c @ [b]\<rparr>)) < 2 ^ 63"
  shows "\<exists>fs' h'. mining_append e args env a d fs h = Some (SUCCESS, False, fs', h') \<and>
    (\<forall>path. mining_outfile args = Some path \<and> outfile_opens env \<and> (\<forall>n. outfile_written env n = n) \<longrightarrow>
       fs' path = Some (enc_chain (c\<lparr>cv_blocks := cv_blocks c @ [b]\<rparr>)))"
  using own
proof (rule own_sync_atE)
  fix G
  let ?c = "c\<lparr>cv_blocks := cv_blocks c @ [b]\<rparr>"
  assume *: "F = insert sync G" "own_chain h a G c"
  have "G \<inter> K = {}" using disj *(1) by auto
  with *(2) b obtain h1 where h1: "blockchain_add_block a d h = Some (SUCCESS, h1)"
    "own_chain h1 a (insert (Suc (brk h)) (G \<union> K)) ?c" "same_except (insert (Suc (brk h)) G) h h1"
    using blockchain_add_block_ok [OF *(2) b _ ok(1), of thesis] ok(2) by metis
  have a: "a \<noteq> NULL" using own_chain_self [OF h1(2)] by simp
  have m1: "\<forall>n. malloc_ok h1 n" using h1(3) ok(2) by (simp add: same_except_def)
  from serialize_eq [OF h1(2) c', of e] m1 obtain h2 where
    "blockchain_serialize e a True True h1 = Some (SUCCESS, Some (enc_chain ?c, of_nat (length (enc_chain ?c))), h2)" by auto
  then have "\<exists>rc fs' h3. blockchain_write_to_file e (outfile_opens env) (outfile_written env) a (Some path) fs h1 =
        Some (rc, fs', h3) \<and> (outfile_opens env \<and> (\<forall>n. outfile_written env n = n) \<longrightarrow> fs' path = Some (enc_chain ?c))" for path
    using a c'(2) by (auto simp: blockchain_write_to_file_def load_bytes_def Let_def)
  note saved = this
  show ?thesis
  proof (cases "mining_outfile args")
    case None
    then show ?thesis using h1(1) blockchain_print_eq [OF h1(2)] by (simp add: mining_append_def)
  next
    case (Some path)
    from saved [of path] obtain rc fs' h3 where
      w: "blockchain_write_to_file e (outfile_opens env) (outfile_written env) a (Some path) fs h1 = Some (rc, fs', h3)"
      "outfile_opens env \<and> (\<forall>n. outfile_written env n = n) \<longrightarrow> fs' path = Some (enc_chain ?c)" by blast
    show ?thesis
      using Some w h1(1) blockchain_print_eq [OF h1(2)]
      by (intro exI [of _ fs'] exI [of _ h3]) (auto simp: mining_append_def)
  qed
qed

lemma mining_search_total:
  assumes own: "own_sync_at h (mining_sync args) (mining_chain st) F c v"
    and b: "own_block h d K b" and disj: "F \<inter> K = {}" and ok: "heap_ok h" "\<forall>n. malloc_ok h n"
    and ssl: "digest_ok ssl" "unat (cv_zeros c) \<le> 32" and lock: "mine_lock_ok env" "mine_unlock_ok env"
    and new: "\<And>k. wf_chain (c\<lparr>cv_blocks := cv_blocks c @ [b\<lparr>bv_proof_of_work := k\<rparr>]\<rparr>)"
      "\<And>k. length (enc_chain (c\<lparr>cv_blocks := cv_blocks c @ [b\<lparr>bv_proof_of_work := k\<rparr>]\<rparr>)) < 2 ^ 63"
  shows "\<exists>rc fs h' F' m. mining_search e ssl args env st d h = Some (rc, False, fs, h') \<and> evolves (F \<union> K) h F' h' \<and>
    m \<le> UINT64_MAX \<and>
    (\<forall>k < m. \<not> good_proof e ssl (cv_zeros c) b k \<and> mining_interrupt env (mined_version st) k = None) \<and>
    (if m < UINT64_MAX \<and> mining_interrupt env (mined_version st) m = None
     then let c' = c\<lparr>cv_blocks := cv_blocks c @ [b\<lparr>bv_proof_of_work := of_nat m\<rparr>]\<rparr>
       in good_proof e ssl (cv_zeros c) b m \<and> rc = SUCCESS \<and>
         own_sync_at h' (mining_sync args) (mining_chain st) F' c' v \<and>
         (\<forall>path. mining_outfile args = Some path \<and> outfile_opens env \<and> (\<forall>n. outfile_written env n = n) \<longrightarrow>
            fs path = Some (enc_chain c'))
     else own_sync_at h' (mining_sync args) (mining_chain st) F' c v)"
proof -
  from search_outcome [OF own b disj ok(1) ssl, of e env "mined_version st"] lock obtain rc p h1 m where
    s: "synchronized_blockchain_mine_block e ssl (mine_lock_ok env) (mine_unlock_ok env) (mining_sync args) d
      (Some (stop_seen env)) (Some (\<lambda>_. mined_version st)) (version_seen env) h = Some (rc, h1)"
    "own_sync_at h1 (mining_sync args) (mining_chain st) F c v" "own_block h1 d K (b\<lparr>bv_proof_of_work := p\<rparr>)"
    "evolves (F \<union> K) h (F \<union> K) h1"
    "mining_outcome (good_proof e ssl (cv_zeros c) b) (mining_interrupt env (mined_version st)) 0 m rc p" by auto
  have m: "m \<le> UINT64_MAX"
    "\<forall>k < m. \<not> good_proof e ssl (cv_zeros c) b k \<and> mining_interrupt env (mined_version st) k = None"
    using s(5) by (simp_all add: mining_outcome_def)
  have ok1: "heap_ok h1" "\<forall>n. malloc_ok h1 n" using s(4) ok(2) by (simp_all add: evolves_def same_except_def)
  show ?thesis
  proof (cases "rc = SUCCESS")
    case True
    note found = search_success [OF s(5) [unfolded True]]
    from mining_append_total [OF s(2,3) disj ok1 new, of e args env "mining_files st"] obtain fs h' where
      a: "mining_append e args env (mining_chain st) d (mining_files st) h1 = Some (SUCCESS, False, fs, h')"
      "\<forall>path. mining_outfile args = Some path \<and> outfile_opens env \<and> (\<forall>n. outfile_written env n = n) \<longrightarrow>
         fs path = Some (enc_chain (c\<lparr>cv_blocks := cv_blocks c @ [b\<lparr>bv_proof_of_work := p\<rparr>]\<rparr>))" by blast
    from mining_append_result [OF a(1) s(2,3) disj ok1(1)] obtain F' where
      r: "own_sync_at h' (mining_sync args) (mining_chain st) F' (c\<lparr>cv_blocks := cv_blocks c @ [b\<lparr>bv_proof_of_work := p\<rparr>]\<rparr>) v"
      "evolves (F \<union> K) h1 F' h'" by auto
    have "mining_search e ssl args env st d h = Some (SUCCESS, False, fs, h')"
      using s(1) True a(1) by (simp add: mining_search_def)
    with m found a(2) r(1) evolves_trans [OF s(4) r(2)] show ?thesis
      by (intro exI [of _ SUCCESS] exI [of _ fs] exI [of _ h'] exI [of _ F'] exI [of _ m])
        (simp add: good_proof_def Let_def)
  next
    case False
    let ?h = "free_all K h1"
    have "\<not> (m < UINT64_MAX \<and> mining_interrupt env (mined_version st) m = None)"
      using s(5) False by (auto simp: mining_outcome_def split: option.splits)
    moreover have "rc = FAILURE_COULD_NOT_FIND_VALID_PROOF_OF_WORK \<or> rc = FAILURE_LONGER_BLOCKCHAIN_DETECTED \<or>
        rc = FAILURE_STOPPED_EARLY"
      using s(5) False by (auto simp: mining_outcome_def mining_interrupt_def split: if_splits option.splits)
    then have "\<exists>rc'. mining_search e ssl args env st d h = Some (rc', False, mining_files st, ?h)"
      using s(1) False block_destroy_eq [OF s(3)] by (auto simp: mining_search_def mining_give_up_def)
    moreover have "own_sync_at ?h (mining_sync args) (mining_chain st) F c v"
      using disj by (intro own_sync_at_frame [OF s(2)]) (auto simp: free_all_store restrict_map_def)
    ultimately show ?thesis
      using m evolves_free [OF ok(1) s(4) disj] by (auto intro!: exI [of _ F] exI [of _ m])
  qed
qed

lemma mining_round_total:
  assumes "own_sync_at h (mining_sync args) (mining_chain st) F c (mined_version st)"
    and "heap_ok h" "\<forall>n. malloc_ok h n" "chain_ok e ssl c" "cv_blocks c \<noteq> []" "wf_chain c" "unat (cv_zeros c) \<le> 32"
    and "length (enc_chain c) + 9000 < 2 ^ 63" "miner_keys ssl args pub" "mine_lock_ok env" "mine_unlock_ok env"
  shows "\<exists>rc st' h' F' m t. mining_round e ssl args env st h = Some (rc, False, st', h') \<and> evolves F h F' h' \<and>
    minted e ssl pub t \<and> m \<le> UINT64_MAX \<and>
    (let b = (\<lambda>k. \<lparr>bv_created_at = block_time env, bv_transactions = [t], bv_proof_of_work = of_nat k,
           bv_previous_block_hash = hash_of e ssl (last (cv_blocks c))\<rparr>);
         good = (\<lambda>k. leading_zeros (cv_zeros c) (hash_of e ssl (b k)));
         stops = (\<lambda>k. stop_seen env k \<or> version_seen env k \<noteq> mined_version st);
         c' = c\<lparr>cv_blocks := cv_blocks c @ [b m]\<rparr>
     in (\<forall>k < m. \<not> good k \<and> \<not> stops k) \<and>
        (if m < UINT64_MAX \<and> \<not> stops m
         then good m \<and> rc = SUCCESS \<and> chain_ok e ssl c' \<and>
           own_sync_at h' (mining_sync args) (mining_chain st') F' c' (mined_version st') \<and>
           (\<forall>path. mining_outfile args = Some path \<and> outfile_opens env \<and> (\<forall>n. outfile_written env n = n) \<longrightarrow>
              mining_files st' path = Some (enc_chain c'))
         else own_sync_at h' (mining_sync args) (mining_chain st') F' c (mined_version st')))"
proof -
  from assms(5) obtain bs g where g: "cv_blocks c = bs @ [g]" by (cases "cv_blocks c" rule: rev_cases) auto
  have ssl: "digest_ok ssl" using assms(9) by (simp add: miner_keys_def)
  obtain G where G: "own_chain h (mining_chain st) G c"
    "load_sync (mining_sync args) h = Some \<lparr>sync_blockchain = mining_chain st, version = mined_version st\<rparr>"
    by (rule own_sync_atE [OF assms(1)])
  from mining_next_block_result [OF G(1) g assms(2,9), of e env] assms(3) obtain d K t h1 where
    n: "mining_next_block e ssl args env (mining_chain st) h = Some (SUCCESS, d, h1)" "evolves {} h K h1"
    "own_block h1 d K \<lparr>bv_created_at = block_time env, bv_transactions = [t], bv_proof_of_work = 0,
       bv_previous_block_hash = hash_of e ssl g\<rparr>" "minted e ssl pub t"
    by (auto simp: new_block_def split: if_splits)
  let ?b = "\<lparr>bv_created_at = block_time env, bv_transactions = [t], bv_proof_of_work = 0,
    bv_previous_block_hash = hash_of e ssl g\<rparr>"
  let ?ext = "\<lambda>k. c\<lparr>cv_blocks := cv_blocks c @ [?b\<lparr>bv_proof_of_work := k\<rparr>]\<rparr>"
  note keep = evolves_keep [OF n(2) own_sync_at_live [OF assms(1)]]
  have own1: "own_sync_at h1 (mining_sync args) (mining_chain st) F c (mined_version st)"
    by (rule own_sync_at_frame [OF assms(1) keep(3)])
  have ok1: "heap_ok h1" "\<forall>n. malloc_ok h1 n" using n(2) assms(3) by (simp_all add: evolves_def same_except_def)
  have nb: "new_block e ssl pub (block_time env) (hash_of e ssl g) ?b" using n(4) by (simp add: new_block_def)
  have t: "wf_transaction t" using n(4) by (simp add: minted_def)
  then have wf: "wf_chain (?ext k)" for k
    using assms(6) ssl by (simp add: wf_chain_def wf_block_def digest_ok_def hash_of_def)
  have "length (enc_transaction t) = 8728" using t by (simp add: enc_transaction_def wf_transaction_def)
  then have len: "length (enc_chain (?ext k)) < 2 ^ 63" for k
    using assms(8) ssl length_enc_snoc [of c "?b\<lparr>bv_proof_of_work := k\<rparr>"]
    by (simp add: enc_block_def digest_ok_def hash_of_def)
  from mining_search_total [OF own1 n(3) keep(2) ok1 ssl assms(7,10,11) wf len, of e] obtain rc fs h' F' m where
    s: "mining_search e ssl args env st d h1 = Some (rc, False, fs, h')" "evolves (F \<union> K) h1 F' h'" "m \<le> UINT64_MAX"
    "\<forall>k < m. \<not> good_proof e ssl (cv_zeros c) ?b k \<and> mining_interrupt env (mined_version st) k = None"
    "if m < UINT64_MAX \<and> mining_interrupt env (mined_version st) m = None
     then let c' = ?ext (of_nat m) in good_proof e ssl (cv_zeros c) ?b m \<and> rc = SUCCESS \<and>
         own_sync_at h' (mining_sync args) (mining_chain st) F' c' (mined_version st) \<and>
         (\<forall>path. mining_outfile args = Some path \<and> outfile_opens env \<and> (\<forall>n. outfile_written env n = n) \<longrightarrow>
            fs path = Some (enc_chain c'))
     else own_sync_at h' (mining_sync args) (mining_chain st) F' c (mined_version st)" by blast
  have stops: "mining_interrupt env (mined_version st) k = None \<longleftrightarrow> \<not> (stop_seen env k \<or> version_seen env k \<noteq> mined_version st)" for k
    by (auto simp: mining_interrupt_def)
  have valid: "chain_ok e ssl (?ext (of_nat m))" if "good_proof e ssl (cv_zeros c) ?b m"
    using new_block_extends [OF assms(4) g nb _ assms(6) ssl, of "of_nat m"] that by (simp add: good_proof_def extended_def)
  have "mining_verify e ssl (mining_chain st) h = Some None"
    using mining_verify_valid [OF G(1) assms(6) ssl] assms(4) by simp
  then have run: "mining_round e ssl args env st h = Some (rc, False, st\<lparr>mining_files := fs\<rparr>, h')"
    using G(2) n(1) s(1) by (simp add: mining_round_def mining_refresh_def)
  show ?thesis
    using run evolves_trans [OF keep(1) s(2)] n(4) s(3-5) valid g unfolding stops
    by (intro exI [of _ rc] exI [of _ "st\<lparr>mining_files := fs\<rparr>"] exI [of _ h'] exI [of _ F'] exI [of _ m] exI [of _ t])
      (auto simp: Let_def good_proof_def)
qed

text \<open>
  C19. One round of mining on a valid chain, with a working allocator and mutexes.  The round
  comes to an end.  The search stops at the first number that makes the hash of the block start
  with the required zero bytes, or at the first one where it is told to stop or sees another
  version; in the first case the chain grows by a block with this proof of work and one minting
  transaction and is still valid, and the file, if one is given and can be written, holds the
  encoding of the new chain; in the others the chain stays as it was and the block is released.
\<close>

theorem mining_round_outcome:
  assumes "own_sync_at h (mining_sync args) (mining_chain st) F c (mined_version st)"
    and "heap_ok h" "\<forall>n. malloc_ok h n" "chain_ok e ssl c" "cv_blocks c \<noteq> []" "wf_chain c" "unat (cv_zeros c) \<le> 32"
    and "length (enc_chain c) + 9000 < 2 ^ 63" "miner_keys ssl args pub" "mine_lock_ok env" "mine_unlock_ok env"
  shows "\<exists>rc st' h' F' m t. mining_round e ssl args env st h = Some (rc, False, st', h') \<and> evolves F h F' h' \<and>
    minted e ssl pub t \<and> m \<le> UINT64_MAX \<and>
    (let b = (\<lambda>k. \<lparr>bv_created_at = block_time env, bv_transactions = [t], bv_proof_of_work = of_nat k,
           bv_previous_block_hash = hash_of e ssl (last (cv_blocks c))\<rparr>);
         good = (\<lambda>k. leading_zeros (cv_zeros c) (hash_of e ssl (b k)));
         stops = (\<lambda>k. stop_seen env k \<or> version_seen env k \<noteq> mined_version st);
         c' = c\<lparr>cv_blocks := cv_blocks c @ [b m]\<rparr>
     in (\<forall>k < m. \<not> good k \<and> \<not> stops k) \<and>
        (if m < UINT64_MAX \<and> \<not> stops m
         then good m \<and> rc = SUCCESS \<and> chain_ok e ssl c' \<and>
           own_sync_at h' (mining_sync args) (mining_chain st') F' c' (mined_version st') \<and>
           (\<forall>path. mining_outfile args = Some path \<and> outfile_opens env \<and> (\<forall>n. outfile_written env n = n) \<longrightarrow>
              mining_files st' path = Some (enc_chain c'))
         else own_sync_at h' (mining_sync args) (mining_chain st') F' c (mined_version st')))"
  by (rule mining_round_total [OF assms])

text \<open>A miner whose first attempt succeeds.\<close>

definition example_mining_args :: "addr \<Rightarrow> mine_blocks_args" where
  "example_mining_args sync = \<lparr>mining_sync = sync, miner_public_key = Some (replicate 4096 3),
     miner_private_key = Some (replicate 4096 4), mining_progress = True, mining_outfile = Some ''chain''\<rparr>"

definition example_mining_env :: mining_env where
  "example_mining_env = \<lparr>refresh_lock_ok = True, refresh_unlock_ok = True, signal_lock_ok = True, signal_unlock_ok = True,
     transaction_time = 8, block_time = 9, mine_lock_ok = True, mine_unlock_ok = True, stop_seen = (\<lambda>_. False),
     version_seen = (\<lambda>_. 0), outfile_opens = True, outfile_written = (\<lambda>n. n)\<rparr>"

lemma example_mining_sync [simp]: "mining_sync (example_mining_args sync) = sync"
  by (simp add: example_mining_args_def)

lemma example_miner:
  "miner_keys example_openssl (example_mining_args sync) (replicate 4096 3)"
  "mine_lock_ok example_mining_env" "mine_unlock_ok example_mining_env"
  "chain_ok e example_openssl (example_chain [])" "cv_blocks (example_chain []) \<noteq> []"
  "unat (cv_zeros (example_chain [])) \<le> 32" "length (enc_chain (example_chain [])) + 9000 < 2 ^ 63"
proof -
  have "key_pair example_openssl (replicate 4096 4) (replicate 4096 3)"
    by (auto simp: key_pair_def example_openssl_def)
  then show "miner_keys example_openssl (example_mining_args sync) (replicate 4096 3)"
    using example_openssl_ok by (simp add: miner_keys_def example_mining_args_def)
  show "length (enc_chain (example_chain [])) + 9000 < 2 ^ 63"
    by (simp add: enc_chain_def example_chain_def enc_block_def genesis_v_def)
qed (simp_all add: example_mining_env_def example_chain_def chain_ok_def example_genesis_ok)

lemma example_miner_state:
  obtains h sync a F where "own_sync_at h sync a F (example_chain []) 0" "heap_ok h" "\<forall>n. malloc_ok h n"
proof -
  obtain h sync F where h: "own_sync h sync F (example_chain []) 0" "heap_ok h" "\<forall>n. malloc_ok h n"
    using sync_representable by blast
  from h(1) obtain a where "own_sync_at h sync a F (example_chain []) 0"
    by (rule own_syncE) (use own_sync_atI in blast)
  with h(2,3) that show ?thesis by blast
qed

lemma example_zeros: "leading_zeros (cv_zeros (example_chain [])) (hash_of e example_openssl b)"
  unfolding example_hash by (simp add: leading_zeros_def example_chain_def)

lemma example_mining_round:
  assumes "own_sync_at h sync a F (example_chain []) 0" "heap_ok h" "\<forall>n. malloc_ok h n"
  obtains rc st' h' F' where "mining_round Little example_openssl (example_mining_args sync) example_mining_env
    \<lparr>mining_chain = a, mined_version = 0, mining_files = Map.empty\<rparr> h = Some (rc, False, st', h')" "evolves F h F' h'"
proof -
  let ?args = "example_mining_args sync" and ?st = "\<lparr>mining_chain = a, mined_version = 0, mining_files = Map.empty\<rparr>"
  have own: "own_sync_at h (mining_sync ?args) (mining_chain ?st) F (example_chain []) (mined_version ?st)"
    using assms(1) by (simp add: example_mining_args_def)
  from mining_round_total [OF own assms(2,3) example_miner(4,5) example_chains(1) example_miner(6,7,1,2,3), of Little] that
  show ?thesis by (elim exE conjE) blast
qed

theorem mining_round_outcome_witness:
  "\<exists>h sync a F rc st' h'. own_sync_at h sync a F (example_chain []) 0 \<and>
     mining_round Little example_openssl (example_mining_args sync) example_mining_env
       \<lparr>mining_chain = a, mined_version = 0, mining_files = Map.empty\<rparr> h = Some (rc, False, st', h')"
proof -
  obtain h sync a F where h: "own_sync_at h sync a F (example_chain []) 0" "heap_ok h" "\<forall>n. malloc_ok h n"
    by (rule example_miner_state)
  let ?args = "example_mining_args sync" and ?st = "\<lparr>mining_chain = a, mined_version = 0, mining_files = Map.empty\<rparr>"
  have own: "own_sync_at h (mining_sync ?args) (mining_chain ?st) F (example_chain []) (mined_version ?st)"
    using h(1) by (simp add: example_mining_args_def)
  from mining_round_outcome [OF own h(2,3) example_miner(4,5) example_chains(1) example_miner(6,7,1,2,3), of Little] h(1)
  show ?thesis by (elim exE conjE) blast
qed


section \<open>The miner and the consensus server\<close>

text \<open>Every access of the thread to a chain that is gone is undefined behaviour.\<close>

lemma mining_freed_chain:
  assumes "store h a = None" "a \<noteq> NULL"
  shows "blockchain_destroy a h = None" "mining_verify e ssl a h = None" "mining_next_block e ssl args env a h = None"
    "b \<noteq> NULL \<Longrightarrow> mining_append e args env a b fs h = None"
proof -
  have "load_blockchain a h = None" using assms by (simp add: load_blockchain_def load_data_def load_obj_def)
  then show "blockchain_destroy a h = None" "mining_verify e ssl a h = None" "mining_next_block e ssl args env a h = None"
    "b \<noteq> NULL \<Longrightarrow> mining_append e args env a b fs h = None"
    using assms(2)
    by (simp_all add: blockchain_destroy_def mining_verify_def blockchain_verify_def mining_next_block_def
        mining_append_def blockchain_add_block_def)
qed

text \<open>
  C29. A request that makes the server take over a better chain breaks the mining thread, wherever it is in
  its round, since the server destroys the chain the thread works on without telling it.  Between two rounds,
  the next round destroys the chain a second time; after its check of the version, the thread verifies the
  freed chain, or takes the last block of it, or, having found a proof of work, appends its block to it.
  Each is undefined behaviour.
\<close>

theorem chain_switch_double_free:
  assumes "own_sync_at h (mining_sync args) (mining_chain st) F c (mined_version st)"
    and "wf_chain c" "length (enc_chain c) + 24 < 2 ^ 63"
    and "sends_chain conn hdr c'" "wire_chain c'" "length (enc_chain c') + 24 < 2 ^ 63" "verifiable e ssl c'"
    and "heap_ok h" "digest_ok ssl" "conn_ok conn" "\<forall>n. malloc_ok h n"
    and "better e ssl c c'" "refresh_lock_ok env" "refresh_unlock_ok env" "next_block \<noteq> NULL"
  shows "\<exists>sent h'. handle_one_consensus_request e ssl conn (mining_sync args) h = Some (Code SUCCESS, sent, h') \<and>
    mining_round e ssl args env st h' = None \<and>
    mining_verify e ssl (mining_chain st) h' = None \<and>
    mining_next_block e ssl args env (mining_chain st) h' = None \<and>
    mining_append e args env (mining_chain st) next_block fs h' = None"
proof -
  let ?sync = "mining_sync args" and ?a = "mining_chain st"
  have own: "own_sync h ?sync F c (mined_version st)" using assms(1) by (simp add: own_sync_at_def)
  from consensus_request_ok [OF own assms(2-11)] assms(12) obtain sent h' K where
    h': "handle_one_consensus_request e ssl conn ?sync h = Some (Code SUCCESS, sent, h')"
    "own_sync h' ?sync (insert ?sync K) c' (mined_version st + 1)" "\<forall>x \<in> F - {?sync}. store h' x = None" by auto
  obtain a' where ld: "load_sync ?sync h' = Some \<lparr>sync_blockchain = a', version = mined_version st + 1\<rparr>"
    using h'(2) by (rule own_syncE) (use load_sync_store in blast)
  obtain G where G: "?sync \<notin> G" "F = insert ?sync G" "own_chain h ?a G c" by (rule own_sync_atE [OF assms(1)])
  then have a: "?a \<in> G" "?a \<noteq> NULL" using own_chain_self by blast+
  then have "store h' ?a = None" using h'(3) G(1,2) by auto
  note gone = mining_freed_chain [OF this a(2)]
  have "mining_round e ssl args env st h' = None"
    using ld assms(13,14) gone(1) by (simp add: mining_round_def mining_refresh_def)
  with h'(1) gone(2-4) assms(15) show ?thesis by blast
qed

theorem chain_switch_double_free_witness:
  "\<exists>h sync a F conn sent h'. own_sync_at h sync a F (example_chain []) 0 \<and>
     handle_one_consensus_request Little example_openssl conn sync h = Some (Code SUCCESS, sent, h') \<and>
     mining_round Little example_openssl (example_mining_args sync) example_mining_env
       \<lparr>mining_chain = a, mined_version = 0, mining_files = Map.empty\<rparr> h' = None \<and>
     mining_append Little (example_mining_args sync) example_mining_env a 77 Map.empty h' = None"
proof -
  let ?c = "example_chain [example_block]"
  obtain conn hdr where req: "sends_chain conn hdr ?c" "conn_ok conn" using example_request by blast
  obtain h sync a F where h: "own_sync_at h sync a F (example_chain []) 0" "heap_ok h" "\<forall>n. malloc_ok h n"
    by (rule example_miner_state)
  let ?args = "example_mining_args sync" and ?st = "\<lparr>mining_chain = a, mined_version = 0, mining_files = Map.empty\<rparr>"
  have own: "own_sync_at h (mining_sync ?args) (mining_chain ?st) F (example_chain []) (mined_version ?st)"
    using h(1) by (simp add: example_mining_args_def)
  have env: "refresh_lock_ok example_mining_env" "refresh_unlock_ok example_mining_env"
    by (simp_all add: example_mining_env_def)
  have "(77 :: addr) \<noteq> NULL" by simp
  from chain_switch_double_free [OF own example_chains(1,2) req(1) example_chain_wire(1) example_chains(3,4) h(2)
      example_openssl_ok(3) req(2) h(3) example_chains(5) env this, of Little Map.empty] h(1)
  show ?thesis unfolding example_mining_sync by simp blast
qed

end
