(* ===== verification/Node.thy ===== *)
theory Node imports Mining_Thread begin

text \<open>
  A node runs the mining thread and the consensus server on one shared chain.  The mining thread
  works on the chain without holding the mutex, so requests are served between any two of the parts
  of its round: the check of the version, the verification of the chain, the construction of a block, the
  search for its proof of work and the appending of it.  A step is one such part or a request; a run is
  any sequence of steps.  A part that works on a chain the server has replaced is not a step: as
  \<^verbatim>\<open>Mining_Thread\<close> shows, it is undefined behaviour.
\<close>

section \<open>Steps\<close>

text \<open>What the mining thread does next; \<open>addr\<close> is the block it has built.\<close>

datatype miner_phase = Starting | Verifying | Building | Searching addr | Appending addr | Ended

type_synonym node_state = "miner_state \<times> miner_phase \<times> heap"

definition mining_current :: "mine_blocks_args \<Rightarrow> miner_state \<Rightarrow> heap \<Rightarrow> bool" where
  "mining_current args st h \<longleftrightarrow>
     load_sync (mining_sync args) h = Some \<lparr>sync_blockchain = mining_chain st, version = mined_version st\<rparr>"

text \<open>The heap holds fewer than \<open>2^64 - 1\<close> objects, as every 64-bit address space does.\<close>

definition fits_memory :: "heap \<Rightarrow> bool" where
  "fits_memory h \<longleftrightarrow> card (dom (store h)) < 2 ^ 64 - 1"

text \<open>The search with what the environment shows to it.\<close>

definition search_block ::
  "endianness \<Rightarrow> openssl \<Rightarrow> mine_blocks_args \<Rightarrow> mining_env \<Rightarrow> miner_state \<Rightarrow> addr \<Rightarrow> heap \<Rightarrow> (return_code_t \<times> heap) option" where
  "search_block e ssl args env st next_block h =
     synchronized_blockchain_mine_block e ssl (mine_lock_ok env) (mine_unlock_ok env) (mining_sync args) next_block
       (Some (stop_seen env)) (Some (\<lambda>_. mined_version st)) (version_seen env) h"

inductive node_step :: "endianness \<Rightarrow> openssl \<Rightarrow> mine_blocks_args \<Rightarrow> node_state \<Rightarrow> node_state \<Rightarrow> bool"
  for e ssl args where
  refresh: "mining_current args st h \<Longrightarrow> mining_refresh args env st h = Some (r, st', h') \<Longrightarrow>
    node_step e ssl args (st, Starting, h) (st', if r = None then Verifying else Ended, h')"
| verify: "mining_current args st h \<Longrightarrow> mining_verify e ssl (mining_chain st) h = Some r \<Longrightarrow>
    node_step e ssl args (st, Verifying, h) (st, if r = None then Building else Ended, h)"
| build: "mining_current args st h \<Longrightarrow> mining_next_block e ssl args env (mining_chain st) h = Some (rc, b, h') \<Longrightarrow>
    node_step e ssl args (st, Building, h) (st, if rc = SUCCESS then Searching b else Ended, h')"
| found: "search_block e ssl args env st b h = Some (SUCCESS, h') \<Longrightarrow>
    node_step e ssl args (st, Searching b, h) (st, Appending b, h')"
| give_up: "search_block e ssl args env st b h = Some (rc, h1) \<Longrightarrow> rc \<noteq> SUCCESS \<Longrightarrow>
    mining_give_up rc b h1 = Some (rc', ends, h') \<Longrightarrow>
    node_step e ssl args (st, Searching b, h) (st, if ends then Ended else Starting, h')"
| append: "mining_current args st h \<Longrightarrow> fits_memory h \<Longrightarrow>
    mining_append e args env (mining_chain st) b (mining_files st) h = Some (rc, ends, fs, h') \<Longrightarrow>
    node_step e ssl args (st, Appending b, h) (st\<lparr>mining_files := fs\<rparr>, if ends then Ended else Starting, h')"
| serve: "handle_one_consensus_request e ssl conn (mining_sync args) h = Some (status, sent, h') \<Longrightarrow>
    node_step e ssl args (st, ph, h) (st, ph, h')"

inductive_cases node_step_EndedE: "node_step e ssl args (st, Ended, h) s'"
inductive_cases node_step_AppendingE: "node_step e ssl args s (st', Appending b, h')"
inductive_simps node_step_Searching: "node_step e ssl args (st, Searching b, h) s'"

text \<open>
  A mining thread that has ended takes no further step, however many requests are served.  Only a
  block for which the search has found a proof of work comes to be appended.
\<close>

lemma ended_absorbing:
  assumes "(node_step e ssl args)\<^sup>*\<^sup>* (st, Ended, h) s'"
  shows "\<exists>h'. s' = (st, Ended, h')"
  using assms by (induction rule: rtranclp_induct) (auto elim: node_step_EndedE)

lemma searching_keeps_block:
  "node_step e ssl args (st, Searching b, h) (st', ph, h') \<Longrightarrow> ph \<in> {Searching b, Appending b, Starting, Ended}"
  by (auto simp: node_step_Searching split: if_split_asm)

lemma appending_was_searched:
  assumes "node_step e ssl args (st, ph, h) (st', Appending b, h')"
  shows "st' = st \<and> (ph = Appending b \<or> ph = Searching b \<and> (\<exists>env. search_block e ssl args env st b h = Some (SUCCESS, h')))"
  using assms by (rule node_step_AppendingE) (auto split: if_split_asm)

section \<open>The chain of a node\<close>

text \<open>\<open>c\<close> is the chain \<open>c0\<close> or a valid one that is longer.\<close>

definition succeeds :: "endianness \<Rightarrow> openssl \<Rightarrow> chain_v \<Rightarrow> chain_v \<Rightarrow> bool" where
  "succeeds e ssl c0 c \<longleftrightarrow> c = c0 \<or> better e ssl c0 c"

lemma succeeds_trans: "succeeds e ssl c0 c1 \<Longrightarrow> succeeds e ssl c1 c2 \<Longrightarrow> succeeds e ssl c0 c2"
  by (auto simp: succeeds_def better_def)

lemma succeeds_extended: "extended e ssl pub c c' \<Longrightarrow> succeeds e ssl c c'"
  by (auto simp: extended_def succeeds_def better_def)

lemma seg_length:
  "own_seg own_block h p F bs r \<Longrightarrow> finite F \<Longrightarrow> length bs \<le> card F"
proof (induction bs arbitrary: p F)
  case (Cons b bs)
  from Cons.prems(1) show ?case
  proof (rule blk.seg_ConsE)
    fix d q G H
    assume *: "own_seg own_block h q H bs r" "p \<notin> G" "p \<notin> H" "F = insert p (G \<union> H)"
    then have "length bs \<le> card H" using Cons.IH Cons.prems(2) by simp
    also have "card H \<le> card (G \<union> H)" using *(4) Cons.prems(2) by (intro card_mono) auto
    finally show ?thesis using * Cons.prems(2) by simp
  qed
qed simp

lemma fits_memory_length:
  assumes "own_sync h sync F c v" "heap_ok h" "fits_memory h"
  shows "length (cv_blocks c) < 2 ^ 64 - 1"
proof -
  have "dom (store h) \<subseteq> {0..brk h}" using assms(2) by (auto simp: heap_ok_def)
  then have fin: "finite (dom (store h))" by (rule finite_subset) simp
  have "F \<subseteq> dom (store h)" using own_sync_live [OF assms(1)] by auto
  moreover obtain p G where "own_seg own_block h p G (cv_blocks c) NULL" "G \<subseteq> F"
    using assms(1) by (auto elim!: own_syncE own_chainE blk.ll_list)
  ultimately have "length (cv_blocks c) \<le> card (dom (store h))"
    using seg_length [of h p G "cv_blocks c" NULL] fin by (meson card_mono finite_subset le_trans)
  then show ?thesis using assms(3) by (simp add: fits_memory_def)
qed

text \<open>A block the miner has built on the chain \<open>c\<close>, with any proof of work.\<close>

definition candidate :: "endianness \<Rightarrow> openssl \<Rightarrow> ssh_key_t \<Rightarrow> chain_v \<Rightarrow> block_v \<Rightarrow> bool" where
  "candidate e ssl pub c b \<longleftrightarrow>
     chain_ok e ssl c \<and> (\<exists>bs g now b0 p. cv_blocks c = bs @ [g] \<and> new_block e ssl pub now (hash_of e ssl g) b0 \<and>
       b = b0\<lparr>bv_proof_of_work := p\<rparr>)"

lemma candidate_proof_of_work:
  assumes "candidate e ssl pub c b"
  shows "candidate e ssl pub c (b\<lparr>bv_proof_of_work := p\<rparr>)"
proof -
  from assms obtain bs g now b0 q where "chain_ok e ssl c" "cv_blocks c = bs @ [g]"
    "new_block e ssl pub now (hash_of e ssl g) b0" "b = b0\<lparr>bv_proof_of_work := q\<rparr>"
    unfolding candidate_def by blast
  moreover from this(4) have "b\<lparr>bv_proof_of_work := p\<rparr> = b0\<lparr>bv_proof_of_work := p\<rparr>" by simp
  ultimately show ?thesis unfolding candidate_def by blast
qed

lemma candidate_extends:
  assumes "candidate e ssl pub c b" "leading_zeros (cv_zeros c) (hash_of e ssl b)" "wf_chain c" "digest_ok ssl"
  shows "extended e ssl pub c (c\<lparr>cv_blocks := cv_blocks c @ [b]\<rparr>)" "wf_chain (c\<lparr>cv_blocks := cv_blocks c @ [b]\<rparr>)"
  using assms new_block_extends unfolding candidate_def by blast+

text \<open>
  What the mining thread knows in each phase of a chain \<open>c\<close> with the objects \<open>F\<close>.  Its block is its own; what it
  knows of the block and the chain holds while the chain is the one it mines on.
\<close>

fun phase_inv ::
  "endianness \<Rightarrow> openssl \<Rightarrow> ssh_key_t \<Rightarrow> bool \<Rightarrow> addr set \<Rightarrow> chain_v \<Rightarrow> heap \<Rightarrow> miner_phase \<Rightarrow> bool" where
  "phase_inv e ssl pub current F c h Building \<longleftrightarrow> (current \<longrightarrow> chain_ok e ssl c)"
| "phase_inv e ssl pub current F c h (Searching d) \<longleftrightarrow>
     (\<exists>K b. own_block h d K b \<and> F \<inter> K = {} \<and> (current \<longrightarrow> candidate e ssl pub c b))"
| "phase_inv e ssl pub current F c h (Appending d) \<longleftrightarrow>
     (\<exists>K b. own_block h d K b \<and> F \<inter> K = {} \<and>
        (current \<longrightarrow> candidate e ssl pub c b \<and> leading_zeros (cv_zeros c) (hash_of e ssl b)))"
| "phase_inv e ssl pub current F c h _ \<longleftrightarrow> True"

text \<open>
  \<open>k\<close> counts the chains the server has taken over since the thread last looked.  As each is longer than the
  one before, the version cannot wrap around and seem current again.
\<close>

definition node_inv ::
  "endianness \<Rightarrow> openssl \<Rightarrow> mine_blocks_args \<Rightarrow> ssh_key_t \<Rightarrow> chain_v \<Rightarrow> node_state \<Rightarrow> bool" where
  "node_inv e ssl args pub c0 = (\<lambda>(st, ph, h).
     heap_ok h \<and> (\<exists>F c k. own_sync h (mining_sync args) F c (mined_version st + of_nat k) \<and> wf_chain c \<and>
        length (cv_blocks c) < 2 ^ 64 \<and> k \<le> length (cv_blocks c) \<and> succeeds e ssl c0 c \<and>
        phase_inv e ssl pub (k = 0) F c h ph))"

lemma node_invI:
  assumes "heap_ok h" "own_sync h (mining_sync args) F c (mined_version st + of_nat k)" "wf_chain c"
    "length (cv_blocks c) < 2 ^ 64" "k \<le> length (cv_blocks c)" "succeeds e ssl c0 c" "phase_inv e ssl pub (k = 0) F c h ph"
  shows "node_inv e ssl args pub c0 (st, ph, h)"
  using assms unfolding node_inv_def by blast

lemma node_invE:
  assumes "node_inv e ssl args pub c0 (st, ph, h)"
  obtains F c k where "heap_ok h" "own_sync h (mining_sync args) F c (mined_version st + of_nat k)" "wf_chain c"
    "length (cv_blocks c) < 2 ^ 64" "k \<le> length (cv_blocks c)" "succeeds e ssl c0 c" "phase_inv e ssl pub (k = 0) F c h ph"
  using assms unfolding node_inv_def by blast

text \<open>While the thread is current, it owns its view of the shared chain.\<close>

lemma node_invE_current:
  assumes "node_inv e ssl args pub c0 (st, ph, h)" "mining_current args st h"
  obtains F c where "heap_ok h" "own_sync_at h (mining_sync args) (mining_chain st) F c (mined_version st)" "wf_chain c"
    "length (cv_blocks c) < 2 ^ 64" "succeeds e ssl c0 c" "phase_inv e ssl pub True F c h ph"
  using assms(1)
proof (rule node_invE)
  fix F c k
  assume *: "heap_ok h" "own_sync h (mining_sync args) F c (mined_version st + of_nat k)" "wf_chain c"
    "length (cv_blocks c) < 2 ^ 64" "k \<le> length (cv_blocks c)" "succeeds e ssl c0 c" "phase_inv e ssl pub (k = 0) F c h ph"
  have "mined_version st + of_nat k = mined_version st"
    using assms(2) *(2) unfolding mining_current_def by (auto elim!: own_syncE simp: load_sync_store)
  then have "(of_nat k :: u64) = 0" by simp
  moreover have "unat (of_nat k :: u64) = k"
    using *(4,5) by (simp add: unsigned_of_nat take_bit_nat_eq_self)
  ultimately have "k = 0" by simp
  with * that assms(2) show ?thesis by (auto simp: own_sync_at_def mining_current_def)
qed

lemma idle_inv:
  assumes "heap_ok h" "own_sync_at h (mining_sync args) (mining_chain st) F c (mined_version st)" "wf_chain c"
    "length (cv_blocks c) < 2 ^ 64" "succeeds e ssl c0 c" "phase_inv e ssl pub True F c h ph"
  shows "node_inv e ssl args pub c0 (st, ph, h)"
  using assms by (intro node_invI [where k = 0 and F = F and c = c]) (simp_all add: own_sync_at_def)

section \<open>Each step keeps it\<close>

lemma build_keeps:
  assumes "node_inv e ssl args pub c0 (st, Building, h)" "mining_current args st h" "miner_keys ssl args pub"
    and "mining_next_block e ssl args env (mining_chain st) h = Some (rc, d, h')"
  shows "node_inv e ssl args pub c0 (st, if rc = SUCCESS then Searching d else Ended, h')"
  using assms(1,2)
proof (rule node_invE_current)
  fix F c
  assume *: "heap_ok h" "own_sync_at h (mining_sync args) (mining_chain st) F c (mined_version st)" "wf_chain c"
    "length (cv_blocks c) < 2 ^ 64" "succeeds e ssl c0 c" "phase_inv e ssl pub True F c h Building"
  obtain G where G: "own_chain h (mining_chain st) G c" by (rule own_sync_atE [OF *(2)])
  show ?thesis
  proof (cases "cv_blocks c" rule: rev_cases)
    case Nil
    obtain t where "load_blockchain (mining_chain st) h = Some t"
      "linked_list_get_last (block_list t) True h = Some (FAILURE_LINKED_LIST_EMPTY, None)"
      by (rule last_block_empty [OF G Nil])
    with assms(4) have "rc \<noteq> SUCCESS" "h' = h" by (auto simp: mining_next_block_def)
    with idle_inv [OF *(1-5), of pub Ended] show ?thesis by simp
  next
    case (snoc bs g)
    from mining_next_block_result [OF G snoc *(1) assms(3), of e env] assms(4) obtain K b where
      n: "evolves {} h K h'" "rc = SUCCESS \<longrightarrow> own_block h' d K b \<and> new_block e ssl pub (block_time env) (hash_of e ssl g) b"
      by (auto split: if_split_asm)
    note keep = evolves_keep [OF n(1) own_sync_at_live [OF *(2)]]
    have own: "own_sync_at h' (mining_sync args) (mining_chain st) F c (mined_version st)"
      by (rule own_sync_at_frame [OF *(2) keep(3)])
    have ok: "heap_ok h'" using n(1) by (simp add: evolves_def)
    have "candidate e ssl pub c b" if "rc = SUCCESS"
    proof -
      have "b = b\<lparr>bv_proof_of_work := bv_proof_of_work b\<rparr>" by simp
      with n(2) that snoc *(6) show ?thesis unfolding candidate_def phase_inv.simps by blast
    qed
    then have "phase_inv e ssl pub True F c h' (if rc = SUCCESS then Searching d else Ended)"
      using n(2) keep(2) by auto
    then show ?thesis by (rule idle_inv [OF ok own *(3-5)])
  qed
qed

lemma search_block_outcome:
  assumes "search_block e ssl args env st d h = Some (rc, h1)" "own_sync_at h (mining_sync args) a F c v"
    and "own_block h d K b" "F \<inter> K = {}" "heap_ok h" "digest_ok ssl" "unat (cv_zeros c) \<le> 32"
  obtains p where "own_sync_at h1 (mining_sync args) a F c v" "own_block h1 d K (b\<lparr>bv_proof_of_work := p\<rparr>)" "heap_ok h1"
    "rc = SUCCESS \<longrightarrow> leading_zeros (cv_zeros c) (hash_of e ssl (b\<lparr>bv_proof_of_work := p\<rparr>))"
proof -
  from search_outcome [OF assms(2-7), of e env "mined_version st"] obtain rc' p h1' where
    s: "search_block e ssl args env st d h = Some (rc', h1')" "own_sync_at h1' (mining_sync args) a F c v"
    "own_block h1' d K (b\<lparr>bv_proof_of_work := p\<rparr>)" "evolves (F \<union> K) h (F \<union> K) h1'"
    "if mine_lock_ok env \<and> mine_unlock_ok env
     then \<exists>m. mining_outcome (good_proof e ssl (cv_zeros c) b) (mining_interrupt env (mined_version st)) 0 m rc' p
     else rc' = FAILURE_PTHREAD_FUNCTION" unfolding search_block_def by blast
  have eq: "rc' = rc" "h1' = h1" using s(1) assms(1) by simp_all
  have "leading_zeros (cv_zeros c) (hash_of e ssl (b\<lparr>bv_proof_of_work := p\<rparr>))" if "rc = SUCCESS"
    using s(5) search_success(4) that unfolding eq by (auto split: if_split_asm)
  moreover have "heap_ok h1" using s(4) unfolding eq by (simp add: evolves_def)
  ultimately show ?thesis using that s(2,3) unfolding eq by blast
qed

text \<open>The search, on the chain the node has at that time.\<close>

lemma search_keeps:
  assumes "node_inv e ssl args pub c0 (st, Searching d, h)" "search_block e ssl args env st d h = Some (rc, h1)"
    and "digest_ok ssl" "unat (cv_zeros c0) \<le> 32"
  shows "rc = SUCCESS \<Longrightarrow> node_inv e ssl args pub c0 (st, Appending d, h1)"
    and "mining_give_up rc d h1 = Some (rc', ends, h') \<Longrightarrow>
      node_inv e ssl args pub c0 (st, if ends then Ended else Starting, h')"
proof -
  obtain F c k where *: "heap_ok h" "own_sync h (mining_sync args) F c (mined_version st + of_nat k)"
    "wf_chain c" "length (cv_blocks c) < 2 ^ 64" "k \<le> length (cv_blocks c)" "succeeds e ssl c0 c"
    "phase_inv e ssl pub (k = 0) F c h (Searching d)"
    by (rule node_invE [OF assms(1)])
  from *(7) obtain K b where b: "own_block h d K b" "F \<inter> K = {}" "k = 0 \<longrightarrow> candidate e ssl pub c b"
    unfolding phase_inv.simps by blast
  obtain a where own: "own_sync_at h (mining_sync args) a F c (mined_version st + of_nat k)"
    using *(2) by (rule own_syncE) (use own_sync_atI in blast)
  have z: "unat (cv_zeros c) \<le> 32" using *(6) assms(4) by (auto simp: succeeds_def better_def)
  obtain p where s: "own_sync_at h1 (mining_sync args) a F c (mined_version st + of_nat k)"
    "own_block h1 d K (b\<lparr>bv_proof_of_work := p\<rparr>)" "heap_ok h1"
    "rc = SUCCESS \<longrightarrow> leading_zeros (cv_zeros c) (hash_of e ssl (b\<lparr>bv_proof_of_work := p\<rparr>))"
    by (rule search_block_outcome [OF assms(2) own b(1,2) *(1) assms(3) z])
  have cand: "candidate e ssl pub c (b\<lparr>bv_proof_of_work := p\<rparr>)" if "k = 0"
    using b(3) that candidate_proof_of_work by blast
  {
    assume "rc = SUCCESS"
    with s(4) have "leading_zeros (cv_zeros c) (hash_of e ssl (b\<lparr>bv_proof_of_work := p\<rparr>))" by blast
    then have "phase_inv e ssl pub (k = 0) F c h1 (Appending d)" unfolding phase_inv.simps using s(2) b(2) cand by blast
    from node_invI [OF s(3) _ *(3-6) this] s(1) show "node_inv e ssl args pub c0 (st, Appending d, h1)"
      by (simp add: own_sync_at_def)
  }
  assume "mining_give_up rc d h1 = Some (rc', ends, h')"
  with block_destroy_eq [OF s(2)] have h': "h' = free_all K h1" by (auto simp: mining_give_up_def split: if_split_asm)
  have frame: "store h' x = store h1 x" if "x \<in> F" for x
    using that b(2) by (auto simp: h' free_all_store restrict_map_def)
  have "own_sync h1 (mining_sync args) F c (mined_version st + of_nat k)" using s(1) by (simp add: own_sync_at_def)
  then have own': "own_sync h' (mining_sync args) F c (mined_version st + of_nat k)" by (rule own_sync_frame [OF _ frame])
  have "heap_ok h'" "phase_inv e ssl pub (k = 0) F c h' (if ends then Ended else Starting)" using s(3) by (auto simp: h')
  from node_invI [OF this(1) own' *(3-6) this(2)]
  show "node_inv e ssl args pub c0 (st, if ends then Ended else Starting, h')" .
qed

lemma append_keeps:
  assumes "node_inv e ssl args pub c0 (st, Appending d, h)" "mining_current args st h" "fits_memory h" "digest_ok ssl"
    and "mining_append e args env (mining_chain st) d fs h = Some (rc, ends, fs', h')"
  shows "node_inv e ssl args pub c0 (st\<lparr>mining_files := fs'\<rparr>, if ends then Ended else Starting, h')"
  using assms(1,2)
proof (rule node_invE_current)
  fix F c
  assume *: "heap_ok h" "own_sync_at h (mining_sync args) (mining_chain st) F c (mined_version st)" "wf_chain c"
    "succeeds e ssl c0 c" "phase_inv e ssl pub True F c h (Appending d)"
  then obtain K b where b: "own_block h d K b" "F \<inter> K = {}" "candidate e ssl pub c b"
    "leading_zeros (cv_zeros c) (hash_of e ssl b)" by auto
  let ?c = "if ends then c else c\<lparr>cv_blocks := cv_blocks c @ [b]\<rparr>"
  from mining_append_result [OF assms(5) *(2) b(1,2) *(1)] obtain F' where
    a: "own_sync_at h' (mining_sync args) (mining_chain st) F' ?c (mined_version st)" "heap_ok h'"
    by (auto simp: evolves_def)
  have "own_sync h (mining_sync args) F c (mined_version st)" using *(2) by (simp add: own_sync_at_def)
  from fits_memory_length [OF this *(1) assms(3)] have "length (cv_blocks ?c) < 2 ^ 64" by simp
  moreover note ext = candidate_extends [OF b(3,4) *(3) assms(4)]
  then have "succeeds e ssl c0 ?c" "wf_chain ?c" using *(3,4) succeeds_trans [OF *(4) succeeds_extended] by auto
  ultimately show ?thesis
    using a by (intro idle_inv [where F = F' and c = ?c]) simp_all
qed

text \<open>A request keeps the block of the miner, and if it changes the chain the miner is no longer current.\<close>

lemma phase_inv_frame:
  assumes "phase_inv e ssl pub cur F c h ph" "\<And>x. x \<notin> F \<Longrightarrow> store h x \<noteq> None \<Longrightarrow> store h' x = store h x"
  shows "phase_inv e ssl pub cur F c h' ph"
    and "(\<And>x. x \<in> F' \<Longrightarrow> x \<in> F \<or> store h x = None) \<Longrightarrow> phase_inv e ssl pub False F' c' h' ph"
proof -
  have block: "own_block h' d K b" "F' \<inter> K = {}"
    if "own_block h d K b" "F \<inter> K = {}" "\<And>x. x \<in> F' \<Longrightarrow> x \<in> F \<or> store h x = None" for d K b F'
  proof -
    have live: "store h x \<noteq> None" if "x \<in> K" for x using blk.own_live [OF \<open>own_block h d K b\<close> that] .
    show "own_block h' d K b" using that(2) live by (intro own_block_frame [OF that(1)] assms(2)) auto
    show "F' \<inter> K = {}" using that(2,3) live by blast
  qed
  show "phase_inv e ssl pub cur F c h' ph" using assms(1) block [of _ _ _ F] by (cases ph) fastforce+
  show "phase_inv e ssl pub False F' c' h' ph" if "\<And>x. x \<in> F' \<Longrightarrow> x \<in> F \<or> store h x = None"
    using assms(1) block [of _ _ _ F'] that by (cases ph) fastforce+
qed

lemma serve_keeps:
  assumes "node_inv e ssl args pub c0 (st, ph, h)" "digest_ok ssl"
    "handle_one_consensus_request e ssl conn (mining_sync args) h = Some (status, sent, h')"
  shows "node_inv e ssl args pub c0 (st, ph, h')"
  using assms(1)
proof (rule node_invE)
  fix F c k
  let ?sync = "mining_sync args"
  assume *: "heap_ok h" "own_sync h ?sync F c (mined_version st + of_nat k)" "wf_chain c"
    "length (cv_blocks c) < 2 ^ 64" "k \<le> length (cv_blocks c)" "succeeds e ssl c0 c" "phase_inv e ssl pub (k = 0) F c h ph"
  from consensus_request_leaves [OF assms(3) *(2,4,1) assms(2)] show ?thesis
  proof (elim disjE exE conjE)
    assume h': "own_sync h' ?sync F c (mined_version st + of_nat k)" "leaves {} h h'"
    have "phase_inv e ssl pub (k = 0) F c h' ph"
      using h'(2) by (intro phase_inv_frame(1) [OF *(7)]) (simp add: leaves_def)
    with h' *(3-6) show ?thesis
      by (intro node_invI [where k = k and F = F and c = c]) (simp_all add: leaves_def)
  next
    fix c' K
    assume h': "better e ssl c c'" "wf_chain c'" "length (cv_blocks c') < 2 ^ 64"
      "own_sync h' ?sync (insert ?sync K) c' (mined_version st + of_nat k + 1)" "leaves F h h'" "\<forall>x \<in> K. store h x = None"
    have "phase_inv e ssl pub False (insert ?sync K) c' h' ph"
      using h'(5,6) *(2) by (intro phase_inv_frame(2) [OF *(7)]) (auto simp: leaves_def elim: own_syncE)
    moreover have "succeeds e ssl c c'" using h'(1) by (simp add: succeeds_def)
    moreover have "mined_version st + of_nat (Suc k) = mined_version st + of_nat k + 1" by simp
    then have "own_sync h' ?sync (insert ?sync K) c' (mined_version st + of_nat (Suc k))" using h'(4) by metis
    moreover have "Suc k \<le> length (cv_blocks c')" using h'(1) *(5) by (simp add: better_def)
    ultimately show ?thesis using h'(2,3,5) succeeds_trans [OF *(6)]
      by (intro node_invI [where k = "Suc k" and F = "insert ?sync K" and c = c']) (simp_all add: leaves_def)
  qed
qed

lemma node_step_inv:
  assumes "node_step e ssl args s s'" "node_inv e ssl args pub c0 s" "miner_keys ssl args pub" "unat (cv_zeros c0) \<le> 32"
  shows "node_inv e ssl args pub c0 s'"
  using assms(1,2)
proof (induction rule: node_step.induct)
  case (refresh st h env r st' h')
  then have "r = None" "st' = st" "h' = h" by (auto simp: mining_refresh_def mining_current_def)
  with refresh show ?case by (auto elim!: node_invE_current intro!: idle_inv)
next
  case (verify st h r)
  show ?case
  proof (rule node_invE_current [OF verify(3,1)])
    fix F c
    assume *: "heap_ok h" "own_sync_at h (mining_sync args) (mining_chain st) F c (mined_version st)" "wf_chain c"
      "length (cv_blocks c) < 2 ^ 64" "succeeds e ssl c0 c"
    obtain G where G: "own_chain h (mining_chain st) G c" by (rule own_sync_atE [OF *(2)])
    have "chain_ok e ssl c" if "r = None"
      using mining_verify_valid [OF G *(3)] verify(2) that assms(3) by (auto simp: miner_keys_def)
    then show ?thesis by (intro idle_inv [OF *(1-5)]) simp
  qed
next
  case build
  then show ?case using build_keeps assms(3) by blast
next
  case found
  then show ?case using search_keeps(1) assms(3,4) by (auto simp: miner_keys_def)
next
  case give_up
  then show ?case using search_keeps(2) assms(3,4) by (auto simp: miner_keys_def)
next
  case append
  then show ?case using append_keeps assms(3) by (auto simp: miner_keys_def)
next
  case serve
  then show ?case using serve_keeps assms(3) by (auto simp: miner_keys_def)
qed

text \<open>A round of the miner is a run in which no request comes in between.\<close>

lemma round_stays_current:
  assumes own: "own_sync_at h (mining_sync args) (mining_chain st) F c (mined_version st)"
    and ok: "heap_ok h" "wf_chain c" "unat (cv_zeros c) \<le> 32" and keys: "miner_keys ssl args pub"
    and build: "mining_next_block e ssl args env (mining_chain st) h = Some (SUCCESS, b, h1)"
    and search: "search_block e ssl args env st b h1 = Some (SUCCESS, h2)"
  shows "mining_current args st h2"
proof -
  obtain G where G: "own_chain h (mining_chain st) G c" by (rule own_sync_atE [OF own])
  from mining_next_block_any [OF G ok(1) keys build] obtain K bv where
    n: "evolves {} h K h1" "own_block h1 b K bv" by auto
  note keep = evolves_keep [OF n(1) own_sync_at_live [OF own]]
  have own1: "own_sync_at h1 (mining_sync args) (mining_chain st) F c (mined_version st)"
    by (rule own_sync_at_frame [OF own keep(3)])
  have "heap_ok h1" "digest_ok ssl" using n(1) keys by (simp_all add: evolves_def miner_keys_def)
  then have "own_sync_at h2 (mining_sync args) (mining_chain st) F c (mined_version st)"
    using search_block_outcome [OF search own1 n(2) keep(2) _ _ ok(3)] by metis
  then show ?thesis by (simp add: mining_current_def own_sync_at_def)
qed

text \<open>The steps of a round after the search.\<close>

lemma search_steps:
  assumes s: "mining_search e ssl args env st b h1 = Some (rc, ends, fs, h')"
    and cur: "\<And>h2. search_block e ssl args env st b h1 = Some (SUCCESS, h2) \<Longrightarrow> mining_current args st h2 \<and> fits_memory h2"
  shows "(node_step e ssl args)\<^sup>*\<^sup>* (st, Searching b, h1) (st\<lparr>mining_files := fs\<rparr>, if ends then Ended else Starting, h')"
proof -
  from s obtain rc2 h2 where m: "search_block e ssl args env st b h1 = Some (rc2, h2)"
    by (auto simp: mining_search_def search_block_def split: Option.bind_split_asm)
  show ?thesis
  proof (cases "rc2 = SUCCESS")
    case False
    with s m obtain code where "mining_give_up rc2 b h2 = Some (code, ends, h')" "st\<lparr>mining_files := fs\<rparr> = st"
      by (auto simp: mining_search_def search_block_def split: Option.bind_split_asm)
    with node_step.give_up [OF m False] show ?thesis by auto
  next
    case True
    with s m have a: "mining_append e args env (mining_chain st) b (mining_files st) h2 = Some (rc, ends, fs, h')"
      by (simp add: mining_search_def search_block_def)
    have m': "search_block e ssl args env st b h1 = Some (SUCCESS, h2)" using m True by simp
    from cur [OF m'] have "mining_current args st h2" "fits_memory h2" by simp_all
    from node_step.append [OF this a] node_step.found [OF m'] show ?thesis
      by (meson converse_rtranclp_into_rtranclp r_into_rtranclp)
  qed
qed

lemma round_steps:
  assumes run: "mining_round e ssl args env st h = Some (rc, ends, st', h')"
    and own: "own_sync_at h (mining_sync args) (mining_chain st) F c (mined_version st)"
    and ok: "heap_ok h" "wf_chain c" "unat (cv_zeros c) \<le> 32" and keys: "miner_keys ssl args pub"
    and fits: "\<And>b h1 h2. mining_next_block e ssl args env (mining_chain st) h = Some (SUCCESS, b, h1) \<Longrightarrow>
      search_block e ssl args env st b h1 = Some (SUCCESS, h2) \<Longrightarrow> fits_memory h2"
  shows "(node_step e ssl args)\<^sup>*\<^sup>* (st, Starting, h) (st', if ends then Ended else Starting, h')"
proof -
  let ?step = "node_step e ssl args"
  have cur: "mining_current args st h" using own by (simp add: mining_current_def own_sync_at_def)
  then have refresh: "mining_refresh args env st h = Some (None, st, h)" by (simp add: mining_refresh_def mining_current_def)
  have s1: "?step (st, Starting, h) (st, Verifying, h)" using node_step.refresh [OF cur refresh] by simp
  from run refresh show ?thesis
  proof (cases rule: mining_round_cases)
    case (invalid code)
    with s1 node_step.verify [OF cur invalid(1)] show ?thesis by simp
  next
    case (unbuilt d)
    with s1 node_step.verify [OF cur unbuilt(1)] node_step.build [OF cur unbuilt(2)] show ?thesis by simp
  next
    case (searched b h1 fs)
    have "?step\<^sup>*\<^sup>* (st, Searching b, h1) (st', if ends then Ended else Starting, h')"
      unfolding searched(4) using round_stays_current [OF own ok keys searched(2)] fits [OF searched(2)]
      by (intro search_steps [OF searched(3)]) blast
    with s1 node_step.verify [OF cur searched(1)] node_step.build [OF cur searched(2)] show ?thesis
      by (simp add: converse_rtranclp_into_rtranclp)
  qed
qed

lemma node_run_inv:
  assumes "(node_step e ssl args)\<^sup>*\<^sup>* (st, Starting, h) s'" "mining_current args st h"
    and "own_sync h (mining_sync args) F c v" "wf_chain c" "length (cv_blocks c) < 2 ^ 64" "unat (cv_zeros c) \<le> 32"
    and "heap_ok h" "miner_keys ssl args pub"
  shows "node_inv e ssl args pub c s'"
proof -
  have "v = mined_version st"
    using assms(2,3) unfolding mining_current_def by (auto elim!: own_syncE simp: load_sync_store)
  then have "node_inv e ssl args pub c (st, Starting, h)"
    using assms(3-5,7) by (intro node_invI [where k = 0 and F = F and c = c]) (simp_all add: succeeds_def)
  with assms(1) show ?thesis
    by (induction rule: rtranclp_induct) (auto dest: node_step_inv [OF _ _ assms(8,6)])
qed



text \<open>A node with a chain of one block.\<close>

definition example_node_heap :: heap where
  "example_node_heap = empty_heap\<lparr>brk := 6, store :=
     [1 \<mapsto> DataObj (BlockchainObj \<lparr>block_list = 2, num_leading_zero_bytes = 2\<rparr>),
      2 \<mapsto> ListObj \<lparr>free_function = BLOCK_DESTROY, compare_function = None, head = 6\<rparr>,
      3 \<mapsto> ListObj \<lparr>free_function = TRANSACTION_DESTROY, compare_function = None, head = NULL\<rparr>,
      4 \<mapsto> DataObj (BlockObj \<lparr>block_created_at = 4, transaction_list = 3, proof_of_work = 2017,
             previous_block_hash = replicate 32 0\<rparr>),
      5 \<mapsto> DataObj (SyncObj \<lparr>sync_blockchain = 1, version = 0\<rparr>),
      6 \<mapsto> NodeObj \<lparr>node_data = 4, node_next = NULL\<rparr>]\<rparr>"

lemma example_node_store [simp]:
  "store example_node_heap (Suc 0) = Some (DataObj (BlockchainObj \<lparr>block_list = 2, num_leading_zero_bytes = 2\<rparr>))"
  "store example_node_heap 2 = Some (ListObj \<lparr>free_function = BLOCK_DESTROY, compare_function = None, head = 6\<rparr>)"
  "store example_node_heap 3 = Some (ListObj \<lparr>free_function = TRANSACTION_DESTROY, compare_function = None, head = NULL\<rparr>)"
  "store example_node_heap 4 = Some (DataObj (BlockObj \<lparr>block_created_at = 4, transaction_list = 3, proof_of_work = 2017,
     previous_block_hash = replicate 32 0\<rparr>))"
  "store example_node_heap 5 = Some (DataObj (SyncObj \<lparr>sync_blockchain = 1, version = 0\<rparr>))"
  "store example_node_heap 6 = Some (NodeObj \<lparr>node_data = 4, node_next = NULL\<rparr>)"
  by (simp_all add: example_node_heap_def)

lemma example_node_brk [simp]: "brk example_node_heap = 6" "malloc_ok example_node_heap n"
  by (simp_all add: example_node_heap_def empty_heap_def)

lemma example_node_dom: "dom (store example_node_heap) \<subseteq> {1, 2, 3, 4, 5, 6}"
  by (auto simp: example_node_heap_def split: if_split_asm)

lemma example_node_blocks: "own_seg own_block example_node_heap 6 {6, 4, 3} [genesis_v 4] NULL"
proof -
  let ?h = "example_node_heap"
  have "own_ll own_transaction TRANSACTION_DESTROY None ?h 3 {3} []"
    by (rule tx.ll_I [where p = NULL and G = "{}"]) simp_all
  then have "own_block ?h 4 {4, 3} (genesis_v 4)"
    unfolding own_block_def own_transaction_list_def genesis_v_def
    by (intro exI [of _ 3] exI [of _ "{3}"]) simp
  then show ?thesis
    by (intro blk.seg_ConsI [where d = 4 and q = NULL and G = "{4, 3}" and H = "{}"]) simp_all
qed

lemma example_node_chain: "own_chain example_node_heap 1 {1, 2, 6, 4, 3} (example_chain [])"
proof -
  have "own_ll own_block BLOCK_DESTROY None example_node_heap 2 {2, 6, 4, 3} [genesis_v 4]"
    by (rule blk.ll_I [OF _ _ example_node_blocks]) simp_all
  then show ?thesis
    unfolding own_chain_def example_chain_def
    by (intro exI [of _ 2] exI [of _ "{2, 6, 4, 3}"]) simp
qed

lemma example_node:
  "own_sync_at example_node_heap 5 1 {5, 1, 2, 6, 4, 3} (example_chain []) 0" "heap_ok example_node_heap"
  "\<forall>n. malloc_ok example_node_heap n" "fits_memory example_node_heap"
proof -
  show "own_sync_at example_node_heap 5 1 {5, 1, 2, 6, 4, 3} (example_chain []) 0"
    by (intro own_sync_atI [OF _ _ example_node_chain]) simp_all
  show "heap_ok example_node_heap"
    using example_node_dom by (fastforce simp: heap_ok_def)
  show "\<forall>n. malloc_ok example_node_heap n" by simp
  have "card (dom (store example_node_heap)) \<le> 6"
    using card_mono [OF _ example_node_dom] by simp
  then show "fits_memory example_node_heap" by (simp add: fits_memory_def)
qed

text \<open>The miner checks the version and the chain, and then a peer's request fails.\<close>

lemma example_node_run:
  obtains h' where "(node_step Little example_openssl (example_mining_args 5))\<^sup>*\<^sup>*
       (\<lparr>mining_chain = 1, mined_version = 0, mining_files = Map.empty\<rparr>, Starting, example_node_heap)
       (\<lparr>mining_chain = 1, mined_version = 0, mining_files = Map.empty\<rparr>, Building, h')"
    "mining_current (example_mining_args 5) \<lparr>mining_chain = 1, mined_version = 0, mining_files = Map.empty\<rparr> example_node_heap"
    "own_sync example_node_heap (mining_sync (example_mining_args 5)) {5, 1, 2, 6, 4, 3} (example_chain []) 0"
    "length (cv_blocks (example_chain [])) < 2 ^ 64"
proof -
  let ?h = "example_node_heap"
  let ?args = "example_mining_args 5" and ?st = "\<lparr>mining_chain = 1, mined_version = 0, mining_files = Map.empty\<rparr>"
  let ?conn = "(example_connection [] [])\<lparr>conn_recv := (\<lambda>k i n. None)\<rparr>"
  have own: "own_sync ?h (mining_sync ?args) {5, 1, 2, 6, 4, 3} (example_chain []) 0"
    using example_node(1) by (simp add: own_sync_at_def)
  have "handle_one_consensus_request Little example_openssl ?conn (mining_sync ?args) ?h \<noteq> None"
    by (simp add: handle_one_consensus_request_def receive_request_def calloc_buf_eq recv_all_at_def
        recv_all_def recv_all_loop.simps)
  then obtain status sent h' where s: "handle_one_consensus_request Little example_openssl ?conn (mining_sync ?args) ?h =
      Some (status, sent, h')" by auto
  have cur: "mining_current ?args ?st ?h" using example_node(1) by (simp add: mining_current_def own_sync_at_def)
  then have "mining_refresh ?args example_mining_env ?st ?h = Some (None, ?st, ?h)"
    by (simp add: mining_refresh_def mining_current_def)
  from node_step.refresh [OF cur this] have "node_step Little example_openssl ?args (?st, Starting, ?h) (?st, Verifying, ?h)"
    by simp
  moreover have "mining_verify Little example_openssl (mining_chain ?st) ?h = Some None"
    using mining_verify_valid [OF example_node_chain example_chains(1) example_openssl_ok(3)] example_miner(4) by simp
  from node_step.verify [OF cur this] have "node_step Little example_openssl ?args (?st, Verifying, ?h) (?st, Building, ?h)"
    by simp
  moreover have "node_step Little example_openssl ?args (?st, Building, ?h) (?st, Building, h')" using s by (rule node_step.serve)
  ultimately have run: "(node_step Little example_openssl ?args)\<^sup>*\<^sup>* (?st, Starting, ?h) (?st, Building, h')"
    by (meson converse_rtranclp_into_rtranclp rtranclp.rtrancl_refl)
  have "length (cv_blocks (example_chain [])) < 2 ^ 64" by (simp add: example_chain_def)
  with that [OF run cur] own show ?thesis by simp
qed



end
