(* ===== verification/Server_Runs.thy ===== *)
theory Server_Runs imports Requests begin

text \<open>
  Whole runs of the two server threads (\<^verbatim>\<open>src/consensus_peer_server_thread.c\<close> and
  \<^verbatim>\<open>src/peer_discovery_bootstrap_server_thread.c\<close>): if every request refines a step of an
  abstract state, the run of the thread refines the sequence of these steps.
\<close>

section \<open>Runs of well-formed requests\<close>

text \<open>
  In round \<open>i\<close> the system calls work, and either no peer connects or one sends the request
  \<open>l\<close>; \<open>good l conn\<close> says that the connection carries this request.
\<close>

definition serves ::
  "('l \<Rightarrow> connection \<Rightarrow> bool) \<Rightarrow> bool \<Rightarrow> server_env \<Rightarrow> nat \<Rightarrow> 'l \<Rightarrow> bool" where
  "serves good print_progress env i l \<longleftrightarrow>
     poll_result env i = 0 \<or>
     poll_result env i \<noteq> - 1 \<and> accept_ok env i \<and> client_len_ok env i \<and>
     (print_progress \<longrightarrow> client_hostname_ok env i \<and> client_addr_ok env i) \<and> good l (client env i)"

text \<open>The listening socket can be opened, and the thread is stopped after \<open>n\<close> such rounds.\<close>

definition serves_until ::
  "('l \<Rightarrow> connection \<Rightarrow> bool) \<Rightarrow> bool \<Rightarrow> server_env \<Rightarrow> nat \<Rightarrow> (nat \<Rightarrow> 'l) \<Rightarrow> bool" where
  "serves_until good print_progress env n req \<longleftrightarrow>
     socket_ok env \<and> reuseaddr_ok env \<and> v6only_ok env \<and> bind_ok env \<and> listen_ok env \<and>
     stop_requested env n \<and> (\<forall>j < n. \<not> stop_requested env j \<and> serves good print_progress env j (req j))"

text \<open>The requests received in the rounds from \<open>i\<close> up to \<open>n\<close>.\<close>

definition received :: "server_env \<Rightarrow> (nat \<Rightarrow> 'l) \<Rightarrow> nat \<Rightarrow> nat \<Rightarrow> 'l list" where
  "received env req i n = map req (filter (\<lambda>j. poll_result env j \<noteq> 0) [i..<n])"

lemma received_step:
  "i < n \<Longrightarrow> received env req i n = (if poll_result env i \<noteq> 0 then [req i] else []) @ received env req (Suc i) n"
  by (simp add: received_def upt_conv_Cons)

lemma received_end [simp]: "received env req n n = []"
  by (simp add: received_def)

section \<open>Simulation\<close>

text \<open>
  The interface: \<open>rel k h s\<close> relates the heap to the abstract state and leaves room for
  \<open>k\<close> more requests; a request refines a step.
\<close>

locale request_simulation =
  fixes handle :: "connection \<Rightarrow> heap \<Rightarrow> (status \<times> byte list \<times> heap) option"
    and rel :: "nat \<Rightarrow> heap \<Rightarrow> 's \<Rightarrow> bool"
    and good :: "'l \<Rightarrow> connection \<Rightarrow> bool"
    and step :: "'s \<Rightarrow> 'l \<Rightarrow> 's"
  assumes simulates: "rel (Suc k) h s \<Longrightarrow> good l conn \<Longrightarrow>
      \<exists>sent h'. handle conn h = Some (Code SUCCESS, sent, h') \<and> rel k h' (step s l)"
    and idle: "rel (Suc k) h s \<Longrightarrow> rel k h s"
    and exit: "rel k h s \<Longrightarrow> malloc_ok h (brk h) \<and> rel k (h\<lparr>brk := Suc (brk h)\<rparr>) s"
begin

lemma server_loop_simulates:
  assumes "serves_until good p env n req" "i \<le> n" "rel (n - i) h s"
  shows "\<exists>h'. server_loop handle p env i (Code SUCCESS) h = Some (Code SUCCESS, h') \<and>
    rel 0 h' (foldl step s (received env req i n))"
  using assms(2,3)
proof (induction "n - i" arbitrary: i h s)
  case 0
  then have "i = n" by simp
  with 0 assms(1) show ?case by (simp add: server_loop.simps [of _ _ _ n] serves_until_def)
next
  case (Suc k)
  then have i: "i < n" "k = n - Suc i" "Suc i \<le> n" by simp_all
  have serve: "serves good p env i (req i)" "\<not> stop_requested env i"
    using assms(1) i(1) by (simp_all add: serves_until_def)
  have rel: "rel (Suc (n - Suc i)) h s" using Suc.prems(2) Suc.hyps(2) i(2) by simp
  show ?case
  proof (cases "poll_result env i = 0")
    case True
    with Suc.hyps(1) [OF i(2,3) idle [OF rel]] serve(2) received_step [OF i(1), of env req] show ?thesis
      by (simp add: server_loop.simps [of _ _ _ i])
  next
    case False
    from serve(1) False simulates [OF rel] obtain sent h1 where
      h1: "handle (client env i) h = Some (Code SUCCESS, sent, h1)" "rel (n - Suc i) h1 (step s (req i))"
      unfolding serves_def by blast
    have "server_loop handle p env i (Code SUCCESS) h = server_loop handle p env (Suc i) (Code SUCCESS) h1"
      using serve False h1(1) by (cases p) (simp_all add: server_loop.simps [of _ _ _ i] serves_def)
    with Suc.hyps(1) [OF i(2,3) h1(2)] False received_step [OF i(1), of env req] show ?thesis by simp
  qed
qed

lemma run_server_simulates:
  assumes "serves_until good p env n req" "rel n h s"
  shows "\<exists>h'. run_server handle p env h = Some (Code SUCCESS, True, h') \<and>
    rel 0 h' (foldl step s (received env req 0 n))"
proof -
  from server_loop_simulates [OF assms(1) le0] assms(2) obtain h1 where
    "server_loop handle p env 0 (Code SUCCESS) h = Some (Code SUCCESS, h1)"
    "rel 0 h1 (foldl step s (received env req 0 n))" by auto
  with exit assms(1) show ?thesis by (auto simp: run_server_def request_def serves_until_def)
qed

end

text \<open>The server of the witnesses waits in its first round and is stopped after the second.\<close>

lemma example_serves:
  assumes "good l conn"
  shows "serves_until good p (example_server conn) 2 (\<lambda>_. l)" "received (example_server conn) (\<lambda>_. l) 0 2 = [l]"
  using assms by (auto simp: serves_until_def serves_def received_def upt_rec example_server_def)

end
