(* ===== verification/Consensus_Sequence.thy ===== *)
theory Consensus_Sequence imports Server_Runs Consensus_Server begin

text \<open>
  The consensus server (\<^verbatim>\<open>src/consensus_peer_server_thread.c\<close>) over a whole run: the chain
  a node ends with after any number of well-formed requests, and what this means for nodes that
  hear the same chains in different orders.
\<close>

section \<open>The rule over a sequence of chains\<close>

definition consensus_outcome :: "endianness \<Rightarrow> openssl \<Rightarrow> chain_v \<times> u64 \<Rightarrow> chain_v list \<Rightarrow> chain_v \<times> u64" where
  "consensus_outcome e ssl = foldl (consensus_choice e ssl)"

lemma consensus_outcome_simps [simp]:
  "consensus_outcome e ssl s [] = s"
  "consensus_outcome e ssl s (c # cs) = consensus_outcome e ssl (consensus_choice e ssl s c) cs"
  by (simp_all add: consensus_outcome_def)

text \<open>The chains a node may take over: valid ones of its difficulty.\<close>

definition eligible :: "endianness \<Rightarrow> openssl \<Rightarrow> chain_v \<Rightarrow> chain_v \<Rightarrow> bool" where
  "eligible e ssl c c' \<longleftrightarrow> chain_ok e ssl c' \<and> cv_zeros c' = cv_zeros c"

lemma choice_zeros [simp]: "cv_zeros (fst (consensus_choice e ssl s c)) = cv_zeros (fst s)"
  by (simp add: consensus_choice_def better_def)

lemma eligible_choice [simp]: "eligible e ssl (fst (consensus_choice e ssl s c)) = eligible e ssl (fst s)"
  by (simp add: eligible_def fun_eq_iff)

text \<open>The longest of the eligible chains wins.\<close>

lemma outcome_length:
  "length (cv_blocks (fst (consensus_outcome e ssl s cs))) =
     Max (insert (length (cv_blocks (fst s))) ((length \<circ> cv_blocks) ` {c' \<in> set cs. eligible e ssl (fst s) c'}))"
proof (induction cs arbitrary: s)
  case (Cons c cs)
  let ?L = "(length \<circ> cv_blocks) ` {c' \<in> set cs. eligible e ssl (fst s) c'}"
  have step: "length (cv_blocks (fst (consensus_choice e ssl s c))) =
      (if eligible e ssl (fst s) c then max (length (cv_blocks (fst s))) (length (cv_blocks c))
       else length (cv_blocks (fst s)))"
    by (auto simp: consensus_choice_def better_def eligible_def)
  have "Max (insert x (insert y L)) = Max (insert (max x y) L)" if "finite L" for x y :: nat and L
    using that by (cases "L = {}") (simp_all add: max.assoc)
  then have "Max (insert x (insert y ?L)) = Max (insert (max x y) ?L)" for x y by simp
  moreover have "(length \<circ> cv_blocks) ` {c' \<in> set (c # cs). eligible e ssl (fst s) c'} =
      (if eligible e ssl (fst s) c then insert (length (cv_blocks c)) ?L else ?L)"
    by auto
  ultimately show ?case by (simp add: Cons.IH step)
qed simp

lemma outcome_from:
  "consensus_outcome e ssl s cs = s \<or>
   fst (consensus_outcome e ssl s cs) \<in> set cs \<and> better e ssl (fst s) (fst (consensus_outcome e ssl s cs))"
proof (induction cs arbitrary: s)
  case (Cons c cs)
  show ?case
  proof (cases "better e ssl (fst s) c")
    case True
    then have "fst (consensus_choice e ssl s c) = c" by (simp add: consensus_choice_def)
    with Cons.IH [of "consensus_choice e ssl s c"] True better_trans [OF True] show ?thesis by auto
  next
    case False
    then have "consensus_choice e ssl s c = s" by (simp add: consensus_choice_def)
    with Cons.IH [of s] show ?thesis by auto
  qed
qed simp

text \<open>The version counts the chains that were taken over.\<close>

lemma outcome_version:
  "\<exists>k \<le> length cs. snd (consensus_outcome e ssl s cs) = snd s + of_nat k \<and>
     length (cv_blocks (fst s)) + k \<le> length (cv_blocks (fst (consensus_outcome e ssl s cs)))"
proof (induction cs arbitrary: s)
  case (Cons c cs)
  from Cons.IH [of "consensus_choice e ssl s c"] obtain k where
    k: "k \<le> length cs" "snd (consensus_outcome e ssl s (c # cs)) = snd (consensus_choice e ssl s c) + of_nat k"
    "length (cv_blocks (fst (consensus_choice e ssl s c))) + k \<le> length (cv_blocks (fst (consensus_outcome e ssl s (c # cs))))"
    by auto
  show ?case
  proof (cases "better e ssl (fst s) c")
    case True
    with k show ?thesis by (intro exI [of _ "Suc k"]) (auto simp: consensus_choice_def better_def)
  next
    case False
    with k show ?thesis by (intro exI [of _ k]) (auto simp: consensus_choice_def)
  qed
qed simp

section \<open>The server over a run\<close>

text \<open>A connection on which a peer sends the chain \<open>c\<close>.\<close>

definition chain_request :: "endianness \<Rightarrow> openssl \<Rightarrow> chain_v \<Rightarrow> connection \<Rightarrow> bool" where
  "chain_request e ssl c conn \<longleftrightarrow>
     conn_ok conn \<and> (\<exists>hdr. sends_chain conn hdr c) \<and>
     wire_chain c \<and> length (enc_chain c) + 24 < 2 ^ 63 \<and> verifiable e ssl c"

lemma consensus_request_evolves:
  assumes "own_sync h sync F c v" "wf_chain c" "length (enc_chain c) + 24 < 2 ^ 63"
    and "sends_chain conn hdr c'" "wire_chain c'" "length (enc_chain c') + 24 < 2 ^ 63" "verifiable e ssl c'"
    and "heap_ok h" "digest_ok ssl" "conn_ok conn" "\<forall>n. malloc_ok h n"
  shows "\<exists>sent h' F'. handle_one_consensus_request e ssl conn sync h = Some (Code SUCCESS, sent, h') \<and>
    own_sync h' sync F' (fst (consensus_choice e ssl (c, v) c')) (snd (consensus_choice e ssl (c, v) c')) \<and>
    evolves F h F' h'"
proof -
  from consensus_request_ok [OF assms] obtain sent h' K where
    h': "handle_one_consensus_request e ssl conn sync h = Some (Code SUCCESS, sent, h')" "\<forall>x \<in> K. store h x = None"
    "if better e ssl c c'
     then own_sync h' sync (insert sync K) c' (v + 1) \<and> same_except (F \<union> K) h h' \<and>
       (\<forall>x \<in> F - {sync}. store h' x = None)
     else own_sync h' sync F c v \<and> same_except {} h h'" by blast
  have "length (cv_blocks c) < 2 ^ 64" using length_blocks_enc_chain [of c] assms(3) by simp
  from consensus_request_leaves [OF h'(1) assms(1) this assms(8,9)]
  have ok: "heap_ok h'" "malloc_ok h' = malloc_ok h" "brk h \<le> brk h'" by (auto simp: leaves_def)
  have sync: "sync \<in> F" using assms(1) by (auto elim: own_syncE)
  show ?thesis
  proof (cases "better e ssl c c'")
    case True
    with h'(2,3) ok sync have "evolves F h (insert sync K) h'"
      by (auto simp: evolves_def same_except_def)
    with True h'(1,3) show ?thesis by (auto simp: consensus_choice_def)
  next
    case False
    with h'(3) ok have "evolves F h F h'" by (auto simp: evolves_def same_except_def)
    with False h'(1,3) show ?thesis by (auto simp: consensus_choice_def)
  qed
qed

text \<open>What a node knows of its chain before and after a request.\<close>

definition holds_chain :: "heap \<Rightarrow> addr \<Rightarrow> addr set \<Rightarrow> chain_v \<times> u64 \<Rightarrow> bool" where
  "holds_chain h sync F s \<longleftrightarrow>
     own_sync h sync F (fst s) (snd s) \<and> wf_chain (fst s) \<and> length (enc_chain (fst s)) + 24 < 2 ^ 63 \<and>
     heap_ok h \<and> (\<forall>n. malloc_ok h n)"

definition consensus_rel ::
  "openssl \<Rightarrow> addr \<Rightarrow> addr set \<Rightarrow> heap \<Rightarrow> nat \<Rightarrow> heap \<Rightarrow> chain_v \<times> u64 \<Rightarrow> bool" where
  "consensus_rel ssl sync F h0 k h s \<longleftrightarrow> digest_ok ssl \<and> (\<exists>F'. holds_chain h sync F' s \<and> evolves F h0 F' h)"

interpretation consensus_run: request_simulation "\<lambda>conn. handle_one_consensus_request e ssl conn sync"
  "consensus_rel ssl sync F h0" "chain_request e ssl" "consensus_choice e ssl"
  for e ssl sync F h0
proof
  fix k h s c conn
  assume rel: "consensus_rel ssl sync F h0 (Suc k) h s" and req: "chain_request e ssl c conn"
  then obtain G where s: "own_sync h sync G (fst s) (snd s)" "wf_chain (fst s)" "length (enc_chain (fst s)) + 24 < 2 ^ 63"
    "heap_ok h" "\<forall>n. malloc_ok h n" "digest_ok ssl" "evolves F h0 G h"
    unfolding consensus_rel_def holds_chain_def by blast
  from req obtain hdr where c: "sends_chain conn hdr c" "wire_chain c"
    "length (enc_chain c) + 24 < 2 ^ 63" "verifiable e ssl c" "conn_ok conn"
    unfolding chain_request_def by blast
  from consensus_request_evolves [OF s(1-3) c(1-4) s(4,6) c(5) s(5)] obtain sent h' G' where
    h': "handle_one_consensus_request e ssl conn sync h = Some (Code SUCCESS, sent, h')"
    "own_sync h' sync G' (fst (consensus_choice e ssl s c)) (snd (consensus_choice e ssl s c))"
    "evolves G h G' h'" by auto
  have "heap_ok h'" "\<forall>n. malloc_ok h' n" using h'(3) s(5) by (simp_all add: evolves_def same_except_def)
  then have "holds_chain h' sync G' (consensus_choice e ssl s c)"
    using h'(2) s(2,3) c(2,3) wire_chain_wf by (auto simp: holds_chain_def consensus_choice_def)
  with h'(1) s(6) evolves_trans [OF s(7) h'(3)]
  show "\<exists>sent h'. handle_one_consensus_request e ssl conn sync h = Some (Code SUCCESS, sent, h') \<and>
      consensus_rel ssl sync F h0 k h' (consensus_choice e ssl s c)"
    unfolding consensus_rel_def by blast
next
  fix k h s
  assume rel: "consensus_rel ssl sync F h0 k h s"
  then obtain G where s: "own_sync h sync G (fst s) (snd s)" "wf_chain (fst s)" "length (enc_chain (fst s)) + 24 < 2 ^ 63"
    "heap_ok h" "\<forall>n. malloc_ok h n" "digest_ok ssl" "evolves F h0 G h"
    unfolding consensus_rel_def holds_chain_def by blast
  let ?h = "h\<lparr>brk := Suc (brk h)\<rparr>"
  have same: "same_except {} h ?h" by (simp add: same_except_def)
  have "own_sync ?h sync G (fst s) (snd s)" by (rule own_sync_frame [OF s(1)]) simp
  then have "holds_chain ?h sync G s" using s(2,3,5) heap_ok_same [OF s(4) same] by (simp add: holds_chain_def)
  then show "malloc_ok h (brk h) \<and> consensus_rel ssl sync F h0 k ?h s"
    using s(5,6) evolves_trans [OF s(7) evolves_same [OF s(4) same]] unfolding consensus_rel_def by blast
qed (simp add: consensus_rel_def)

lemma consensus_run_outcome:
  assumes "holds_chain h sync F s" "digest_ok ssl" "serves_until (chain_request e ssl) p env n chain"
    and "s' = consensus_outcome e ssl s (received env chain 0 n)"
  shows "\<exists>h' F'. run_consensus_peer_server e ssl p env sync h = Some (Code SUCCESS, True, h') \<and>
    own_sync h' sync F' (fst s') (snd s') \<and> evolves F h F' h'"
proof -
  have "heap_ok h" using assms(1) by (simp add: holds_chain_def)
  then have "consensus_rel ssl sync F h n h s"
    using assms(1,2) evolves_same [OF _ same_except_refl] unfolding consensus_rel_def by blast
  from consensus_run.run_server_simulates [OF assms(3) this] show ?thesis
    unfolding run_consensus_peer_server_def assms(4) consensus_outcome_def consensus_rel_def holds_chain_def by blast
qed

text \<open>
  C4. A run of the server refines the consensus rule applied to the received chains in turn.  When
  peers send well-formed requests until the server is stopped, the thread ends successfully; the node
  then holds the longest of its own chain and the received valid chains of its difficulty; its version has
  counted the chains taken over, each of which was longer than the one before; and every chain that lost has
  been released.
\<close>

theorem consensus_server_finds_longest_chain:
  assumes "holds_chain h (consensus_sync args) F (c, v)" "digest_ok ssl"
    and "serves_until (chain_request e ssl) (consensus_print_progress args) env n chain"
    and "(w, v') = consensus_outcome e ssl (c, v) (received env chain 0 n)"
  shows "\<exists>h' F' k. run_consensus_peer_server_pthread_wrapper e ssl args env h = Some (Code SUCCESS, True, h') \<and>
    own_sync h' (consensus_sync args) F' w v' \<and> evolves F h F' h' \<and>
    (w = c \<and> v' = v \<or> w \<in> set (received env chain 0 n) \<and> better e ssl c w) \<and>
    (\<forall>c' \<in> set (received env chain 0 n).
       chain_ok e ssl c' \<longrightarrow> cv_zeros c' = cv_zeros c \<longrightarrow> length (cv_blocks c') \<le> length (cv_blocks w)) \<and>
    v' = v + of_nat k \<and> length (cv_blocks c) + k \<le> length (cv_blocks w)"
proof -
  let ?cs = "received env chain 0 n"
  have w: "w = fst (consensus_outcome e ssl (c, v) ?cs)" "v' = snd (consensus_outcome e ssl (c, v) ?cs)"
    using assms(4) by (metis fst_conv, metis snd_conv)
  have "w = c \<and> v' = v \<or> w \<in> set ?cs \<and> better e ssl c w"
    using outcome_from [of e ssl "(c, v)" ?cs] unfolding w by auto
  moreover have "length (cv_blocks c') \<le> length (cv_blocks w)"
    if "c' \<in> set ?cs" "chain_ok e ssl c'" "cv_zeros c' = cv_zeros c" for c'
    unfolding w(1) outcome_length using that by (intro Max_ge) (auto simp: eligible_def)
  moreover obtain k where "v' = v + of_nat k" "length (cv_blocks c) + k \<le> length (cv_blocks w)"
    using outcome_version [of ?cs e ssl "(c, v)"] unfolding w by auto
  ultimately show ?thesis using consensus_run_outcome [OF assms]
    by (auto simp: run_consensus_peer_server_pthread_wrapper_def)
qed

text \<open>Nodes and requests for the witnesses.\<close>

lemma example_holds_chain:
  assumes "wf_chain c" "length (enc_chain c) + 24 < 2 ^ 63"
  obtains h sync F where "own_sync h sync F c v" "holds_chain h sync F (c, v)"
  using sync_representable [of c v] assms by (auto simp: holds_chain_def)

lemma example_chain_served:
  assumes "wire_chain c" "length (enc_chain c) + 8 \<le> INT_MAX" "chain_ok e example_openssl c"
  obtains conn where "chain_request e example_openssl c conn"
proof -
  have "verifiable e example_openssl c" by (rule verifiable_chain_ok [OF assms(3) example_openssl_ok(3)])
  moreover have "length (enc_chain c) + 24 < 2 ^ 63" using assms(2) by simp
  ultimately show ?thesis
    using that example_chain_request [OF assms(2)] assms(1) unfolding chain_request_def by blast
qed

theorem consensus_server_finds_longest_chain_witness:
  "\<exists>h sync F a conn h' F'. own_sync h sync F (example_chain []) 6 \<and>
     run_consensus_peer_server_pthread_wrapper Little example_openssl
       \<lparr>consensus_peer_server_addr = a, consensus_sync = sync, consensus_print_progress = True\<rparr> (example_server conn) h =
       Some (Code SUCCESS, True, h') \<and>
     own_sync h' sync F' (example_chain [example_block]) 7 \<and> evolves F h F' h'"
proof -
  let ?c = "example_chain [example_block]"
  have "length (enc_chain ?c) + 8 \<le> INT_MAX" by (simp add: example_chain_wire(2))
  then obtain conn where req: "chain_request Little example_openssl ?c conn"
    using example_chain_served [OF example_chain_wire(1) _ example_chain_ok] by blast
  obtain h sync F where h: "own_sync h sync F (example_chain []) 6" "holds_chain h sync F (example_chain [], 6)"
    by (rule example_holds_chain [OF example_chains(1,2)])
  note run = example_serves [of "chain_request Little example_openssl", OF req]
  have "(?c, 7) = consensus_outcome Little example_openssl (example_chain [], 6)
      (received (example_server conn) (\<lambda>_. ?c) 0 2)"
    by (simp add: run(2) consensus_choice_def example_chains)
  note result = consensus_server_finds_longest_chain [where args =
      "\<lparr>consensus_peer_server_addr = a, consensus_sync = sync, consensus_print_progress = True\<rparr>" for a,
      unfolded run_consensus_peer_server_args_t.simps, OF h(2) example_openssl_ok(3) run(1) this]
  from result h(1) show ?thesis by blast
qed

text \<open>
  C11. Nodes agree.  Two nodes of the same difficulty and byte order that start from valid chains, and have
  between their own chain and the received ones heard of the same chains, in whatever order and however often,
  end with valid chains of the same length.
\<close>

theorem consensus_converges:
  assumes "digest_ok ssl"
    and "holds_chain h1 sync1 F1 (c1, v1)" "serves_until (chain_request e ssl) p1 env1 n1 chain1"
    and "holds_chain h2 sync2 F2 (c2, v2)" "serves_until (chain_request e ssl) p2 env2 n2 chain2"
    and "chain_ok e ssl c1" "chain_ok e ssl c2" "cv_zeros c1 = cv_zeros c2"
    and "insert c1 (set (received env1 chain1 0 n1)) = insert c2 (set (received env2 chain2 0 n2))"
  shows "\<exists>h1' h2' F1' F2' w1 w2 v1' v2'.
    run_consensus_peer_server e ssl p1 env1 sync1 h1 = Some (Code SUCCESS, True, h1') \<and> own_sync h1' sync1 F1' w1 v1' \<and>
    run_consensus_peer_server e ssl p2 env2 sync2 h2 = Some (Code SUCCESS, True, h2') \<and> own_sync h2' sync2 F2' w2 v2' \<and>
    chain_ok e ssl w1 \<and> chain_ok e ssl w2 \<and> length (cv_blocks w1) = length (cv_blocks w2)"
proof -
  let ?o1 = "consensus_outcome e ssl (c1, v1) (received env1 chain1 0 n1)"
  let ?o2 = "consensus_outcome e ssl (c2, v2) (received env2 chain2 0 n2)"
  have len: "length (cv_blocks (fst (consensus_outcome e ssl (c, v) cs))) =
      Max ((length \<circ> cv_blocks) ` {c' \<in> insert c (set cs). eligible e ssl c1 c'})"
    if "chain_ok e ssl c" "cv_zeros c = cv_zeros c1" for c v cs
  proof -
    have el: "eligible e ssl c = eligible e ssl c1" using that(2) by (simp add: eligible_def fun_eq_iff)
    have "eligible e ssl c1 c" using that by (simp add: eligible_def)
    then have "{c' \<in> insert c (set cs). eligible e ssl c1 c'} = insert c {c' \<in> set cs. eligible e ssl c1 c'}" by auto
    then show ?thesis by (simp add: outcome_length el)
  qed
  have ok: "chain_ok e ssl (fst (consensus_outcome e ssl (c, v) cs))" if "chain_ok e ssl c" for c v cs
    using outcome_from [of e ssl "(c, v)" cs] that by (auto simp: better_def)
  have "length (cv_blocks (fst ?o1)) = length (cv_blocks (fst ?o2))"
    unfolding len [OF assms(6) refl] len [OF assms(7) assms(8) [symmetric]] assms(9) ..
  with ok [OF assms(6)] ok [OF assms(7)] consensus_run_outcome [OF assms(2,1,3) refl]
    consensus_run_outcome [OF assms(4,1,5) refl]
  show ?thesis by blast
qed

text \<open>Each of two nodes sends its chain to the other.\<close>

theorem consensus_converges_witness:
  "\<exists>h1 h2 sync1 sync2 conn1 conn2 h1' h2' F1 F2 F1' F2' w1 w2 v1' v2'.
    own_sync h1 sync1 F1 (example_chain []) 0 \<and> own_sync h2 sync2 F2 (example_chain [example_block]) 0 \<and>
    run_consensus_peer_server Big example_openssl False (example_server conn1) sync1 h1 = Some (Code SUCCESS, True, h1') \<and>
    own_sync h1' sync1 F1' w1 v1' \<and>
    run_consensus_peer_server Big example_openssl False (example_server conn2) sync2 h2 = Some (Code SUCCESS, True, h2') \<and>
    own_sync h2' sync2 F2' w2 v2' \<and> length (cv_blocks w1) = length (cv_blocks w2)"
proof -
  let ?c1 = "example_chain []" and ?c2 = "example_chain [example_block]"
  have ok: "chain_ok Big example_openssl ?c1" "chain_ok Big example_openssl ?c2" "cv_zeros ?c1 = cv_zeros ?c2"
    by (simp_all add: example_chain_ok) (simp_all add: example_chain_def chain_ok_def example_genesis_ok)
  have wire: "wire_chain ?c1" "length (enc_chain ?c1) + 8 \<le> INT_MAX" "length (enc_chain ?c2) + 8 \<le> INT_MAX"
    by (simp_all add: example_chain_wire(2))
      (simp_all add: wire_chain_def wire_block_def example_chain_def enc_chain_def enc_block_def genesis_v_def)
  obtain conn1 where req1: "chain_request Big example_openssl ?c2 conn1"
    by (rule example_chain_served [OF example_chain_wire(1) wire(3) ok(2)])
  obtain conn2 where req2: "chain_request Big example_openssl ?c1 conn2"
    by (rule example_chain_served [OF wire(1,2) ok(1)])
  obtain h1 sync1 F1 where h1: "own_sync h1 sync1 F1 ?c1 0" "holds_chain h1 sync1 F1 (?c1, 0)"
    by (rule example_holds_chain [OF example_chains(1,2)])
  obtain h2 sync2 F2 where h2: "own_sync h2 sync2 F2 ?c2 0" "holds_chain h2 sync2 F2 (?c2, 0)"
    by (rule example_holds_chain [OF wire_chain_wf [OF example_chain_wire(1)] example_chains(3)])
  note run1 = example_serves [of "chain_request Big example_openssl", OF req1]
  note run2 = example_serves [of "chain_request Big example_openssl", OF req2]
  have "insert ?c1 (set (received (example_server conn1) (\<lambda>_. ?c2) 0 2)) =
      insert ?c2 (set (received (example_server conn2) (\<lambda>_. ?c1) 0 2))"
    unfolding run1(2) run2(2) by auto
  from consensus_converges [OF example_openssl_ok(3) h1(2) run1(1) h2(2) run2(1) ok this, of False False] h1(1) h2(1)
  show ?thesis by blast
qed

end
