(* ===== verification/Peer_Discovery.thy ===== *)
theory Peer_Discovery imports Block Buffers begin

text \<open>
  Peer lists (\<^verbatim>\<open>src/peer_discovery.c\<close>): the comparison of peers and the serialisation of
  the list of known peers.
\<close>

section \<open>Operations\<close>

abbreviation (input) IN6_ADDR_SIZE :: nat where
  "IN6_ADDR_SIZE \<equiv> 16"

text \<open>The memory image of a \<open>struct sockaddr_in6\<close>; it has no padding.\<close>

definition sockaddr_bytes :: "endianness \<Rightarrow> sockaddr_in6 \<Rightarrow> byte list" where
  "sockaddr_bytes e s =
     host_bytes e (sin6_family s) @ host_bytes e (sin6_port s) @ host_bytes e (sin6_flowinfo s) @
     sin6_addr s @ host_bytes e (sin6_scope_id s)"

definition compare_peer_info_t :: "endianness \<Rightarrow> addr \<Rightarrow> addr \<Rightarrow> heap \<Rightarrow> int option" where
  "compare_peer_info_t e peer1 peer2 h =
     (if peer1 = NULL \<or> peer2 = NULL then Some 0
      else do {
        p1 \<leftarrow> load_peer peer1 h;
        p2 \<leftarrow> load_peer peer2 h;
        memcmp (sockaddr_bytes e (listen_addr p1)) (sockaddr_bytes e (listen_addr p2)) 28
      })"

text \<open>The compare functions of the program, by name.\<close>

definition app_compare :: "endianness \<Rightarrow> app_obj compare_call" where
  "app_compare e f d1 d2 h = (case f of COMPARE_PEER_INFO \<Rightarrow> compare_peer_info_t e d1 d2 h)"

definition serialize_peer :: "endianness \<Rightarrow> peer_info_t \<Rightarrow> byte list \<Rightarrow> u64 \<Rightarrow> heap \<Rightarrow> serializer" where
  "serialize_peer e peer serialization_buffer sz h =
     (let offset = unat sz;
          sz = sz + 2;
          sz = sz + 2;
          sz = sz + 4;
          sz = sz + of_nat IN6_ADDR_SIZE;
          sz = sz + 4;
          sz = sz + 8
      in case realloc_buf serialization_buffer (unat sz) h of
           (None, h) \<Rightarrow> Some (FAILURE_COULD_NOT_MALLOC, [], sz, h)
         | (Some buf, h) \<Rightarrow> do {
             buf \<leftarrow> store_word e buf offset (hton e (sin6_family (listen_addr peer)));
             buf \<leftarrow> store_word e buf (offset + 2) (hton e (sin6_port (listen_addr peer)));
             buf \<leftarrow> store_word e buf (offset + 4) (hton e (sin6_flowinfo (listen_addr peer)));
             (buf, next) \<leftarrow> store_loop buf (offset + 8) (sin6_addr (listen_addr peer));
             buf \<leftarrow> store_word e buf next (hton e (sin6_scope_id (listen_addr peer)));
             buf \<leftarrow> store_word e buf (next + 4) (htobe64 e (last_connected peer));
             Some (SUCCESS, buf, sz, h)
           })"

partial_function (option) serialize_peers_loop ::
  "endianness \<Rightarrow> addr \<Rightarrow> byte list \<Rightarrow> u64 \<Rightarrow> heap \<Rightarrow> serializer" where
  "serialize_peers_loop e node buf sz h =
     (if node = NULL then Some (SUCCESS, buf, sz, h)
      else do {
        n \<leftarrow> load_node node h;
        peer \<leftarrow> load_peer (node_data n) h;
        (return_code, buf, sz, h) \<leftarrow> serialize_peer e peer buf sz h;
        if return_code \<noteq> SUCCESS then Some (return_code, buf, sz, h)
        else serialize_peers_loop e (node_next n) buf sz h
      })"

definition peer_info_list_serialize ::
  "endianness \<Rightarrow> addr \<Rightarrow> bool \<Rightarrow> bool \<Rightarrow> heap \<Rightarrow>
   (return_code_t \<times> (byte list \<times> u64) option \<times> heap) option" where
  "peer_info_list_serialize e peer_info_list buffer_out size_out h =
     (if peer_info_list = NULL \<or> \<not> buffer_out \<or> \<not> size_out then Some (FAILURE_INVALID_INPUT, None, h)
      else do {
        (return_code, num_peers) \<leftarrow> linked_list_length peer_info_list True h;
        if return_code \<noteq> SUCCESS then Some (return_code, None, h)
        else do {
          num_peers \<leftarrow> num_peers;
          let sz = 8 :: u64
          in (case calloc_buf (unat sz) h of
                (None, h) \<Rightarrow> Some (FAILURE_COULD_NOT_MALLOC, None, h)
              | (Some buf, h) \<Rightarrow> do {
                  buf \<leftarrow> store_word e buf 0 (htobe64 e num_peers);
                  l \<leftarrow> load_list peer_info_list h;
                  (return_code, buf, sz, h) \<leftarrow> serialize_peers_loop e (head l) buf sz h;
                  if return_code \<noteq> SUCCESS then Some (return_code, None, h)
                  else Some (SUCCESS, Some (buf, sz), h)
                })
        }
      })"

definition parse_peer :: "peer_info_t parser" where
  "parse_peer e buf buffer_size next =
     parse_then (parse_u16 e buf buffer_size next) (\<lambda>family next.
     parse_then (parse_u16 e buf buffer_size next) (\<lambda>port next.
     parse_then (parse_u32 e buf buffer_size next) (\<lambda>flowinfo next.
     parse_then (parse_array IN6_ADDR_SIZE e buf buffer_size next) (\<lambda>addr next.
     parse_then (parse_u32 e buf buffer_size next) (\<lambda>scope_id next.
     parse_then (parse_u64 e buf buffer_size next) (\<lambda>last next.
       Some (Inr (\<lparr>listen_addr = \<lparr>sin6_family = family, sin6_port = port, sin6_flowinfo = flowinfo,
                     sin6_addr = addr, sin6_scope_id = scope_id\<rparr>, last_connected = last\<rparr>, next))))))))"

definition abandon_peers :: "return_code_t \<Rightarrow> addr \<Rightarrow> heap \<Rightarrow> (return_code_t \<times> nat \<times> heap) option" where
  "abandon_peers return_code list h =
     do {
       (_, h) \<leftarrow> linked_list_destroy app_free list h;
       Some (return_code, 0, h)
     }"

text \<open>The end of a round: allocate the peer and append it.\<close>

definition deserialize_add_peer ::
  "addr \<Rightarrow> peer_info_t \<Rightarrow> nat \<Rightarrow> heap \<Rightarrow> (return_code_t \<times> nat \<times> heap) option" where
  "deserialize_add_peer list p next h =
     (case malloc (DataObj (PeerObj p)) h of
        (peer, h) \<Rightarrow>
          if peer = NULL then abandon_peers FAILURE_COULD_NOT_MALLOC list h
          else do {
            (return_code, h) \<leftarrow> linked_list_append list peer h;
            if return_code \<noteq> SUCCESS then do {
              h \<leftarrow> mem_free peer h;
              abandon_peers return_code list h
            }
            else Some (SUCCESS, next, h)
          })"

partial_function (option) deserialize_peers_loop ::
  "endianness \<Rightarrow> byte list \<Rightarrow> u64 \<Rightarrow> addr \<Rightarrow> u64 \<Rightarrow> u64 \<Rightarrow> nat \<Rightarrow> heap \<Rightarrow>
   (return_code_t \<times> nat \<times> heap) option" where
  "deserialize_peers_loop e buf buffer_size list num_peers idx next h =
     (if idx < num_peers then do {
        parsed \<leftarrow> parse_peer e buf buffer_size next;
        case parsed of
          Inl return_code \<Rightarrow> abandon_peers return_code list h
        | Inr (p, next) \<Rightarrow> do {
            (return_code, next, h) \<leftarrow> deserialize_add_peer list p next h;
            if return_code \<noteq> SUCCESS then Some (return_code, next, h)
            else deserialize_peers_loop e buf buffer_size list num_peers (idx + 1) next h
          }
      }
      else Some (SUCCESS, next, h))"

definition peer_info_list_deserialize ::
  "endianness \<Rightarrow> bool \<Rightarrow> byte list option \<Rightarrow> u64 \<Rightarrow> heap \<Rightarrow>
   (return_code_t \<times> addr option \<times> heap) option" where
  "peer_info_list_deserialize e out buffer buffer_size h =
     (case buffer of
        None \<Rightarrow> Some (FAILURE_INVALID_INPUT, None, h)
      | Some buf \<Rightarrow>
          if \<not> out then Some (FAILURE_INVALID_INPUT, None, h)
          else do {
            parsed \<leftarrow> parse_u64 e buf buffer_size 0;
            case parsed of
              Inl return_code \<Rightarrow> Some (return_code, None, h)
            | Inr (num_peers, next) \<Rightarrow>
                (case linked_list_create True (Some FREE) (Some COMPARE_PEER_INFO) h of
                   (return_code, list, h) \<Rightarrow>
                     if return_code \<noteq> SUCCESS then Some (return_code, None, h)
                     else do {
                       (return_code, next, h) \<leftarrow> deserialize_peers_loop e buf buffer_size
                         (out_ptr list) num_peers 0 next h;
                       if return_code \<noteq> SUCCESS then Some (return_code, None, h)
                       else Some (SUCCESS, list, h)
                     })
          })"

section \<open>Comparing peers\<close>

definition wf_sockaddr :: "sockaddr_in6 \<Rightarrow> bool" where
  "wf_sockaddr s \<longleftrightarrow> length (sin6_addr s) = IN6_ADDR_SIZE"

lemma host_bytes_inj:
  assumes "8 dvd LENGTH('a::len)" "host_bytes e (x :: 'a word) = host_bytes e y"
  shows "x = y"
proof -
  from assms(2) have "host_word e (host_bytes e x) = (host_word e (host_bytes e y) :: 'a word)"
    by (rule arg_cong)
  then show ?thesis by (simp add: host_word_host_bytes assms(1))
qed

lemma sockaddr_bytes_inj:
  assumes "wf_sockaddr s" "wf_sockaddr s'" "sockaddr_bytes e s = sockaddr_bytes e s'"
  shows "s = s'"
proof -
  have "host_bytes e (sin6_family s) = host_bytes e (sin6_family s') \<and>
      host_bytes e (sin6_port s) = host_bytes e (sin6_port s') \<and>
      host_bytes e (sin6_flowinfo s) = host_bytes e (sin6_flowinfo s') \<and>
      sin6_addr s = sin6_addr s' \<and> host_bytes e (sin6_scope_id s) = host_bytes e (sin6_scope_id s')"
    using assms by (simp add: sockaddr_bytes_def wf_sockaddr_def)
  then have "sin6_family s = sin6_family s'" "sin6_port s = sin6_port s'"
    "sin6_flowinfo s = sin6_flowinfo s'" "sin6_addr s = sin6_addr s'" "sin6_scope_id s = sin6_scope_id s'"
    using host_bytes_inj [where x = "sin6_family s" and e = e] host_bytes_inj [where x = "sin6_port s" and e = e]
      host_bytes_inj [where x = "sin6_flowinfo s" and e = e] host_bytes_inj [where x = "sin6_scope_id s" and e = e]
    by simp_all
  then show ?thesis by simp
qed

lemma compare_peer_eq:
  assumes "own_peer h a F p" "own_peer h b G q" "wf_sockaddr (listen_addr p)" "wf_sockaddr (listen_addr q)"
  shows "\<exists>k. compare_peer_info_t e a b h = Some k \<and> (k = 0 \<longleftrightarrow> listen_addr p = listen_addr q)"
proof -
  have len: "length (sockaddr_bytes e s) = 28" if "wf_sockaddr s" for s
    using that by (simp add: sockaddr_bytes_def wf_sockaddr_def)
  let ?k = "first_difference (sockaddr_bytes e (listen_addr p)) (sockaddr_bytes e (listen_addr q))"
  have "compare_peer_info_t e a b h = Some ?k"
    using assms len by (auto simp: compare_peer_info_t_def own_peer_def load_peer_store memcmp_def)
  moreover have "?k = 0 \<longleftrightarrow> listen_addr p = listen_addr q"
    using len assms(3,4) by (auto simp: first_difference_0 dest: sockaddr_bytes_inj)
  ultimately show ?thesis by blast
qed

text \<open>
  Searching a peer list for a peer always returns, and finds the first entry with the same
  address, port, flow information and scope, whatever its last connection time; it finds none
  if there is no such entry.
\<close>

lemma find_peer_by_address:
  assumes "own_ll own_peer FREE (Some COMPARE_PEER_INFO) h l F ps" "own_peer h d G p"
    and "wf_sockaddr (listen_addr p)" "\<forall>q \<in> set ps. wf_sockaddr (listen_addr q)"
  shows "\<exists>r. linked_list_find (app_compare e) l d True h = Some (SUCCESS, r) \<and>
    found own_peer h F (List.find (\<lambda>q. listen_addr q = listen_addr p) ps) r"
proof (rule peer.find_eq [OF assms(1) peer.own_NULL [OF assms(2)]])
  fix x H q
  assume "own_peer h x H q" "q \<in> set ps"
  with compare_peer_eq [OF assms(2) this(1) assms(3), of e] assms(4) show
    "\<exists>k. app_compare e COMPARE_PEER_INFO d x h = Some k \<and> (k = 0 \<longleftrightarrow> listen_addr q = listen_addr p)"
    by (auto simp: app_compare_def)
qed

definition example_peer :: "u64 \<Rightarrow> peer_info_t" where
  "example_peer t = \<lparr>listen_addr = \<lparr>sin6_family = 10, sin6_port = 12345, sin6_flowinfo = 0,
     sin6_addr = replicate 16 1, sin6_scope_id = 0\<rparr>, last_connected = t\<rparr>"

definition example_peer_heap :: heap where
  "example_peer_heap = empty_heap\<lparr>brk := 4, store :=
     [1 \<mapsto> ListObj \<lparr>free_function = FREE, compare_function = Some COMPARE_PEER_INFO, head = 2\<rparr>,
      2 \<mapsto> NodeObj \<lparr>node_data = 3, node_next = NULL\<rparr>,
      3 \<mapsto> DataObj (PeerObj (example_peer 5)), 4 \<mapsto> DataObj (PeerObj (example_peer 9))]\<rparr>"

lemma example_peer_heap_owns:
  "own_ll own_peer FREE (Some COMPARE_PEER_INFO) example_peer_heap 1 {1, 2, 3} [example_peer 5]"
  "own_peer example_peer_heap 4 {4} (example_peer 9)" "heap_ok example_peer_heap"
  "malloc_ok example_peer_heap n"
proof -
  have "own_seg own_peer example_peer_heap 2 {2, 3} [example_peer 5] NULL"
    by (rule peer.seg_ConsI [where d = 3 and q = NULL and G = "{3}" and H = "{}"])
      (auto simp: example_peer_heap_def own_peer_def)
  then show "own_ll own_peer FREE (Some COMPARE_PEER_INFO) example_peer_heap 1 {1, 2, 3} [example_peer 5]"
    by (intro peer.ll_I [where p = 2 and G = "{2, 3}"]) (auto simp: example_peer_heap_def)
  show "own_peer example_peer_heap 4 {4} (example_peer 9)" "heap_ok example_peer_heap"
    "malloc_ok example_peer_heap n"
    by (auto simp: example_peer_heap_def own_peer_def heap_ok_def split: if_splits)
qed

section \<open>The wire format of peer lists\<close>

definition enc_peer :: "peer_info_t \<Rightarrow> byte list" where
  "enc_peer p =
     be_bytes (sin6_family (listen_addr p)) @ be_bytes (sin6_port (listen_addr p)) @
     be_bytes (sin6_flowinfo (listen_addr p)) @ sin6_addr (listen_addr p) @
     be_bytes (sin6_scope_id (listen_addr p)) @ be_bytes (last_connected p)"

definition enc_peers :: "peer_info_t list \<Rightarrow> byte list" where
  "enc_peers ps = be_bytes (of_nat (length ps) :: u64) @ concat (map enc_peer ps)"

definition wf_peer :: "peer_info_t \<Rightarrow> bool" where
  "wf_peer p \<longleftrightarrow> wf_sockaddr (listen_addr p)"

lemma length_enc_peer: "wf_peer p \<Longrightarrow> length (enc_peer p) = 36"
  by (simp add: enc_peer_def wf_peer_def wf_sockaddr_def)

text \<open>A list of peers as the program creates it.\<close>

abbreviation own_peer_list :: "heap \<Rightarrow> addr \<Rightarrow> addr set \<Rightarrow> peer_info_t list \<Rightarrow> bool" where
  "own_peer_list \<equiv> own_ll own_peer FREE (Some COMPARE_PEER_INFO)"

lemma length_enc_peers: "\<forall>p \<in> set ps. wf_peer p \<Longrightarrow> length (enc_peers ps) = 8 + 36 * length ps"
  using length_concat_const [of ps enc_peer 36] length_enc_peer by (simp add: enc_peers_def)

lemma parse_peer_enc:
  assumes "wf_peer p" "holds_at buf off (enc_peer p)" "off + length (enc_peer p) \<le> unat buffer_size"
  shows "parse_peer e buf buffer_size off = Some (Inr (p, off + length (enc_peer p)))"
proof -
  have addr: "length (sin6_addr (listen_addr p)) = 16"
    using assms(1) by (simp add: wf_peer_def wf_sockaddr_def)
  have bound: "off + 36 \<le> unat buffer_size" using assms(1,3) by (simp add: length_enc_peer)
  have at: "holds_at buf off (be_bytes (sin6_family (listen_addr p)))"
    "holds_at buf (off + 2) (be_bytes (sin6_port (listen_addr p)))"
    "holds_at buf (4 + off) (be_bytes (sin6_flowinfo (listen_addr p)))"
    "holds_at buf (8 + off) (sin6_addr (listen_addr p))"
    "holds_at buf (24 + off) (be_bytes (sin6_scope_id (listen_addr p)))"
    "holds_at buf (28 + off) (be_bytes (last_connected p))"
    using assms(2) addr
    by (simp_all add: enc_peer_def holds_at_append del: add_2_eq_Suc add_2_eq_Suc')
  note words = u16_wire.parse_enc [OF _ at(1)] u16_wire.parse_enc [OF _ at(2)]
    u32_wire.parse_enc [OF _ at(3)] u32_wire.parse_enc [OF _ at(5)] u64_wire.parse_enc [OF _ at(6)]
    parse_array_enc [OF addr at(4)]
  show ?thesis
    using bound length_enc_peer [OF assms(1)]
    by (simp add: parse_peer_def words parse_then_simps del: add_2_eq_Suc add_2_eq_Suc')
qed

lemma parse_peer_sound:
  assumes "unat buffer_size + 0 \<le> length buf" "length buf < 2 ^ 63" "off < 2 ^ 63"
  shows "sound_parse enc_peer wf_peer buf (unat buffer_size + 0) off (parse_peer e buf buffer_size off)"
proof (cases "off \<le> unat buffer_size")
  case False
  then have "too_small buffer_size off 2" using assms(3) by (subst too_small_iff) simp_all
  then show ?thesis by (simp add: parse_peer_def word_parsers parse_then_simps sound_parse_error)
next
  case True
  then have start: "holds_at buf off []" "off + length ([] :: byte list) \<le> unat buffer_size + 0"
    using assms(1) by (simp_all add: holds_at_Nil)
  note u16 = u16_step [OF assms(1,2)] and u32 = u32_step [OF assms(1,2)] and u64 = u64_step [OF assms(1,2)]
    and arr = array_step [OF assms(1,2)]
  have "sound_parse enc_peer wf_peer buf (unat buffer_size + 0) off
      (parse_peer e buf buffer_size (off + length ([] :: byte list)))"
    unfolding parse_peer_def
    apply (rule u16, rule start, rule start)
    apply (rule u16, assumption, assumption)
    apply (rule u32, assumption, assumption)
    apply (rule arr, simp, assumption, assumption)
    apply (rule u32, assumption, assumption)
    apply (rule u64, assumption, assumption)
    apply (rule sound_parse_done; simp add: wf_peer_def wf_sockaddr_def enc_peer_def)
    done
  then show ?thesis by simp
qed

interpretation peer_wire: wire_parser enc_peer wf_peer wf_peer parse_peer 0
proof
  fix p
  show "enc_peer p \<noteq> []" using u64_wire.enc_nonempty [of "last_connected p"] by (simp add: enc_peer_def)
qed (rule parse_peer_enc parse_peer_sound; assumption)+

section \<open>Serialising\<close>

lemma serialize_peer_appends:
  assumes "wf_peer p" "length buf + 36 < 2 ^ 63"
  shows "appends (enc_peer p) buf h (serialize_peer e p buf (of_nat (length buf)) h)"
proof (cases "malloc_ok h (brk h)")
  case False
  then show ?thesis
    by (auto simp: appends_def serialize_peer_def Let_def realloc_buf_def request_def intro: same_except_brk)
next
  case True
  define R where "R = replicate 36 (junk h)"
  then have R: "length R = 36" by simp
  have sz: "of_nat (length buf) + 2 + 2 + 4 + of_nat IN6_ADDR_SIZE + 4 + 8 =
      (of_nat (length buf + 36) :: u64)" by simp
  have grow: "realloc_buf buf (length buf + 36) h = (Some (buf @ drop 0 R), h\<lparr>brk := Suc (brk h)\<rparr>)"
    using True assms(2) by (simp add: realloc_grow R_def)
  have "serialize_peer e p buf (of_nat (length buf)) h =
      Some (SUCCESS, buf @ enc_peer p, of_nat (length buf + 36), h\<lparr>brk := Suc (brk h)\<rparr>)"
    using assms unfolding serialize_peer_def Let_def sz
    by (simp add: grow store_fields wf_peer_def wf_sockaddr_def enc_peer_def R
        del: append_assoc drop0 of_nat_add add_2_eq_Suc add_2_eq_Suc' add: append_assoc [symmetric])
  then show ?thesis
    using assms(1) by (auto simp: appends_def length_enc_peer intro: same_except_brk)
qed

lemma peers_loop_appends:
  assumes "own_seg own_peer h p F ps NULL" "\<forall>q \<in> set ps. wf_peer q"
    "length buf + 36 * length ps < 2 ^ 63"
  shows "appends (concat (map enc_peer ps)) buf h (serialize_peers_loop e p buf (of_nat (length buf)) h)"
  using assms
proof (induction ps arbitrary: p F buf h)
  case Nil
  then show ?case by (auto simp: serialize_peers_loop.simps appends_def)
next
  case (Cons x ps)
  from Cons.prems(1) show ?case
  proof (rule peer.seg_ConsE)
    fix d q G H
    assume *: "p \<noteq> NULL" "load_node p h = Some \<lparr>node_data = d, node_next = q\<rparr>"
      "own_peer h d G x" "own_seg own_peer h q H ps NULL"
    have len: "length (enc_peer x) = 36" using Cons.prems(2) by (simp add: length_enc_peer)
    have "load_peer d h = Some x" using *(3) by (simp add: own_peer_def load_peer_store)
    moreover have "appends (enc_peer x) buf h (serialize_peer e x buf (of_nat (length buf)) h)"
      using Cons.prems(2,3) by (intro serialize_peer_appends) simp_all
    then have "appends (enc_peer x @ concat (map enc_peer ps)) buf h
      (Option.bind (serialize_peer e x buf (of_nat (length buf)) h)
        (\<lambda>(rc, buf, sz, h). if rc \<noteq> SUCCESS then Some (rc, buf, sz, h)
           else serialize_peers_loop e q buf sz h))"
    proof (rule appends_then)
      fix h'
      assume h': "same_except {} h h'"
      have "own_seg own_peer h' q H ps NULL"
        by (intro peer.seg_frame [OF *(4)] same_except_store [OF h']) simp
      then show "appends (concat (map enc_peer ps)) (buf @ enc_peer x) h'
          (if SUCCESS \<noteq> SUCCESS
           then Some (SUCCESS, buf @ enc_peer x, of_nat (length (buf @ enc_peer x)), h')
           else serialize_peers_loop e q (buf @ enc_peer x) (of_nat (length (buf @ enc_peer x))) h')"
        using Cons.IH [of h' q H "buf @ enc_peer x"] Cons.prems(2,3) len by simp
    qed simp
    ultimately show ?thesis
      using *(1,2) by (simp add: serialize_peers_loop.simps [of _ p] cong: if_cong)
  qed
qed

lemma peers_serialize_eq:
  assumes ll: "own_ll own_peer f c h l F ps" and wf: "\<forall>q \<in> set ps. wf_peer q"
    and len: "length (enc_peers ps) < 2 ^ 63"
  shows "\<exists>h'. same_except {} h h' \<and>
    (peer_info_list_serialize e l True True h =
       Some (SUCCESS, Some (enc_peers ps, of_nat (length (enc_peers ps))), h') \<or>
     peer_info_list_serialize e l True True h = Some (FAILURE_COULD_NOT_MALLOC, None, h') \<and>
       (\<exists>n. \<not> malloc_ok h n))"
  using ll
proof (rule peer.ll_list)
  fix p B
  let ?h = "h\<lparr>brk := Suc (brk h)\<rparr>"
  let ?hdr = "be_bytes (of_nat (length ps) :: u64)"
  assume l: "l \<noteq> NULL" "load_list l h = Some \<lparr>free_function = f, compare_function = c, head = p\<rparr>"
    "own_seg own_peer h p B ps NULL"
  show ?thesis
  proof (cases "malloc_ok h (brk h)")
    case False
    with l(1) peer.length_eq [OF ll] show ?thesis
      by (auto simp: peer_info_list_serialize_def calloc_buf_eq intro!: exI [of _ ?h] same_except_brk)
  next
    case True
    have lh: "load_list l ?h = load_list l h" by (simp add: load_list_def load_obj_def)
    have hdr: "store_word e (replicate 8 0) 0 (htobe64 e (of_nat (length ps))) = Some ?hdr"
      using store_wire [of 0 "[]" 0 "replicate 8 0" e] by simp
    have run: "peer_info_list_serialize e l True True h =
        Option.bind (serialize_peers_loop e p ?hdr 8 ?h) (\<lambda>(rc, buf, sz, h).
          if rc \<noteq> SUCCESS then Some (rc, None, h) else Some (SUCCESS, Some (buf, sz), h))"
      using l(1,2) peer.length_eq [OF ll] True hdr
      by (simp add: peer_info_list_serialize_def calloc_buf_eq lh)
    have "own_seg own_peer ?h p B ps NULL" by (rule peer.seg_frame [OF l(3)]) simp
    moreover have "length ?hdr + 36 * length ps < 2 ^ 63"
      using len wf by (simp add: enc_peers_def length_concat_const [where n = 36] length_enc_peer)
    ultimately have "appends (concat (map enc_peer ps)) ?hdr ?h
        (serialize_peers_loop e p ?hdr (of_nat (length ?hdr)) ?h)"
      using wf by (intro peers_loop_appends)
    then obtain h' where h': "same_except {} ?h h'"
      "serialize_peers_loop e p ?hdr 8 ?h = Some (SUCCESS, enc_peers ps, of_nat (length (enc_peers ps)), h') \<or>
       (\<exists>sz. serialize_peers_loop e p ?hdr 8 ?h = Some (FAILURE_COULD_NOT_MALLOC, [], sz, h')) \<and>
       (\<exists>n. \<not> malloc_ok h n)"
      unfolding appends_def by (auto simp: enc_peers_def)
    moreover have "same_except {} h h'"
      using same_except_trans [OF same_except_brk h'(1)] by simp
    ultimately show ?thesis unfolding run by (intro exI [of _ h']) auto
  qed
qed

section \<open>Deserialising\<close>

interpretation peer_app: owned_free own_peer app_free FREE
  by unfold_locales (simp add: app_free_def peer_free.free_contract)

definition own_peers :: "addr \<Rightarrow> peer_info_t list \<Rightarrow> addr set \<Rightarrow> heap \<Rightarrow> bool" where
  "own_peers l ps K h \<longleftrightarrow> own_ll own_peer FREE (Some COMPARE_PEER_INFO) h l K ps"

lemma own_peers_frame:
  "own_peers l ps K h \<Longrightarrow> (\<And>x. x \<in> K \<Longrightarrow> store h' x = store h x) \<Longrightarrow> own_peers l ps K h'"
  unfolding own_peers_def by (rule peer.ll_frame)

lemma abandon_peers_eq: "own_peers l ps K h \<Longrightarrow> abandon_peers rc l h = Some (rc, 0, free_all K h)"
  by (simp add: abandon_peers_def own_peers_def peer_app.destroy_eq)

lemma parse_peer_no_success: "parse_peer e buf buffer_size off = Some (Inl rc) \<Longrightarrow> rc \<noteq> SUCCESS"
  by (auto simp: parse_peer_def parse_then_def word_parsers parse_array_def bind_Some_iff
      split: option.splits sum.splits if_splits)

text \<open>One more peer: the allocation of the entry and of its node.\<close>

lemma append_peer_result:
  assumes ps: "own_peers l ps K h" and ok: "heap_ok h"
  shows "loop_result (\<lambda>q. own_peers l (ps @ [q])) K h (Some (Inr (p, off)))
    (deserialize_add_peer l p off h)"
proof (cases "malloc_ok h (brk h)")
  case False
  have "own_peers l ps K (h\<lparr>brk := Suc (brk h)\<rparr>)" by (rule own_peers_frame [OF ps]) simp
  from abandon_peers_eq [OF this] show ?thesis
    using False cleaned_brk [OF ok]
    by (intro loop_result_malloc) (simp_all add: deserialize_add_peer_def malloc_eq)
next
  case True
  let ?d = "Suc (brk h)"
  let ?h = "h\<lparr>brk := ?d, store := (store h)(?d \<mapsto> DataObj (PeerObj p))\<rparr>"
  have fresh: "?d \<notin> K" using peer.ll_fresh [OF ps [unfolded own_peers_def] ok] .
  have g: "grows K h (insert ?d K) ?h" by (rule grows_alloc [OF ok])
  then have ok': "heap_ok ?h" by (simp add: grows_def)
  have ps': "own_peers l ps K ?h" using fresh by (intro own_peers_frame [OF ps]) auto
  have p: "own_peer ?h ?d {?d} p" by (simp add: own_peer_def)
  show ?thesis
  proof (cases "malloc_ok ?h (brk ?h)")
    case False
    let ?h3 = "?h\<lparr>brk := Suc (brk ?h)\<rparr>"
    have "mem_free ?d ?h3 = Some (free_all {?d} ?h3)" by (rule mem_free_eq) simp_all
    moreover have "own_peers l ps K (free_all {?d} ?h3)"
      using fresh by (intro own_peers_frame [OF ps]) (subst free_all_sel(4); auto)
    moreover have "linked_list_append l ?d ?h = Some (FAILURE_COULD_NOT_MALLOC, ?h3)"
      using peer.append_fail [OF ps' [unfolded own_peers_def] _ False] by simp
    moreover have "cleaned K h (free_all (insert ?d K) ?h3)"
      by (rule grows_cleaned [OF g cleaned_brk [OF ok']])
    ultimately show ?thesis
      using True False by (intro loop_result_malloc) (simp_all add: deserialize_add_peer_def malloc_eq abandon_peers_eq)
  next
    case m: True
    have apart: "K \<inter> {?d} = {}" using fresh by simp
    from ps' [unfolded own_peers_def] p apart ok' m obtain h3 where
      h3: "linked_list_append l ?d ?h = Some (SUCCESS, h3)"
      "own_ll own_peer FREE (Some COMPARE_PEER_INFO) h3 l (insert (Suc (brk ?h)) (K \<union> {?d})) (ps @ [p])"
      "same_except (insert (Suc (brk ?h)) K) ?h h3" "heap_ok h3"
      by (rule peer.append_ok)
    have "grows (insert ?d K) ?h (insert (Suc (brk ?h)) (insert ?d K)) h3"
      using same_except_mono [OF h3(3), of "insert (Suc (brk ?h)) (insert ?d K)"] h3(4)
        heap_ok_fresh [OF ok'] by (auto simp: grows_def)
    from grows_trans [OF g this] h3(1,2) True show ?thesis
      unfolding loop_result_def by (auto simp: deserialize_add_peer_def malloc_eq own_peers_def)
  qed
qed

text \<open>A round of the loop, and the loop as a counted one.\<close>

definition deserialize_peer_round ::
  "endianness \<Rightarrow> byte list \<Rightarrow> u64 \<Rightarrow> addr \<Rightarrow> nat \<Rightarrow> heap \<Rightarrow> (return_code_t \<times> nat \<times> heap) option" where
  "deserialize_peer_round e buf buffer_size l next h =
     Option.bind (parse_peer e buf buffer_size next) (\<lambda>parsed.
       case parsed of
         Inl return_code \<Rightarrow> abandon_peers return_code l h
       | Inr (p, next) \<Rightarrow> deserialize_add_peer l p next h)"

lemma abandon_peers_code: "abandon_peers rc l h = Some (rc', off, h') \<Longrightarrow> rc' = rc"
  by (auto simp: abandon_peers_def split: Option.bind_split_asm)

lemma peers_loop_unfold:
  "deserialize_peers_loop e buf buffer_size l n idx off h =
     (if idx < n then
        Option.bind (deserialize_peer_round e buf buffer_size l off h) (\<lambda>(rc, off, h).
          if rc \<noteq> SUCCESS then Some (rc, off, h)
          else deserialize_peers_loop e buf buffer_size l n (idx + 1) off h)
      else Some (SUCCESS, off, h))"
proof (cases "\<exists>rc. parse_peer e buf buffer_size off = Some (Inl rc)")
  case True
  then obtain rc where rc: "parse_peer e buf buffer_size off = Some (Inl rc)" "rc \<noteq> SUCCESS"
    using parse_peer_no_success by blast
  have stop: "Option.bind (abandon_peers rc l h) (\<lambda>(rc, off, h). if rc \<noteq> SUCCESS then Some (rc, off, h)
      else f off h) = abandon_peers rc l h" for f
    by (rule bind_stopped) (auto dest: abandon_peers_code simp: rc(2))
  show ?thesis
    by (subst deserialize_peers_loop.simps) (simp add: deserialize_peer_round_def rc(1) stop)
next
  case False
  then show ?thesis
    by (subst deserialize_peers_loop.simps)
      (auto simp: deserialize_peer_round_def split: Option.bind_split sum.split)
qed

lemma peer_round_result:
  assumes ps: "own_peers l ps K h" and ok: "heap_ok h"
  shows "loop_result (\<lambda>q. own_peers l (ps @ [q])) K h (parse_peer e buf buffer_size off)
    (deserialize_peer_round e buf buffer_size l off h)"
proof -
  have "loop_result (\<lambda>q. own_peers l (ps @ [q])) K h
      (parse_then (parse_peer e buf buffer_size off) (\<lambda>p off. Some (Inr (p, off))))
      (deserialize_peer_round e buf buffer_size l off h)"
    unfolding deserialize_peer_round_def
    by (rule loop_result_parse)
      (auto simp: abandon_peers_eq [OF ps] parse_peer_no_success intro: cleaned_free_all [OF ok]
        append_peer_result [OF ps ok])
  then show ?thesis by (simp add: parse_then_id)
qed

interpretation peers_loop: counted_loop parse_peer e buf buffer_size n
  "\<lambda>idx. deserialize_peer_round e buf buffer_size l" "deserialize_peers_loop e buf buffer_size l n"
  "own_peers l" for e buf buffer_size n l
  by unfold_locales (rule peers_loop_unfold, rule peer_round_result)

definition parse_peers :: "peer_info_t list parser" where
  "parse_peers e buf buffer_size next =
     parse_then (parse_u64 e buf buffer_size next) (\<lambda>n next.
       parse_list parse_peer (unat n) e buf buffer_size next)"

lemma parse_peers_enc:
  assumes "\<forall>p \<in> set ps. wf_peer p" "length (enc_peers ps) \<le> unat buffer_size" "holds_at buf 0 (enc_peers ps)"
  shows "parse_peers e buf buffer_size 0 = Some (Inr (ps, length (enc_peers ps)))"
proof -
  let ?n = "of_nat (length ps) :: u64"
  have len: "length (enc_peers ps) = 8 + length (concat (map enc_peer ps))" by (simp add: enc_peers_def)
  have "length ps \<le> length (concat (map enc_peer ps))" by (rule peer_wire.list_length_bound [OF assms(1)])
  then have "length ps < 2 ^ 64"
    using assms(2) len unsigned_less [of buffer_size, where 'a = nat] by simp
  then have n: "unat ?n = length ps" by simp
  have at: "holds_at buf 0 (be_bytes ?n)" "holds_at buf 8 (concat (map enc_peer ps))"
    using assms(3) by (simp_all add: enc_peers_def holds_at_append)
  have "parse_list parse_peer (length ps) e buf buffer_size 8 =
      Some (Inr (ps, 8 + length (concat (map enc_peer ps))))"
    using assms(1,2) at(2) len by (intro peer_wire.list_enc) simp_all
  moreover have "parse_u64 e buf buffer_size 0 = Some (Inr (?n, 8))"
    using u64_wire.parse_enc [OF _ at(1), of buffer_size e] len assms(2) by simp
  ultimately show ?thesis by (simp add: parse_peers_def parse_then_simps n len)
qed

lemma parse_peers_sound:
  assumes "unat buffer_size + 0 \<le> length buf" "length buf < 2 ^ 63"
  shows "sound_parse enc_peers (\<lambda>ps. \<forall>p \<in> set ps. wf_peer p) buf (unat buffer_size + 0) 0
    (parse_peers e buf buffer_size 0)"
proof -
  have start: "holds_at buf 0 []" "0 + length ([] :: byte list) \<le> unat buffer_size + 0"
    by (simp_all add: holds_at_Nil)
  have "sound_parse enc_peers (\<lambda>ps. \<forall>p \<in> set ps. wf_peer p) buf (unat buffer_size + 0) 0
      (parse_then (parse_u64 e buf buffer_size (0 + length ([] :: byte list))) (\<lambda>n next.
        parse_then (parse_list parse_peer (unat n) e buf buffer_size next) (\<lambda>ps next. Some (Inr (ps, next)))))"
    apply (rule u64_step [OF assms], rule start, rule start)
    apply (rule sound_parse_then [OF peer_wire.list_sound [OF assms] _ refl], assumption, assumption)
    apply (rule sound_parse_done; auto simp: enc_peers_def)
    done
  then show ?thesis by (simp add: parse_peers_def parse_then_id)
qed

lemma peers_deserialize_result:
  assumes ok: "heap_ok h"
  shows "(\<exists>h'. peer_info_list_deserialize e True (Some buf) buffer_size h =
        Some (FAILURE_COULD_NOT_MALLOC, None, h') \<and> cleaned {} h h' \<and> (\<exists>n. \<not> malloc_ok h n)) \<or>
    (case parse_peers e buf buffer_size 0 of
       None \<Rightarrow> peer_info_list_deserialize e True (Some buf) buffer_size h = None
     | Some (Inl rc) \<Rightarrow> \<exists>h'. peer_info_list_deserialize e True (Some buf) buffer_size h = Some (rc, None, h') \<and>
         cleaned {} h h' \<and> rc \<noteq> SUCCESS
     | Some (Inr (ps, off)) \<Rightarrow> \<exists>h' l K.
         peer_info_list_deserialize e True (Some buf) buffer_size h = Some (SUCCESS, Some l, h') \<and>
         grows {} h K h' \<and> own_peers l ps K h')"
proof (cases "\<exists>n. parse_u64 e buf buffer_size 0 = Some (Inr (n, 0 + 8))")
  case False
  then show ?thesis
    using parse_u64_cases [of e buf buffer_size 0] cleaned_free_all [OF ok, of "{}"]
    by (auto simp: peer_info_list_deserialize_def parse_peers_def parse_then_simps)
next
  case True
  then obtain n where n: "parse_u64 e buf buffer_size 0 = Some (Inr (n, 8))" by auto
  let ?l = "Suc (brk h)"
  show ?thesis
  proof (cases "malloc_ok h (brk h)")
    case False
    with n show ?thesis
      using cleaned_brk [OF ok, of "{}"]
      by (auto simp: peer_info_list_deserialize_def create_fail)
  next
    case True
    let ?h = "h\<lparr>brk := ?l, store := (store h)(?l \<mapsto> ListObj \<lparr>free_function = FREE,
      compare_function = Some COMPARE_PEER_INFO, head = NULL\<rparr>)\<rparr>"
    let ?loop = "deserialize_peers_loop e buf buffer_size ?l n 0 8 ?h"
    have g: "grows {} h {?l} ?h" using grows_alloc [OF ok, of "{}"] by simp
    then have ok': "heap_ok ?h" by (simp add: grows_def)
    have "own_peers ?l [] {?l} ?h" by (auto simp: own_peers_def own_ll_def)
    from peers_loop.result [OF this ok', of 0 "unat n" n e buf buffer_size 8]
    have "loop_result (\<lambda>ps. own_peers ?l ([] @ ps)) {?l} ?h
        (parse_list parse_peer (unat n) e buf buffer_size 8) ?loop" by simp
    then have "loop_result (\<lambda>ps. own_peers ?l ps) {} h (parse_peers e buf buffer_size 0) ?loop"
      using n loop_result_grows [OF g] by (simp add: parse_peers_def parse_then_simps)
    moreover have "peer_info_list_deserialize e True (Some buf) buffer_size h =
        Option.bind ?loop (\<lambda>(rc, off, h). if rc \<noteq> SUCCESS then Some (rc, None, h)
          else Some (SUCCESS, Some ?l, h))"
      using n True by (simp add: peer_info_list_deserialize_def linked_list_create_def malloc_eq out_ptr_def)
    ultimately show ?thesis
      unfolding loop_result_def by (auto split: option.splits sum.splits)
  qed
qed

text \<open>Serialising changes no object on the heap, whatever the list holds.\<close>

lemma serialize_peer_frame:
  "serialize_peer e p buf sz h = Some (rc, buf', sz', h') \<Longrightarrow> same_except {} h h'"
  by (auto simp: serialize_peer_def Let_def bind_Some_iff
      split: prod.splits option.splits dest!: realloc_buf_frame)

lemma peers_loop_frame:
  assumes "serialize_peers_loop e p buf sz h = Some r"
  shows "same_except {} h (snd (snd (snd r)))"
  by (rule serialize_peers_loop.raw_induct [OF _ assms])
    (auto simp: bind_Some_iff split: if_splits
      dest!: serialize_peer_frame; blast intro: same_except_empty_trans)

lemma peers_serialize_frame:
  "peer_info_list_serialize e l o1 o2 h = Some (rc, res, h') \<Longrightarrow> same_except {} h h'"
  by (cases "calloc_buf 8 h")
    (auto simp: peer_info_list_serialize_def Let_def bind_Some_iff split: option.splits if_splits
      dest!: calloc_buf_frame peers_loop_frame; blast intro: same_except_empty_trans)

lemma deserialize_enc_peers:
  assumes "\<forall>p \<in> set ps. wf_peer p" "length (enc_peers ps) < 2 ^ 63" "heap_ok g" "\<forall>n. malloc_ok g n"
  shows "\<exists>m K g'.
    peer_info_list_deserialize e True (Some (enc_peers ps)) (of_nat (length (enc_peers ps))) g =
      Some (SUCCESS, Some m, g') \<and>
    own_ll own_peer FREE (Some COMPARE_PEER_INFO) g' m K ps \<and>
    same_except K g g' \<and> (\<forall>x \<in> K. store g x = None) \<and> heap_ok g'"
proof -
  let ?sz = "of_nat (length (enc_peers ps)) :: u64"
  have "unat ?sz = length (enc_peers ps)" using assms(2) by simp
  then have "parse_peers e (enc_peers ps) ?sz 0 = Some (Inr (ps, length (enc_peers ps)))"
    using holds_at_app [of "[]" "enc_peers ps" "[]"] by (intro parse_peers_enc [OF assms(1)]) simp_all
  with peers_deserialize_result [OF assms(3), of e "enc_peers ps" ?sz] assms(4) obtain g' m K where
    "peer_info_list_deserialize e True (Some (enc_peers ps)) ?sz g = Some (SUCCESS, Some m, g')"
    "grows {} g K g'" "own_peers m ps K g'" by auto
  then show ?thesis unfolding grows_def own_peers_def by blast
qed

text \<open>
  A peer list that one host serialises is deserialised by any host into a new list with
  the same peers in the same order.
\<close>

lemma peer_list_roundtrip:
  assumes "own_ll own_peer f c h l F ps" "\<forall>p \<in> set ps. wf_peer p" "length (enc_peers ps) < 2 ^ 63"
    and "\<forall>n. malloc_ok h n" "heap_ok g" "\<forall>n. malloc_ok g n"
  shows "\<exists>buf sz h' m K g'.
    peer_info_list_serialize e l True True h = Some (SUCCESS, Some (buf, sz), h') \<and>
    peer_info_list_deserialize e' True (Some buf) sz g = Some (SUCCESS, Some m, g') \<and>
    own_ll own_peer FREE (Some COMPARE_PEER_INFO) g' m K ps \<and>
    same_except K g g' \<and> (\<forall>x \<in> K. store g x = None)"
proof -
  let ?sz = "of_nat (length (enc_peers ps)) :: u64"
  from peers_serialize_eq [OF assms(1-3), of e] assms(4) obtain h' where
    s: "peer_info_list_serialize e l True True h = Some (SUCCESS, Some (enc_peers ps, ?sz), h')" by auto
  with deserialize_enc_peers [OF assms(2,3,5,6), of e'] show ?thesis by blast
qed

text \<open>
  C38. Deserialising a peer list from any bytes is safe as long as the stated size is not larger
  than the buffer: the function returns, on an error the heap holds exactly the objects it held
  before, and on success the buffer starts with the encoding of the new list.
\<close>

theorem peer_list_arbitrary_bytes:
  assumes "heap_ok h" "unat buffer_size \<le> length buf" "length buf < 2 ^ 63"
  shows "\<exists>rc res h'. peer_info_list_deserialize e True (Some buf) buffer_size h = Some (rc, res, h') \<and>
    (case res of
       None \<Rightarrow> rc \<noteq> SUCCESS \<and> store h' = store h
     | Some l \<Rightarrow> rc = SUCCESS \<and>
         (\<exists>ps K. own_ll own_peer FREE (Some COMPARE_PEER_INFO) h' l K ps \<and>
            (\<forall>p \<in> set ps. wf_peer p) \<and> take (length (enc_peers ps)) buf = enc_peers ps \<and>
            same_except K h h' \<and> (\<forall>x \<in> K. store h x = None)))"
proof -
  have "sound_parse enc_peers (\<lambda>ps. \<forall>p \<in> set ps. wf_peer p) buf (unat buffer_size + 0) 0
      (parse_peers e buf buffer_size 0)"
    using assms(2,3) by (intro parse_peers_sound) simp_all
  then obtain r where r: "parse_peers e buf buffer_size 0 = Some r"
    "\<And>ps off. r = Inr (ps, off) \<Longrightarrow> (\<forall>p \<in> set ps. wf_peer p) \<and> holds_at buf 0 (enc_peers ps)"
    unfolding sound_parse_def by blast
  have prefix: "take (length (enc_peers ps)) buf = enc_peers ps" if "holds_at buf 0 (enc_peers ps)" for ps
    using that by (auto simp: holds_at_def load_bytes_def split: if_splits)
  consider (failed) rc h' where "peer_info_list_deserialize e True (Some buf) buffer_size h =
      Some (rc, None, h')" "cleaned {} h h'" "rc \<noteq> SUCCESS"
    | (finished) ps off h' l K where "r = Inr (ps, off)"
      "peer_info_list_deserialize e True (Some buf) buffer_size h = Some (SUCCESS, Some l, h')"
      "grows {} h K h'" "own_peers l ps K h'"
    using peers_deserialize_result [OF assms(1), of e buf buffer_size] r(1)
    by (cases r) auto
  then show ?thesis
  proof cases
    case finished
    then show ?thesis
      using r(2) [OF finished(1)] prefix unfolding grows_def own_peers_def by (auto intro!: exI)
  qed (auto dest: cleaned_empty)
qed

theorem peer_list_arbitrary_bytes_witness:
  "\<exists>rc res h'. peer_info_list_deserialize Little True (Some (replicate 60 255)) 60 empty_heap =
     Some (rc, res, h')"
proof -
  have "unat (60 :: u64) \<le> length (replicate 60 (255 :: byte))"
    "length (replicate 60 (255 :: byte)) < 2 ^ 63" by simp_all
  from peer_list_arbitrary_bytes [OF empty_heap_simps(1) this, of Little] show ?thesis by blast
qed

end
