(* ===== verification/Bootstrap_Server.thy ===== *)
theory Bootstrap_Server imports Requests Peer_Discovery begin

text \<open>
  The bootstrap server (\<^verbatim>\<open>src/peer_discovery_bootstrap_server_thread.c\<close>): a peer registers its
  address, the server adds it to its list or renews the entry, drops the entries that have
  expired, and answers with the list.
\<close>

section \<open>The handler\<close>

text \<open>
  What the handler reads of its arguments.  \<open>getnameinfo_ok\<close> and \<open>inet_ntop_ok\<close> say
  whether the calls that prepare the progress output succeed for an address.
\<close>

record discovery_args =
  peer_keepalive_microseconds :: u64
  peer_info_list :: addr
  print_progress :: bool
  getnameinfo_ok :: "sockaddr_in6 \<Rightarrow> bool"
  inet_ntop_ok :: "sockaddr_in6 \<Rightarrow> bool"

definition progress_fails :: "discovery_args \<Rightarrow> peer_info_t \<Rightarrow> bool" where
  "progress_fails args p \<longleftrightarrow>
     print_progress args \<and> (\<not> getnameinfo_ok args (listen_addr p) \<or> \<not> inet_ntop_ok args (listen_addr p))"

text \<open>
  Adding the peer or renewing its entry, under the mutex.  The result is the error with which the
  handler ends, if any.  After a failure of the progress output the peer is freed even though it
  has just been linked into the list.
\<close>

definition register_peer ::
  "endianness \<Rightarrow> discovery_args \<Rightarrow> connection \<Rightarrow> peer_info_t \<Rightarrow> heap \<Rightarrow> (status option \<times> heap) option" where
  "register_peer e args conn p h =
     (case malloc (DataObj (PeerObj p)) h of
        (peer_info, h) \<Rightarrow>
          if peer_info = NULL then None \<comment> \<open>the result of malloc is used unchecked\<close>
          else if lock_result conn \<noteq> 0 then do {
            h \<leftarrow> mem_free peer_info h;
            Some (Some (Errno (lock_result conn)), h)
          }
          else do {
            (return_code, found_node) \<leftarrow>
              linked_list_find (app_compare e) (peer_info_list args) peer_info True h;
            if return_code \<noteq> SUCCESS then do {
              h \<leftarrow> mem_free peer_info h;
              Some (Some (Code return_code), h)
            }
            else (case found_node of
                None \<Rightarrow> do {
                  (return_code, h) \<leftarrow> linked_list_prepend (peer_info_list args) peer_info h;
                  if return_code \<noteq> SUCCESS then do {
                    h \<leftarrow> mem_free peer_info h;
                    Some (Some (Code return_code), h)
                  }
                  else if progress_fails args p then do {
                    h \<leftarrow> mem_free peer_info h;
                    Some (Some (Code FAILURE_NETWORK_FUNCTION), h)
                  }
                  else Some (None, h)
                }
              | Some node \<Rightarrow> do {
                  n \<leftarrow> load_node node h;
                  found_peer \<leftarrow> load_peer (node_data n) h;
                  h \<leftarrow> store_obj (node_data n)
                         (DataObj (PeerObj (found_peer\<lparr>last_connected := last_connected p\<rparr>))) h;
                  h \<leftarrow> mem_free peer_info h;
                  if progress_fails args p then Some (Some (Code FAILURE_NETWORK_FUNCTION), h)
                  else Some (None, h)
                })
          })"

text \<open>
  \<open>current_time - peer->last_connected > args->peer_keepalive_microseconds / 1e6\<close>.  The
  difference of the signed times and the quotient are compared as doubles, which is exact for a
  keepalive below \<open>2^53\<close> microseconds and differences below \<open>2^53\<close> seconds.
\<close>

definition peer_expired :: "u64 \<Rightarrow> u64 \<Rightarrow> peer_info_t \<Rightarrow> bool" where
  "peer_expired current_time keepalive p \<longleftrightarrow>
     (sint current_time - sint (last_connected p)) * 1000000 > uint keepalive"

text \<open>
  The loop that unlinks and frees the expired entries; \<open>prev\<close> is the entry before
  \<open>node\<close>, or NULL.
\<close>

partial_function (option) expire_loop ::
  "discovery_args \<Rightarrow> u64 \<Rightarrow> addr \<Rightarrow> addr \<Rightarrow> heap \<Rightarrow> (status option \<times> heap) option" where
  "expire_loop args current_time prev node h =
     (if node = NULL then Some (None, h)
      else do {
        n \<leftarrow> load_node node h;
        peer \<leftarrow> load_peer (node_data n) h;
        if peer_expired current_time (peer_keepalive_microseconds args) peer then do {
          h \<leftarrow> (if prev = NULL then do {
                  l \<leftarrow> load_list (peer_info_list args) h;
                  store_obj (peer_info_list args) (ListObj (l\<lparr>head := node_next n\<rparr>)) h
                }
                else do {
                  m \<leftarrow> load_node prev h;
                  store_obj prev (NodeObj (m\<lparr>node_next := node_next n\<rparr>)) h
                });
          if progress_fails args peer then Some (Some (Code FAILURE_NETWORK_FUNCTION), h)
          else do {
            l \<leftarrow> load_list (peer_info_list args) h;
            h \<leftarrow> app_free (free_function l) (node_data n) h;
            h \<leftarrow> mem_free node h;
            if prev = NULL then do {
              l \<leftarrow> load_list (peer_info_list args) h;
              expire_loop args current_time NULL (head l) h
            }
            else do {
              m \<leftarrow> load_node prev h;
              expire_loop args current_time prev (node_next m) h
            }
          }
        }
        else expire_loop args current_time node (node_next n) h
      })"

text \<open>Serialising the list and sending it.\<close>

definition send_peer_list ::
  "endianness \<Rightarrow> discovery_args \<Rightarrow> connection \<Rightarrow> heap \<Rightarrow> (status \<times> byte list \<times> heap) option" where
  "send_peer_list e args conn h =
     do {
       (return_code, result, h) \<leftarrow> peer_info_list_serialize e (peer_info_list args) True True h;
       if return_code \<noteq> SUCCESS then Some (Code return_code, [], h)
       else do {
         (data, len) \<leftarrow> result;
         if unlock_result conn \<noteq> 0 then Some (Errno (unlock_result conn), [], h)
         else do {
           (return_code, _, buffer, h) \<leftarrow> command_send_peer_list_serialize e
             (Some \<lparr>peer_list_header = \<lparr>command_prefix = COMMAND_PREFIX,
                      command = command_code COMMAND_SEND_PEER_LIST, command_len = 0\<rparr>,
                    peer_list_data_len = len, peer_list_data = data\<rparr>) True True h;
           if return_code \<noteq> SUCCESS then Some (Code return_code, [], h)
           else do {
             (send_buf, send_buf_len) \<leftarrow> buffer;
             (return_code, sent) \<leftarrow> send_all (conn_send conn) (Some send_buf) (unat send_buf_len);
             if return_code \<noteq> SUCCESS then Some (Code FAILURE_NETWORK_FUNCTION, sent, h)
             else Some (Code SUCCESS, sent, h)
           }
         }
       }
     }"

text \<open>The registration that a command carries, stamped with the time.\<close>

definition registered_peer :: "command_register_peer_t \<Rightarrow> u64 \<Rightarrow> peer_info_t" where
  "registered_peer cmd now =
     \<lparr>listen_addr = \<lparr>sin6_family = register_family cmd, sin6_port = register_port cmd,
        sin6_flowinfo = register_flowinfo cmd, sin6_addr = register_addr cmd,
        sin6_scope_id = register_scope_id cmd\<rparr>,
      last_connected = now\<rparr>"

definition update_peers ::
  "endianness \<Rightarrow> discovery_args \<Rightarrow> connection \<Rightarrow> peer_info_t \<Rightarrow> heap \<Rightarrow> (status \<times> byte list \<times> heap) option" where
  "update_peers e args conn p h =
     do {
       (r, h) \<leftarrow> register_peer e args conn p h;
       case r of
         Some st \<Rightarrow> Some (st, [], h)
       | None \<Rightarrow> do {
           l \<leftarrow> load_list (peer_info_list args) h;
           (r, h) \<leftarrow> expire_loop args (conn_time conn 1) NULL (head l) h;
           case r of
             Some st \<Rightarrow> Some (st, [], h)
           | None \<Rightarrow> send_peer_list e args conn h
         }
     }"

definition handle_one_peer_discovery_request ::
  "endianness \<Rightarrow> discovery_args \<Rightarrow> connection \<Rightarrow> heap \<Rightarrow> (status \<times> byte list \<times> heap) option" where
  "handle_one_peer_discovery_request e args conn h =
     do {
       (request, h) \<leftarrow> receive_request COMMAND_REGISTER_PEER e (conn_recv conn) h;
       case request of
         Inl return_code \<Rightarrow> Some (Code return_code, [], h)
       | Inr (recv_buf, recv_size) \<Rightarrow> do {
           (return_code, cmd) \<leftarrow> command_register_peer_deserialize e True (Some recv_buf) recv_size;
           if return_code \<noteq> SUCCESS then Some (Code return_code, [], h)
           else do {
             cmd \<leftarrow> cmd;
             update_peers e args conn (registered_peer cmd (conn_time conn 0)) h
           }
         }
     }"

text \<open>The server thread.\<close>

definition handle_peer_discovery_requests ::
  "endianness \<Rightarrow> discovery_args \<Rightarrow> server_env \<Rightarrow> heap \<Rightarrow> (status \<times> bool \<times> heap) option" where
  "handle_peer_discovery_requests e args env h =
     run_server (handle_one_peer_discovery_request e args) (print_progress args) env h"

text \<open>The entry point for \<open>pthread_create\<close>.\<close>

definition handle_peer_discovery_requests_pthread_wrapper ::
  "endianness \<Rightarrow> discovery_args \<Rightarrow> server_env \<Rightarrow> heap \<Rightarrow> (status \<times> bool \<times> heap) option" where
  "handle_peer_discovery_requests_pthread_wrapper e args env h = handle_peer_discovery_requests e args env h"

section \<open>Registering a peer\<close>

text \<open>
  What a registration does to the list of the server: the first entry with the same
  address is renewed; if there is none the peer is put in front.
\<close>

definition same_address :: "peer_info_t \<Rightarrow> peer_info_t \<Rightarrow> bool" where
  "same_address p q \<longleftrightarrow> listen_addr q = listen_addr p"

fun renew :: "peer_info_t \<Rightarrow> peer_info_t list \<Rightarrow> peer_info_t list" where
  "renew p [] = []"
| "renew p (q # qs) =
     (if same_address p q then q\<lparr>last_connected := last_connected p\<rparr> # qs else q # renew p qs)"

definition upsert :: "peer_info_t \<Rightarrow> peer_info_t list \<Rightarrow> peer_info_t list" where
  "upsert p ps = (if \<exists>q \<in> set ps. same_address p q then renew p ps else p # ps)"

lemma renew_skip:
  "\<forall>q \<in> set us. \<not> same_address p q \<Longrightarrow> same_address p q \<Longrightarrow>
   renew p (us @ q # ws) = us @ q\<lparr>last_connected := last_connected p\<rparr> # ws"
  by (induction us) auto

lemma renew_addresses: "map listen_addr (renew p ps) = map listen_addr ps"
  by (induction ps) auto

lemma upsert_wf: "wf_peer p \<Longrightarrow> \<forall>q \<in> set ps. wf_peer q \<Longrightarrow> \<forall>q \<in> set (upsert p ps). wf_peer q"
proof -
  assume wf: "wf_peer p" "\<forall>q \<in> set ps. wf_peer q"
  have "\<forall>a \<in> set (map listen_addr (renew p ps)). wf_sockaddr a"
    unfolding renew_addresses using wf(2) by (simp add: wf_peer_def)
  with wf show ?thesis by (simp add: upsert_def wf_peer_def)
qed

lemma upsert_distinct: "distinct (map listen_addr ps) \<Longrightarrow> distinct (map listen_addr (upsert p ps))"
  by (auto simp: upsert_def renew_addresses same_address_def)

lemma upsert_length: "length (upsert p ps) \<le> Suc (length ps)"
  using arg_cong [OF renew_addresses, of length p ps] by (simp add: upsert_def)

lemma compare_address:
  assumes "own_peer h a F p" "own_peer h b G q" "wf_peer p" "wf_peer q"
  shows "\<exists>k. app_compare e COMPARE_PEER_INFO a b h = Some k \<and> (k = 0 \<longleftrightarrow> same_address p q)"
  using compare_peer_eq [OF assms(1,2), of e] assms(3,4)
  by (auto simp: app_compare_def wf_peer_def same_address_def)

lemma find_new_peer:
  assumes "own_peer_list h l F ps" "own_peer h d G p" "wf_peer p" "\<forall>q \<in> set ps. wf_peer q"
    and "\<forall>q \<in> set ps. \<not> same_address p q"
  shows "linked_list_find (app_compare e) l d True h = Some (SUCCESS, None)"
proof -
  have "\<exists>r. linked_list_find (app_compare e) l d True h = Some (SUCCESS, r) \<and>
      found own_peer h F (List.find (same_address p) ps) r"
    using compare_address [OF assms(2) _ assms(3)] assms(4)
    by (intro peer.find_eq [OF assms(1) peer.own_NULL [OF assms(2)]]) auto
  moreover have "List.find (same_address p) ps = None" using assms(5) by (simp add: find_None_iff)
  ultimately show ?thesis by (auto simp: found_def)
qed

text \<open>An entry that is found can be renewed in place.\<close>

lemma find_known_peer:
  assumes "own_peer_list h l F ps" "own_peer h d G p" "wf_peer p" "\<forall>q \<in> set ps. wf_peer q"
    and "\<exists>q \<in> set ps. same_address p q"
  obtains node n q where "linked_list_find (app_compare e) l d True h = Some (SUCCESS, Some node)"
    "load_node node h = Some n" "own_peer h (node_data n) {node_data n} q" "node_data n \<in> F"
    "\<And>h'. store h' (node_data n) = Some (DataObj (PeerObj (q\<lparr>last_connected := last_connected p\<rparr>))) \<Longrightarrow>
       (\<And>x. x \<in> F \<Longrightarrow> x \<noteq> node_data n \<Longrightarrow> store h' x = store h x) \<Longrightarrow> own_peer_list h' l F (renew p ps)"
proof -
  from split_list_first_prop [OF assms(5)] obtain us q ws where
    ps: "ps = us @ q # ws" "same_address p q" "\<forall>u \<in> set us. \<not> same_address p u" by blast
  have cmp: "\<exists>k. app_compare e COMPARE_PEER_INFO d b h = Some k \<and> (k = 0 \<longleftrightarrow> same_address p v)"
    if "own_peer h b B v" "v \<in> set ps" for b B v
    using compare_address [OF assms(2) that(1) assms(3)] assms(4) that(2) by blast
  from assms(1) [unfolded ps(1)] show ?thesis
  proof (rule peer.ll_replace)
    fix hd node dq s A B
    assume *: "load_list l h = Some \<lparr>free_function = FREE, compare_function = Some COMPARE_PEER_INFO, head = hd\<rparr>"
      "l \<noteq> NULL" "own_seg own_peer h hd A us node" "node \<noteq> NULL"
      "load_node node h = Some \<lparr>node_data = dq, node_next = s\<rparr>" "own_peer h dq B q" "B \<subseteq> F"
      "\<And>h' w. own_peer h' dq B w \<Longrightarrow> (\<And>x. x \<in> F - B \<Longrightarrow> store h' x = store h x) \<Longrightarrow>
         own_peer_list h' l F (us @ w # ws)"
    have "linked_list_find_loop (app_compare e) COMPARE_PEER_INFO d hd h =
        linked_list_find_loop (app_compare e) COMPARE_PEER_INFO d node h"
      using cmp ps by (intro peer.find_loop_skip [OF *(3)]) fastforce
    moreover from cmp [OF *(6)] ps have "app_compare e COMPARE_PEER_INFO d dq h = Some 0" by auto
    then have "linked_list_find_loop (app_compare e) COMPARE_PEER_INFO d node h = Some (Some node)"
      using *(4,5) by (simp add: linked_list_find_loop.simps)
    ultimately have "linked_list_find (app_compare e) l d True h = Some (SUCCESS, Some node)"
      using *(1,2) peer.own_NULL [OF assms(2)] by (simp add: linked_list_find_def)
    moreover have B: "B = {dq}" "dq \<noteq> NULL" using *(6) by (simp_all add: own_peer_def)
    moreover have "own_peer_list h' l F (renew p ps)"
      if "store h' dq = Some (DataObj (PeerObj (q\<lparr>last_connected := last_connected p\<rparr>)))"
        "\<And>x. x \<in> F \<Longrightarrow> x \<noteq> dq \<Longrightarrow> store h' x = store h x" for h'
      using *(8) [of h' "q\<lparr>last_connected := last_connected p\<rparr>"] that B ps(1) renew_skip [OF ps(3,2)]
      by (auto simp: own_peer_def)
    ultimately show ?thesis
      using that [of node "\<lparr>node_data = dq, node_next = s\<rparr>" q] *(5,6,7) by auto
  qed
qed

text \<open>The outcome of a registration when the progress output does not fail.\<close>

lemma renew_found_peer:
  assumes "own_peer_list h l F ps" "own_peer h d {d} p" "d \<notin> F" "heap_ok h" "wf_peer p" "\<forall>q \<in> set ps. wf_peer q"
    and "\<exists>q \<in> set ps. same_address p q"
  shows "\<exists>node n q h'. linked_list_find (app_compare e) l d True h = Some (SUCCESS, Some node) \<and>
    load_node node h = Some n \<and> load_peer (node_data n) h = Some q \<and>
    Option.bind (store_obj (node_data n) (DataObj (PeerObj (q\<lparr>last_connected := last_connected p\<rparr>))) h)
      (mem_free d) = Some h' \<and>
    own_peer_list h' l F (upsert p ps) \<and> evolves (insert d F) h F h'"
  using assms(1,2,5,6,7)
proof (rule find_known_peer [where e = e])
  fix node n and q :: peer_info_t
  let ?q = "q\<lparr>last_connected := last_connected p\<rparr>"
  assume *: "linked_list_find (app_compare e) l d True h = Some (SUCCESS, Some node)"
    "load_node node h = Some n" "own_peer h (node_data n) {node_data n} q" "node_data n \<in> F"
    "\<And>h'. store h' (node_data n) = Some (DataObj (PeerObj ?q)) \<Longrightarrow>
       (\<And>x. x \<in> F \<Longrightarrow> x \<noteq> node_data n \<Longrightarrow> store h' x = store h x) \<Longrightarrow> own_peer_list h' l F (renew p ps)"
  define h1 where "h1 = h\<lparr>store := (store h)(node_data n \<mapsto> DataObj (PeerObj ?q))\<rparr>"
  have q: "node_data n \<noteq> NULL" "store h (node_data n) = Some (DataObj (PeerObj q))" "d \<noteq> node_data n"
    "d \<noteq> NULL" "store h d = Some (DataObj (PeerObj p))"
    using *(3,4) assms(2,3) by (auto simp: own_peer_def)
  have "store_obj (node_data n) (DataObj (PeerObj ?q)) h = Some h1"
    using q by (simp add: store_obj_def h1_def)
  moreover have "mem_free d h1 = Some (free_all {d} h1)" using q by (intro mem_free_eq) (auto simp: h1_def)
  moreover have "own_peer_list (free_all {d} h1) l F (renew p ps)"
    using q assms(3) by (intro *(5)) (auto simp: h1_def free_all_store restrict_map_def)
  moreover have "heap_ok (free_all {d} h1)"
    using heap_ok_update [OF assms(4) q(2)] by (auto simp: h1_def)
  then have "evolves (insert d F) h F (free_all {d} h1)"
    using *(4) by (auto simp: evolves_def same_except_def h1_def)
  ultimately show ?thesis
    using *(1,2) load_peer_store [OF q(1,2)] assms(7) by (auto simp: upsert_def)
qed

text \<open>
  The outcome of a registration after the entry \<open>d\<close> was allocated on \<open>h\<close>.
\<close>

definition registered ::
  "addr \<Rightarrow> addr set \<Rightarrow> heap \<Rightarrow> peer_info_t \<Rightarrow> peer_info_t list \<Rightarrow> status option \<Rightarrow> heap \<Rightarrow> bool" where
  "registered l F h p ps r h' \<longleftrightarrow>
     (\<exists>F' ps'. own_peer_list h' l F' ps' \<and> evolves F h F' h' \<and>
        (case r of None \<Rightarrow> ps' = upsert p ps | Some _ \<Rightarrow> ps' = ps))"

lemma discard_peer:
  assumes own: "own_peer_list h l F ps" and d: "own_peer h d {d} p" "d \<notin> F" and ok: "heap_ok h"
    and same: "same_except {} h h'"
  shows "mem_free d h' = Some (free_all {d} h')" "registered l (insert d F) h p ps (Some st) (free_all {d} h')"
proof -
  have "store h' d = Some (DataObj (PeerObj p))" "d \<noteq> NULL"
    using d(1) same by (simp_all add: own_peer_def same_except_def)
  then show "mem_free d h' = Some (free_all {d} h')" by (intro mem_free_eq)
  have "heap_ok (free_all {d} h')" using heap_ok_same [OF ok same] by auto
  then have "evolves (insert d F) h F (free_all {d} h')"
    using same by (auto simp: evolves_def same_except_def free_all_store restrict_map_def)
  moreover have "own_peer_list (free_all {d} h') l F ps"
    using same d(2) by (intro peer.ll_frame [OF own]) (auto simp: same_except_def free_all_store restrict_map_def)
  ultimately show "registered l (insert d F) h p ps (Some st) (free_all {d} h')"
    by (auto simp: registered_def)
qed

lemma prepend_new_peer:
  assumes own: "own_peer_list h l F ps" and d: "own_peer h d {d} p" "d \<notin> F" and ok: "heap_ok h"
    and new: "\<not> (\<exists>q \<in> set ps. same_address p q)"
  shows "\<exists>r h'. Option.bind (linked_list_prepend l d h) (\<lambda>(return_code, h).
      if return_code \<noteq> SUCCESS then do {
        h \<leftarrow> mem_free d h;
        Some (Some (Code return_code), h)
      }
      else Some (None, h)) = Some (r, h') \<and>
    registered l (insert d F) h p ps r h' \<and> (malloc_ok h (brk h) \<longrightarrow> r = None)"
proof (cases "malloc_ok h (brk h)")
  case True
  have "F \<inter> {d} = {}" using d(2) by simp
  from own d(1) this ok True obtain h' where h': "linked_list_prepend l d h = Some (SUCCESS, h')"
    "own_peer_list h' l (insert (Suc (brk h)) (F \<union> {d})) (p # ps)"
    "same_except (insert (Suc (brk h)) F) h h'" "heap_ok h'"
    by (rule peer.prepend_ok)
  have "evolves (insert d F) h (insert (Suc (brk h)) (F \<union> {d})) h'"
    using h'(3,4) heap_ok_fresh [OF ok] by (auto simp: evolves_def same_except_def)
  with h'(1,2) new show ?thesis by (auto simp: registered_def upsert_def)
next
  case False
  have "same_except {} h (h\<lparr>brk := Suc (brk h)\<rparr>)" by (simp add: same_except_def)
  from discard_peer [OF own d ok this] peer.prepend_fail [OF own peer.own_NULL [OF d(1)] False] False
  show ?thesis by simp
qed

lemma register_peer_result:
  assumes own: "own_peer_list h (peer_info_list args) F ps" and ok: "heap_ok h"
    and wf: "wf_peer p" "\<forall>q \<in> set ps. wf_peer q" and quiet: "\<not> progress_fails args p"
    and m: "malloc_ok h (brk h)"
  shows "\<exists>r F' ps' h'. register_peer e args conn p h = Some (r, h') \<and>
    own_peer_list h' (peer_info_list args) F' ps' \<and> evolves F h F' h' \<and>
    (case r of None \<Rightarrow> lock_result conn = 0 \<and> ps' = upsert p ps | Some _ \<Rightarrow> ps' = ps) \<and>
    (lock_result conn = 0 \<and> (\<forall>n. malloc_ok h n) \<longrightarrow> r = None)"
proof -
  let ?l = "peer_info_list args" and ?d = "Suc (brk h)"
  define h1 where "h1 = h\<lparr>brk := ?d, store := (store h)(?d \<mapsto> DataObj (PeerObj p))\<rparr>"
  have h1: "malloc (DataObj (PeerObj p)) h = (?d, h1)" using m by (simp add: malloc_eq h1_def)
  have fresh: "?d \<notin> F" "store h ?d = None" using peer.ll_fresh [OF own ok] heap_ok_fresh [OF ok] by auto
  have p: "own_peer h1 ?d {?d} p" by (simp add: h1_def own_peer_def)
  have own1: "own_peer_list h1 ?l F ps" using fresh by (intro peer.ll_frame [OF own]) (auto simp: h1_def)
  have ok1: "heap_ok h1" using ok by (auto simp: h1_def)
  have ev: "evolves F h (insert ?d F) h1" using fresh ok1 by (auto simp: evolves_def same_except_def h1_def)
  have "\<exists>r h'. register_peer e args conn p h = Some (r, h') \<and> registered ?l (insert ?d F) h1 p ps r h' \<and>
    (r = None \<longrightarrow> lock_result conn = 0) \<and> (lock_result conn = 0 \<and> (\<forall>n. malloc_ok h n) \<longrightarrow> r = None)"
  proof (cases "lock_result conn = 0")
    case False
    with discard_peer [OF own1 p fresh(1) ok1 same_except_refl] h1 show ?thesis
      by (simp add: register_peer_def)
  next
    case lock: True
    show ?thesis
    proof (cases "\<exists>q \<in> set ps. same_address p q")
      case True
      from renew_found_peer [OF own1 p fresh(1) ok1 wf True, of e] obtain node n q h2 where
        r: "linked_list_find (app_compare e) ?l ?d True h1 = Some (SUCCESS, Some node)"
        "load_node node h1 = Some n" "load_peer (node_data n) h1 = Some q"
        "Option.bind (store_obj (node_data n) (DataObj (PeerObj (q\<lparr>last_connected := last_connected p\<rparr>))) h1)
          (mem_free ?d) = Some h2"
        "own_peer_list h2 ?l F (upsert p ps)" "evolves (insert ?d F) h1 F h2" by blast
      then have "register_peer e args conn p h = Some (None, h2)"
        using h1 lock quiet by (auto simp: register_peer_def bind_Some_iff)
      with r(5,6) lock show ?thesis by (auto simp: registered_def)
    next
      case False
      have "linked_list_find (app_compare e) ?l ?d True h1 = Some (SUCCESS, None)"
        using False by (intro find_new_peer [OF own1 p wf]) blast
      with prepend_new_peer [OF own1 p fresh(1) ok1 False] h1 lock quiet show ?thesis
        by (auto simp: register_peer_def h1_def cong: if_cong)
    qed
  qed
  then show ?thesis
    unfolding registered_def using evolves_trans [OF ev] by (fastforce split: option.splits)
qed

section \<open>Expiry\<close>

definition quiet :: "discovery_args \<Rightarrow> bool" where
  "quiet args \<longleftrightarrow> (\<forall>p. \<not> progress_fails args p)"

definition live_peer :: "discovery_args \<Rightarrow> u64 \<Rightarrow> peer_info_t \<Rightarrow> bool" where
  "live_peer args now p \<longleftrightarrow> \<not> peer_expired now (peer_keepalive_microseconds args) p"

text \<open>
  The pointer that leads to \<open>node\<close>: the head of the list, or the link of the entry before.
\<close>

definition linked_at :: "addr \<Rightarrow> linked_list_t \<Rightarrow> addr \<Rightarrow> addr \<Rightarrow> addr \<Rightarrow> heap \<Rightarrow> bool" where
  "linked_at l lo prev d node h \<longleftrightarrow>
     l \<noteq> NULL \<and> free_function lo = FREE \<and>
     store h l = Some (ListObj (if prev = NULL then lo\<lparr>head := node\<rparr> else lo)) \<and>
     (prev \<noteq> NULL \<longrightarrow> prev \<noteq> l \<and> store h prev = Some (NodeObj \<lparr>node_data = d, node_next = node\<rparr>))"

definition relink :: "addr \<Rightarrow> linked_list_t \<Rightarrow> addr \<Rightarrow> addr \<Rightarrow> addr \<Rightarrow> heap \<Rightarrow> heap" where
  "relink l lo prev d node h =
     (if prev = NULL then h\<lparr>store := (store h)(l \<mapsto> ListObj (lo\<lparr>head := node\<rparr>))\<rparr>
      else h\<lparr>store := (store h)(prev \<mapsto> NodeObj \<lparr>node_data = d, node_next = node\<rparr>)\<rparr>)"

lemma relink_sel [simp]:
  "brk (relink l lo prev d node h) = brk h"
  "malloc_ok (relink l lo prev d node h) = malloc_ok h"
  "junk (relink l lo prev d node h) = junk h"
  "x \<noteq> l \<Longrightarrow> x \<noteq> prev \<Longrightarrow> store (relink l lo prev d node h) x = store h x"
  by (simp_all add: relink_def)

lemma relink_ok: "heap_ok h \<Longrightarrow> linked_at l lo prev d node h \<Longrightarrow> heap_ok (relink l lo prev d node' h)"
  by (auto simp: relink_def linked_at_def dest: heap_ok_update)

lemma linked_at_free:
  "linked_at l lo prev d node h \<Longrightarrow> l \<notin> K \<Longrightarrow> prev \<notin> K \<Longrightarrow>
   linked_at l lo prev d node' (free_all K (relink l lo prev d node' h))"
  by (auto simp: linked_at_def relink_def)

lemma expire_loop_step:
  assumes at: "linked_at l lo prev d node h" and args: "peer_info_list args = l" "quiet args"
    and node: "node \<noteq> NULL" "store h node = Some (NodeObj \<lparr>node_data = a, node_next = s\<rparr>)"
    and p: "own_peer h a {a} p" "node \<noteq> a" and apart: "{l, prev} \<inter> {node, a} = {}"
  shows "expire_loop args now prev node h =
    (if live_peer args now p then expire_loop args now node s h
     else expire_loop args now prev s (free_all {node, a} (relink l lo prev d s h)))"
proof -
  let ?h = "relink l lo prev d s h" and ?lo = "if prev = NULL then lo\<lparr>head := s\<rparr> else lo"
  let ?h2 = "free_all {node, a} ?h"
  have loads: "load_node node h = Some \<lparr>node_data = a, node_next = s\<rparr>" "load_peer a h = Some p"
    using node p by (simp_all add: load_node_def load_obj_def own_peer_def load_peer_store)
  have unlink: "load_list l h = Some (lo\<lparr>head := node\<rparr>) \<and> store_obj l (ListObj (lo\<lparr>head := s\<rparr>)) h = Some ?h"
    if "prev = NULL"
    using at that by (simp add: linked_at_def load_list_def load_obj_def store_obj_def relink_def)
  have unlink': "load_node prev h = Some \<lparr>node_data = d, node_next = node\<rparr> \<and>
      store_obj prev (NodeObj \<lparr>node_data = d, node_next = s\<rparr>) h = Some ?h" if "prev \<noteq> NULL"
    using at that by (simp add: linked_at_def load_node_def load_obj_def store_obj_def relink_def)
  have lo: "load_list l ?h = Some ?lo" "free_function ?lo = FREE"
    using at by (auto simp: linked_at_def load_list_def load_obj_def relink_def)
  have "own_peer ?h a {a} p" using apart by (intro peer.own_frame [OF p(1)]) auto
  then have "app_free FREE a ?h = Some (free_all {a} ?h)" by (rule peer_app.free_contract)
  moreover have "mem_free node (free_all {a} ?h) = Some ?h2"
    using node p(2) apart by (subst mem_free_eq) (auto simp: insert_commute)
  moreover have "load_list l ?h2 = Some ?lo" if "prev = NULL"
    using at that apart by (auto simp: linked_at_def load_list_def load_obj_def relink_def)
  moreover have "load_node prev ?h2 = Some \<lparr>node_data = d, node_next = s\<rparr>" if "prev \<noteq> NULL"
    using at that apart by (auto simp: linked_at_def load_node_def load_obj_def relink_def)
  ultimately show ?thesis
    using node(1) loads unlink unlink' lo args
    by (subst expire_loop.simps) (auto simp: live_peer_def quiet_def)
qed

text \<open>
  What the loop leaves of the entries \<open>ws\<close> it has still to visit, which own \<open>C\<close>: a
  list segment of the live ones that the same pointer leads to; the expired ones are freed.
\<close>

definition expiry_result ::
  "discovery_args \<Rightarrow> u64 \<Rightarrow> addr \<Rightarrow> linked_list_t \<Rightarrow> addr \<Rightarrow> addr \<Rightarrow> peer_info_t list \<Rightarrow> addr set \<Rightarrow>
   heap \<Rightarrow> (status option \<times> heap) option \<Rightarrow> bool" where
  "expiry_result args now l lo prev d ws C h r \<longleftrightarrow>
     (\<exists>h' q C'. r = Some (None, h') \<and> linked_at l lo prev d q h' \<and>
        own_seg own_peer h' q C' (filter (live_peer args now) ws) NULL \<and> C' \<subseteq> C \<and>
        (\<forall>x \<in> C - C'. store h' x = None) \<and> same_except (C \<union> {l, prev}) h h' \<and> heap_ok h')"

text \<open>An entry that stays, and one that is unlinked and freed, in front of the rest.\<close>

lemma expiry_keep:
  assumes at: "linked_at l lo prev d node h"
    and node: "node \<noteq> NULL" "store h node = Some (NodeObj \<lparr>node_data = a, node_next = s\<rparr>)"
    and p: "own_peer h a {a} p" "node \<noteq> a" "live_peer args now p"
    and rest: "node \<notin> H" "a \<notin> H" and apart: "{l, prev} \<inter> {node, a} = {}" "{l, prev} \<inter> H = {}"
    and tail: "expiry_result args now l (if prev = NULL then lo\<lparr>head := node\<rparr> else lo) node a ws H h r"
  shows "expiry_result args now l lo prev d (p # ws) (insert node (insert a H)) h r"
proof -
  from tail obtain h' q C' where h': "r = Some (None, h')"
    "linked_at l (if prev = NULL then lo\<lparr>head := node\<rparr> else lo) node a q h'"
    "own_seg own_peer h' q C' (filter (live_peer args now) ws) NULL" "C' \<subseteq> H"
    "\<forall>x \<in> H - C'. store h' x = None" "same_except (H \<union> {l, node}) h h'" "heap_ok h'"
    unfolding expiry_result_def by blast
  have "own_peer h' a {a} p"
    using apart p(2) rest by (intro peer.own_frame [OF p(1)] same_except_store [OF h'(6)]) auto
  then have "own_seg own_peer h' node (insert node (insert a C')) (filter (live_peer args now) (p # ws)) NULL"
    using p node rest h'(2-4) apart
    by (simp, intro peer.seg_ConsI [where d = a and q = q and G = "{a}" and H = C'])
      (auto simp: linked_at_def)
  moreover have "linked_at l lo prev d node h'"
  proof (cases "prev = NULL")
    case False
    have "store h' prev = store h prev"
      using at apart False by (intro same_except_store [OF h'(6)]) (auto simp: linked_at_def)
    with h'(2) at False node(1) show ?thesis by (simp add: linked_at_def)
  qed (use h'(2) at node(1) in \<open>simp add: linked_at_def\<close>)
  moreover have "same_except (insert node (insert a H) \<union> {l, prev}) h h'"
    using h'(6) by (auto simp: same_except_def)
  ultimately show ?thesis
    using h'(1,4,5,7) unfolding expiry_result_def
    by (intro exI [of _ h'] exI [of _ node] exI [of _ "insert node (insert a C')"]) auto
qed

lemma expiry_drop:
  assumes expired: "\<not> live_peer args now p" and rest: "node \<notin> H" "a \<notin> H"
    and apart: "{l, prev} \<inter> {node, a} = {}"
    and tail: "expiry_result args now l lo prev d ws H (free_all {node, a} (relink l lo prev d s h)) r"
  shows "expiry_result args now l lo prev d (p # ws) (insert node (insert a H)) h r"
proof -
  let ?h = "free_all {node, a} (relink l lo prev d s h)"
  from tail obtain h' q C' where h': "r = Some (None, h')" "linked_at l lo prev d q h'"
    "own_seg own_peer h' q C' (filter (live_peer args now) ws) NULL" "C' \<subseteq> H"
    "\<forall>x \<in> H - C'. store h' x = None" "same_except (H \<union> {l, prev}) ?h h'" "heap_ok h'"
    unfolding expiry_result_def by blast
  have "store h' x = None" if "x = node \<or> x = a" for x
  proof -
    have "store h' x = store ?h x" using that rest apart by (intro same_except_store [OF h'(6)]) auto
    then show ?thesis using that by auto
  qed
  moreover have "same_except (insert node (insert a H) \<union> {l, prev}) h h'"
    using h'(6) by (auto simp: same_except_def free_all_store restrict_map_def)
  ultimately show ?thesis
    using expired h' unfolding expiry_result_def
    by (intro exI [of _ h'] exI [of _ q] exI [of _ C']) auto
qed

lemma expire_loop_result:
  assumes "linked_at l lo prev d node h" "own_seg own_peer h node C ws NULL" "{l, prev} \<inter> C = {}" "heap_ok h"
    and args: "peer_info_list args = l" "quiet args"
  shows "expiry_result args now l lo prev d ws C h (expire_loop args now prev node h)"
  using assms(1-4)
proof (induction ws arbitrary: prev d node h C lo)
  case Nil
  then show ?case by (auto simp: expiry_result_def expire_loop.simps)
next
  case (Cons p ws)
  note at = Cons.prems(1)
  from Cons.prems(2) show ?case
  proof (rule peer.seg_ConsE)
    fix a s G H
    assume "node \<noteq> NULL" "store h node = Some (NodeObj \<lparr>node_data = a, node_next = s\<rparr>)"
      "own_peer h a G p" "own_seg own_peer h s H ws NULL" "node \<notin> G" "node \<notin> H" "G \<inter> H = {}"
      "C = insert node (G \<union> H)"
    then have *: "node \<noteq> NULL" "store h node = Some (NodeObj \<lparr>node_data = a, node_next = s\<rparr>)"
      "own_peer h a {a} p" "own_seg own_peer h s H ws NULL" "node \<noteq> a" "node \<notin> H" "a \<notin> H"
      "C = insert node (insert a H)"
      by (auto simp: own_peer_def)
    have apart: "{l, prev} \<inter> {node, a} = {}" "{l, prev} \<inter> H = {}" using Cons.prems(3) *(8) by auto
    note step = expire_loop_step [OF at args *(1-3,5) apart(1), of now]
    show ?thesis
    proof (cases "live_peer args now p")
      case True
      have "linked_at l (if prev = NULL then lo\<lparr>head := node\<rparr> else lo) node a s h"
        using at *(1,2) apart by (auto simp: linked_at_def)
      moreover have "{l, node} \<inter> H = {}" using apart *(6) by auto
      ultimately have "expiry_result args now l (if prev = NULL then lo\<lparr>head := node\<rparr> else lo) node a ws H h
          (expire_loop args now node s h)"
        using *(4) Cons.prems(4) by (intro Cons.IH)
      from expiry_keep [OF at *(1-3,5) True *(6,7) apart this] show ?thesis using step True *(8) by simp
    next
      case False
      let ?h = "free_all {node, a} (relink l lo prev d s h)"
      have "linked_at l lo prev d s ?h" using apart by (intro linked_at_free [OF at]) auto
      moreover have "own_seg own_peer ?h s H ws NULL"
        using *(6,7) apart(2)
        by (intro peer.seg_frame [OF *(4)]) (auto simp: free_all_store restrict_map_def intro!: relink_sel(4))
      moreover have "heap_ok ?h" using relink_ok [OF Cons.prems(4) at] by auto
      ultimately have "expiry_result args now l lo prev d ws H ?h (expire_loop args now prev s ?h)"
        using apart(2) by (intro Cons.IH)
      from expiry_drop [OF False *(6,7) apart(1) this] show ?thesis using step False *(8) by simp
    qed
  qed
qed

text \<open>On the whole list: expiry is \<open>filter\<close>.\<close>

lemma expire_list:
  assumes own: "own_peer_list h l F ps" and ok: "heap_ok h" and args: "peer_info_list args = l" "quiet args"
  shows "\<exists>lo h' F'. load_list l h = Some lo \<and> expire_loop args now NULL (head lo) h = Some (None, h') \<and>
    own_peer_list h' l F' (filter (live_peer args now) ps) \<and> F' \<subseteq> F \<and> evolves F h F' h'"
  using own
proof (rule peer.ll_list)
  fix p G
  let ?lo = "\<lparr>free_function = FREE, compare_function = Some COMPARE_PEER_INFO, head = p\<rparr>"
  assume *: "l \<noteq> NULL" "load_list l h = Some ?lo" "store h l = Some (ListObj ?lo)"
    "own_seg own_peer h p G ps NULL" "l \<notin> G" "F = insert l G"
  have "NULL \<notin> G" using peer.seg_live [OF *(4), of NULL] heap_ok_NULL [OF ok] by auto
  then have "{l, NULL} \<inter> G = {}" using *(5) by auto
  moreover have "linked_at l ?lo NULL 0 p h" using * by (simp add: linked_at_def)
  ultimately have "expiry_result args now l ?lo NULL 0 ps G h (expire_loop args now NULL p h)"
    using *(4) ok args by (intro expire_loop_result)
  then obtain h' q C' where h': "expire_loop args now NULL p h = Some (None, h')" "linked_at l ?lo NULL 0 q h'"
    "own_seg own_peer h' q C' (filter (live_peer args now) ps) NULL" "C' \<subseteq> G"
    "\<forall>x \<in> G - C'. store h' x = None" "same_except (G \<union> {l, NULL}) h h'" "heap_ok h'"
    unfolding expiry_result_def by blast
  have "own_peer_list h' l (insert l C') (filter (live_peer args now) ps)"
    using h'(2-4) *(5) by (intro peer.ll_I [where p = q and G = C']) (auto simp: linked_at_def)
  moreover have "same_except F h h'"
    using h'(6,7) ok *(6) unfolding same_except_def by (metis UnE heap_ok_NULL insertE insert_iff singletonD)
  then have "evolves F h (insert l C') h'"
    using h'(4,5,7) *(6) by (auto simp: evolves_def same_except_def)
  ultimately show ?thesis using *(2,6) h'(1,4) by (intro exI [of _ ?lo] exI [of _ h'] exI [of _ "insert l C'"]) auto
qed

section \<open>A request\<close>

text \<open>What the server's list becomes.\<close>

definition peers_after :: "discovery_args \<Rightarrow> u64 \<Rightarrow> peer_info_t \<Rightarrow> peer_info_t list \<Rightarrow> peer_info_t list" where
  "peers_after args now p ps = filter (live_peer args now) (upsert p ps)"

lemma peers_after_wf:
  "wf_peer p \<Longrightarrow> \<forall>q \<in> set ps. wf_peer q \<Longrightarrow> \<forall>q \<in> set (peers_after args now p ps). wf_peer q"
  using upsert_wf [of p ps] by (simp add: peers_after_def)

lemma peers_after_distinct:
  "distinct (map listen_addr ps) \<Longrightarrow> distinct (map listen_addr (peers_after args now p ps))"
  unfolding peers_after_def by (intro distinct_map_filter upsert_distinct)

lemma peers_after_length: "length (peers_after args now p ps) \<le> Suc (length ps)"
  unfolding peers_after_def by (rule order_trans [OF length_filter_le upsert_length])

lemma send_peer_list_frame:
  "send_peer_list e args conn h = Some (st, sent, h') \<Longrightarrow> same_except {} h h'"
  by (auto simp: send_peer_list_def split: Option.bind_split_asm if_split_asm prod.split_asm
      dest!: peers_serialize_frame send_peer_list_serialize_frame; blast intro: same_except_empty_trans)

definition peer_list_message :: "peer_info_t list \<Rightarrow> byte list" where
  "peer_list_message ps =
     enc_send_data \<lparr>command_prefix = COMMAND_PREFIX, command = command_code COMMAND_SEND_PEER_LIST,
       command_len = 8 + of_nat (length (enc_peers ps))\<rparr> (of_nat (length (enc_peers ps))) (enc_peers ps)"

lemma send_peer_list_ok:
  assumes own: "own_peer_list h (peer_info_list args) F ps" and wf: "\<forall>p \<in> set ps. wf_peer p"
    and len: "length (enc_peers ps) + 24 < 2 ^ 63" and env: "conn_ok conn" "\<forall>n. malloc_ok h n"
  shows "\<exists>h'. send_peer_list e args conn h = Some (Code SUCCESS, peer_list_message ps, h') \<and> same_except {} h h'"
proof -
  let ?data = "enc_peers ps"
  let ?len = "of_nat (length ?data) :: u64"
  let ?hdr = "\<lparr>command_prefix = COMMAND_PREFIX, command = command_code COMMAND_SEND_PEER_LIST, command_len = 0\<rparr>"
  from peers_serialize_eq [OF own wf, of e] len env(2) obtain h1 where
    s: "peer_info_list_serialize e (peer_info_list args) True True h = Some (SUCCESS, Some (?data, ?len), h1)"
    "same_except {} h h1" by auto
  have wfs: "wf_send_data COMMAND_SEND_PEER_LIST ?hdr ?len ?data"
    using len by (simp add: wf_send_data_def wf_header_def)
  have wfm: "wf_send_data COMMAND_SEND_PEER_LIST (?hdr\<lparr>command_len := 8 + ?len\<rparr>) ?len ?data"
    using len by (simp add: wf_send_data_def wf_header_def)
  have n: "unat (24 + ?len) = length (peer_list_message ps)"
    using len length_enc_send_data [OF wfm] by (subst unat_24_plus) (simp_all add: peer_list_message_def)
  have "\<forall>n. malloc_ok h1 n" using env(2) s(2) by (simp add: same_except_def)
  from send_data_serialize_eq [OF wfs len this, of e] have
    "send_data_serialize COMMAND_SEND_PEER_LIST e ?hdr ?len ?data h1 = Some (SUCCESS, ?hdr\<lparr>command_len := 8 + ?len\<rparr>,
      Some (peer_list_message ps, 24 + ?len), h1\<lparr>brk := Suc (Suc (Suc (brk h1)))\<rparr>)"
    by (simp add: peer_list_message_def)
  moreover have "send_all (conn_send conn) (Some (peer_list_message ps)) (unat (24 + ?len)) =
      Some (SUCCESS, peer_list_message ps)"
    unfolding n using env(1) by (intro send_all_ok) (simp_all add: conn_ok_def)
  ultimately show ?thesis
    using s env(1)
    by (intro exI [of _ "h1\<lparr>brk := Suc (Suc (Suc (brk h1)))\<rparr>"])
      (auto simp: send_peer_list_def command_send_peer_list_serialize_def conn_ok_def same_except_def)
qed

lemma update_peers_result:
  assumes run: "update_peers e args conn p h = Some (st, sent, h')"
    and own: "own_peer_list h (peer_info_list args) F ps" and ok: "heap_ok h"
    and wf: "wf_peer p" "\<forall>q \<in> set ps. wf_peer q" and quiet: "quiet args"
  shows "\<exists>F' ps'. own_peer_list h' (peer_info_list args) F' ps' \<and> evolves F h F' h' \<and>
    (ps' = ps \<or> ps' = peers_after args (conn_time conn 1) p ps)"
proof -
  have m: "malloc_ok h (brk h)"
    using run by (rule contrapos_pp) (simp add: update_peers_def register_peer_def malloc_eq)
  have "\<not> progress_fails args p" using quiet by (simp add: quiet_def)
  from register_peer_result [OF own ok wf this m, of e conn] obtain r F1 ps1 h1 where
    r: "register_peer e args conn p h = Some (r, h1)" "own_peer_list h1 (peer_info_list args) F1 ps1"
    "evolves F h F1 h1" "case r of None \<Rightarrow> lock_result conn = 0 \<and> ps1 = upsert p ps | Some _ \<Rightarrow> ps1 = ps"
    by blast
  show ?thesis
  proof (cases r)
    case (Some st')
    with run r show ?thesis by (auto simp: update_peers_def)
  next
    case None
    have "heap_ok h1" using r(3) by (simp add: evolves_def)
    from expire_list [OF r(2) this refl quiet, of "conn_time conn 1"] obtain lo h2 F2 where
      x: "load_list (peer_info_list args) h1 = Some lo"
      "expire_loop args (conn_time conn 1) NULL (head lo) h1 = Some (None, h2)"
      "own_peer_list h2 (peer_info_list args) F2 (filter (live_peer args (conn_time conn 1)) ps1)"
      "evolves F1 h1 F2 h2" by blast
    with run r None have "send_peer_list e args conn h2 = Some (st, sent, h')" by (simp add: update_peers_def)
    then have same: "same_except {} h2 h'" by (rule send_peer_list_frame)
    have "own_peer_list h' (peer_info_list args) F2 (peers_after args (conn_time conn 1) p ps)"
      using x(3) r(4) None by (intro peer.ll_frame [OF _ same_except_store [OF same]]) (simp_all add: peers_after_def)
    moreover have "evolves F2 h2 F2 h'" using x(4) same by (intro evolves_same) (simp_all add: evolves_def)
    ultimately show ?thesis using evolves_trans [OF evolves_trans [OF r(3) x(4)]] by blast
  qed
qed

lemma update_peers_ok:
  assumes own: "own_peer_list h (peer_info_list args) F ps" and ok: "heap_ok h"
    and wf: "wf_peer p" "\<forall>q \<in> set ps. wf_peer q" and quiet: "quiet args" and len: "length ps < 2 ^ 56"
    and env: "conn_ok conn" "\<forall>n. malloc_ok h n"
  shows "\<exists>F' h'. update_peers e args conn p h =
      Some (Code SUCCESS, peer_list_message (peers_after args (conn_time conn 1) p ps), h') \<and>
    own_peer_list h' (peer_info_list args) F' (peers_after args (conn_time conn 1) p ps) \<and> evolves F h F' h'"
proof -
  let ?ps = "peers_after args (conn_time conn 1) p ps"
  have "\<not> progress_fails args p" using quiet by (simp add: quiet_def)
  from register_peer_result [OF own ok wf this, of e conn] env obtain F1 h1 where
    r: "register_peer e args conn p h = Some (None, h1)" "own_peer_list h1 (peer_info_list args) F1 (upsert p ps)"
    "evolves F h F1 h1"
    by (fastforce simp: conn_ok_def)
  have "heap_ok h1" using r(3) by (simp add: evolves_def)
  from expire_list [OF r(2) this refl quiet, of "conn_time conn 1"] obtain lo h2 F2 where
    x: "load_list (peer_info_list args) h1 = Some lo"
    "expire_loop args (conn_time conn 1) NULL (head lo) h1 = Some (None, h2)"
    "own_peer_list h2 (peer_info_list args) F2 ?ps" "evolves F1 h1 F2 h2"
    unfolding peers_after_def by blast
  have wf': "\<forall>q \<in> set ?ps. wf_peer q" by (rule peers_after_wf [OF wf])
  have "length (enc_peers ?ps) + 24 < 2 ^ 63"
    using length_enc_peers [OF wf'] peers_after_length [of args "conn_time conn 1" p ps] len by simp
  moreover have "\<forall>n. malloc_ok h2 n" using env(2) r(3) x(4) by (simp add: evolves_def same_except_def)
  ultimately obtain h' where h': "send_peer_list e args conn h2 = Some (Code SUCCESS, peer_list_message ?ps, h')"
    "same_except {} h2 h'"
    using send_peer_list_ok [OF x(3) wf'] env(1) by blast
  have "own_peer_list h' (peer_info_list args) F2 ?ps"
    by (intro peer.ll_frame [OF x(3) same_except_store [OF h'(2)]]) simp
  moreover have "evolves F2 h2 F2 h'" using x(4) h'(2) by (intro evolves_same) (simp_all add: evolves_def)
  ultimately show ?thesis
    using r(1) x(1,2) h'(1) evolves_trans [OF evolves_trans [OF r(3) x(4)]] by (simp add: update_peers_def) blast
qed

text \<open>
  A connection on which a client sends the registration \<open>c\<close>; bytes behind its fields are
  padding.
\<close>

definition sends_registration :: "connection \<Rightarrow> command_register_peer_t \<Rightarrow> bool" where
  "sends_registration conn c \<longleftrightarrow>
     wf_register_peer c \<and>
     arrives (conn_recv conn 0) (enc_command_header (register_header c)) \<and>
     (\<exists>payload padding. arrives (conn_recv conn 1) payload \<and>
        enc_command_header (register_header c) @ payload = enc_register_peer c @ padding \<and>
        unat (command_len (register_header c)) = length payload \<and> length payload + 16 < 2 ^ 63)"

lemma receive_registration:
  assumes "sends_registration conn c" "\<forall>n. malloc_ok h n"
  obtains buf sz where
    "receive_request COMMAND_REGISTER_PEER e (conn_recv conn) h = Some (Inr (buf, sz), h\<lparr>brk := Suc (Suc (brk h))\<rparr>)"
    "command_register_peer_deserialize e True (Some buf) sz = Some (SUCCESS, Some c)"
proof -
  let ?hdr = "register_header c"
  from assms(1) obtain payload padding where
    p: "wf_register_peer c" "arrives (conn_recv conn 0) (enc_command_header ?hdr)"
    "arrives (conn_recv conn 1) payload" "enc_command_header ?hdr @ payload = enc_register_peer c @ padding"
    "unat (command_len ?hdr) = length payload" "length payload + 16 < 2 ^ 63"
    unfolding sends_registration_def by blast
  have wf: "wf_header ?hdr" "command ?hdr = command_code COMMAND_REGISTER_PEER" "length (register_addr c) = 16"
    using p(1) by (simp_all add: wf_register_peer_def)
  have size: "unat (16 + command_len ?hdr) = 16 + length payload"
    using p(5,6) by (simp add: unat_word_ariths)
  have "length (enc_register_peer c) = 44"
    using wf by (simp add: enc_register_peer_def length_enc_command_header)
  then have "44 \<le> unat (16 + command_len ?hdr)"
    using arg_cong [OF p(4), of length] wf(1) size by (simp add: length_enc_command_header)
  moreover have "holds_at (enc_command_header ?hdr @ payload) 0 (enc_register_peer c)"
    using holds_at_app [of "[]" "enc_register_peer c" padding] p(4) by simp
  ultimately have "command_register_peer_deserialize e True (Some (enc_command_header ?hdr @ payload))
      (16 + command_len ?hdr) = Some (SUCCESS, Some c)"
    using parse_register_peer_enc [OF p(1)] by (simp add: command_register_peer_deserialize_def filled_def)
  with receive_request_ok [OF wf(1,2) assms(2) p(2,3,5,6)] that show ?thesis by blast
qed

lemma register_deserialize_shape:
  assumes "command_register_peer_deserialize e out buf sz = Some (rc, Some c)"
  shows "wf_peer (registered_peer c now)"
proof -
  from assms obtain buf' off where "parse_register_peer e buf' sz 0 = Some (Inr (c, off))"
    by (auto simp: command_register_peer_deserialize_def filled_def
        split: option.split_asm if_split_asm sum.split_asm)
  then have "length (register_addr c) = 16"
    by (auto simp: parse_register_peer_def parse_then_Inr dest!: parse_array_length split: if_split_asm)
  then show ?thesis by (simp add: wf_peer_def wf_sockaddr_def registered_peer_def)
qed

lemma request_result:
  assumes run: "handle_one_peer_discovery_request e args conn h = Some (st, sent, h')"
    and own: "own_peer_list h (peer_info_list args) F ps" and ok: "heap_ok h"
    and wf: "\<forall>q \<in> set ps. wf_peer q" and quiet: "quiet args"
  shows "\<exists>F' ps'. own_peer_list h' (peer_info_list args) F' ps' \<and> evolves F h F' h' \<and>
    (ps' = ps \<or> (\<exists>p. wf_peer p \<and> ps' = peers_after args (conn_time conn 1) p ps))"
proof -
  from run obtain req h0 where req: "receive_request COMMAND_REGISTER_PEER e (conn_recv conn) h = Some (req, h0)"
    by (auto simp: handle_one_peer_discovery_request_def split: Option.bind_split_asm)
  have h0: "same_except {} h h0" by (rule receive_request_frame [OF req])
  have own0: "own_peer_list h0 (peer_info_list args) F ps"
    by (intro peer.ll_frame [OF own same_except_store [OF h0]]) simp
  have ev: "evolves F h F h0" by (rule evolves_same [OF ok h0])
  from run req consider "h' = h0"
    | c buf sz where "command_register_peer_deserialize e True (Some buf) sz = Some (SUCCESS, Some c)"
      "update_peers e args conn (registered_peer c (conn_time conn 0)) h0 = Some (st, sent, h')"
    by (auto simp: handle_one_peer_discovery_request_def
        split: Option.bind_split_asm sum.split_asm prod.split_asm if_split_asm)
  then show ?thesis
  proof cases
    case 1
    with own0 ev show ?thesis by blast
  next
    case 2
    have p: "wf_peer (registered_peer c (conn_time conn 0))" by (rule register_deserialize_shape [OF 2(1)])
    have "heap_ok h0" by (rule heap_ok_same [OF ok h0])
    from update_peers_result [OF 2(2) own0 this p wf quiet] p show ?thesis
      using evolves_trans [OF ev] by blast
  qed
qed

lemma registration_ok:
  assumes "own_peer_list h (peer_info_list args) F ps" "\<forall>q \<in> set ps. wf_peer q" "length ps < 2 ^ 56" "heap_ok h"
    and "sends_registration conn c" "quiet args" "conn_ok conn" "\<forall>n. malloc_ok h n"
  defines "ps' \<equiv> peers_after args (conn_time conn 1) (registered_peer c (conn_time conn 0)) ps"
  shows "\<exists>F' h'. handle_one_peer_discovery_request e args conn h = Some (Code SUCCESS, peer_list_message ps', h') \<and>
    own_peer_list h' (peer_info_list args) F' ps' \<and> evolves F h F' h'"
proof -
  let ?h = "h\<lparr>brk := Suc (Suc (brk h))\<rparr>"
  from receive_registration [OF assms(5,8)] obtain buf sz where
    r: "receive_request COMMAND_REGISTER_PEER e (conn_recv conn) h = Some (Inr (buf, sz), ?h)"
    "command_register_peer_deserialize e True (Some buf) sz = Some (SUCCESS, Some c)" by metis
  have same: "same_except {} h ?h" by (simp add: same_except_def)
  have own: "own_peer_list ?h (peer_info_list args) F ps" by (intro peer.ll_frame [OF assms(1)]) simp
  have "\<forall>n. malloc_ok ?h n" using assms(8) by simp
  from update_peers_ok [OF own heap_ok_same [OF assms(4) same] register_deserialize_shape [OF r(2)] assms(2,6,3,7) this,
      of e "conn_time conn 0"]
  obtain F' h' where
    h': "update_peers e args conn (registered_peer c (conn_time conn 0)) ?h =
      Some (Code SUCCESS, peer_list_message ps', h')"
    "own_peer_list h' (peer_info_list args) F' ps'" "evolves F ?h F' h'"
    unfolding ps'_def by blast
  have "handle_one_peer_discovery_request e args conn h = Some (Code SUCCESS, peer_list_message ps', h')"
    using r h'(1) by (simp add: handle_one_peer_discovery_request_def)
  with h'(2) evolves_trans [OF evolves_same [OF assms(4) same] h'(3)] show ?thesis by blast
qed

text \<open>
  C8. The bootstrap server implements its contract.  A well-formed registration renews the
  entry with the same address, or adds the peer in front if there is none; then exactly the
  entries that have not connected within the keepalive time remain, in their order; and the reply
  is the encoding of this very list.  The objects of the entries that are dropped are freed,
  those of a new entry are new, and no other object is touched or lost.
\<close>

theorem registration_updates_peer_list:
  assumes "own_peer_list h (peer_info_list args) F ps" "\<forall>q \<in> set ps. wf_peer q" "length ps < 2 ^ 56" "heap_ok h"
    and "sends_registration conn c" "quiet args" "conn_ok conn" "\<forall>n. malloc_ok h n"
    and "ps' = filter (live_peer args (conn_time conn 1)) (upsert (registered_peer c (conn_time conn 0)) ps)"
  shows "\<exists>F' h'. handle_one_peer_discovery_request e args conn h = Some (Code SUCCESS, peer_list_message ps', h') \<and>
    own_peer_list h' (peer_info_list args) F' ps' \<and> evolves F h F' h'"
  using registration_ok [OF assms(1-8)] unfolding assms(9) peers_after_def .

text \<open>A server that keeps entries for two seconds, and a client with a new address.\<close>

definition example_args :: "addr \<Rightarrow> discovery_args" where
  "example_args l = \<lparr>peer_keepalive_microseconds = 2000000, peer_info_list = l, print_progress = False,
     getnameinfo_ok = (\<lambda>_. True), inet_ntop_ok = (\<lambda>_. True)\<rparr>"

definition example_registration :: command_register_peer_t where
  "example_registration = example_register_peer\<lparr>register_header := (register_header example_register_peer)\<lparr>command_len := 32\<rparr>,
     register_port := 12346\<rparr>"

definition registration_connection :: "command_register_peer_t \<Rightarrow> connection" where
  "registration_connection c = example_connection (enc_command_header (register_header c))
     (drop 16 (enc_register_peer c) @ replicate 4 0)"

lemma example_sends_registration:
  assumes "wf_register_peer c" "command_len (register_header c) = 32"
  shows "sends_registration (registration_connection c) c"
proof -
  let ?hdr = "enc_command_header (register_header c)"
  let ?pay = "drop 16 (enc_register_peer c) @ replicate 4 0"
  have len: "length ?hdr = 16" "length ?pay = 32" "take 16 (enc_register_peer c) = ?hdr"
    using assms(1) by (simp_all add: wf_register_peer_def enc_register_peer_def length_enc_command_header)
  then have "?hdr @ ?pay = enc_register_peer c @ replicate 4 0"
    by (metis append.assoc append_take_drop_id)
  moreover have "arrives (\<lambda>i n. Some ?hdr) ?hdr" "arrives (\<lambda>i n. Some ?pay) ?pay"
    by (rule example_arrives; simp only: len; simp)+
  ultimately show ?thesis
    using assms len(2) unfolding sends_registration_def
    by (intro conjI exI [of _ ?pay] exI [of _ "replicate 4 0"])
      (simp_all add: registration_connection_def example_connection_def)
qed

lemma example_registration_ok:
  "sends_registration (registration_connection example_registration) example_registration"
  "quiet (example_args l)" "conn_ok (registration_connection c)" "\<forall>q \<in> set [example_peer 5]. wf_peer q"
proof -
  have "wf_register_peer example_registration" "command_len (register_header example_registration) = 32"
    by (simp_all add: wf_register_peer_def wf_header_def example_registration_def example_register_peer_def)
  then show "sends_registration (registration_connection example_registration) example_registration"
    by (rule example_sends_registration)
  show "quiet (example_args l)" by (simp add: quiet_def progress_fails_def example_args_def)
  show "conn_ok (registration_connection c)" by (simp add: registration_connection_def example_conn_ok)
  show "\<forall>q \<in> set [example_peer 5]. wf_peer q" by (simp add: wf_peer_def wf_sockaddr_def example_peer_def)
qed

text \<open>The only entry has expired, the new client is the only one left.\<close>

theorem registration_updates_peer_list_witness:
  "\<exists>F' h'. handle_one_peer_discovery_request Little (example_args 1)
       (registration_connection example_registration) example_peer_heap =
      Some (Code SUCCESS, peer_list_message [registered_peer example_registration 100], h') \<and>
    own_peer_list h' 1 F' [registered_peer example_registration 100]"
proof -
  let ?conn = "registration_connection example_registration"
  have "[registered_peer example_registration 100] = filter (live_peer (example_args 1) (conn_time ?conn 1))
      (upsert (registered_peer example_registration (conn_time ?conn 0)) [example_peer 5])"
    by (simp add: registered_peer_def example_registration_def example_register_peer_def upsert_def same_address_def
        live_peer_def peer_expired_def registration_connection_def example_connection_def example_args_def example_peer_def)
  moreover have "own_peer_list example_peer_heap (peer_info_list (example_args 1)) {1, 2, 3} [example_peer 5]"
    using example_peer_heap_owns(1) by (simp add: example_args_def)
  moreover have "length [example_peer 5] < 2 ^ 56" "\<forall>n. malloc_ok example_peer_heap n"
    by (simp_all add: example_peer_heap_owns(4))
  ultimately show ?thesis
    using registration_updates_peer_list [OF _ example_registration_ok(4) _ example_peer_heap_owns(3)
        example_registration_ok(1,2,3), where e = Little]
    unfolding example_args_def by simp blast
qed

section \<open>The server\<close>

definition discovery_inv :: "discovery_args \<Rightarrow> heap \<Rightarrow> addr set \<Rightarrow> heap \<Rightarrow> bool" where
  "discovery_inv args h0 F h \<longleftrightarrow>
     quiet args \<and> heap_ok h \<and> (\<exists>F' ps. own_peer_list h (peer_info_list args) F' ps \<and> evolves F h0 F' h \<and>
       (\<forall>q \<in> set ps. wf_peer q) \<and> distinct (map listen_addr ps))"

interpretation discovery: request_handler "handle_one_peer_discovery_request e args" "discovery_inv args h0 F"
  for e args h0 F
proof
  fix h conn st sent h'
  assume "discovery_inv args h0 F h" and run: "handle_one_peer_discovery_request e args conn h = Some (st, sent, h')"
  then obtain F1 ps where h: "quiet args" "heap_ok h" "own_peer_list h (peer_info_list args) F1 ps" "evolves F h0 F1 h"
    "\<forall>q \<in> set ps. wf_peer q" "distinct (map listen_addr ps)"
    unfolding discovery_inv_def by blast
  from request_result [OF run h(3,2,5,1)] obtain F2 ps' where
    h': "own_peer_list h' (peer_info_list args) F2 ps'" "evolves F1 h F2 h'"
    "ps' = ps \<or> (\<exists>p. wf_peer p \<and> ps' = peers_after args (conn_time conn 1) p ps)" by blast
  then have "(\<forall>q \<in> set ps'. wf_peer q) \<and> distinct (map listen_addr ps')"
    using h(5,6) peers_after_wf peers_after_distinct by blast
  moreover have "heap_ok h'" using h'(2) by (simp add: evolves_def)
  ultimately show "discovery_inv args h0 F h'"
    using h(1) h'(1) evolves_trans [OF h(4) h'(2)] unfolding discovery_inv_def by blast
next
  fix h
  assume "discovery_inv args h0 F h"
  then obtain F1 ps where h: "quiet args" "heap_ok h" "own_peer_list h (peer_info_list args) F1 ps" "evolves F h0 F1 h"
    "\<forall>q \<in> set ps. wf_peer q" "distinct (map listen_addr ps)"
    unfolding discovery_inv_def by blast
  have same: "same_except {} h (h\<lparr>brk := Suc (brk h)\<rparr>)" by (simp add: same_except_def)
  have "own_peer_list (h\<lparr>brk := Suc (brk h)\<rparr>) (peer_info_list args) F1 ps" by (intro peer.ll_frame [OF h(3)]) simp
  with h(1,2,5,6) evolves_trans [OF h(4) evolves_same [OF h(2) same]]
  show "discovery_inv args h0 F (h\<lparr>brk := Suc (brk h)\<rparr>)" unfolding discovery_inv_def by blast
qed

lemma discovery_requests_result:
  assumes "handle_peer_discovery_requests e args env h = Some (st, ready, h')" "quiet args" "heap_ok h"
    and "own_peer_list h (peer_info_list args) F ps" "\<forall>q \<in> set ps. wf_peer q" "distinct (map listen_addr ps)"
  shows "\<exists>F' ps'. own_peer_list h' (peer_info_list args) F' ps' \<and> (\<forall>q \<in> set ps'. wf_peer q) \<and>
    distinct (map listen_addr ps') \<and> evolves F h F' h'"
proof -
  have "discovery_inv args h F h"
    using assms(2-6) evolves_same [OF assms(3) same_except_refl] unfolding discovery_inv_def by blast
  from discovery.run_server_inv [OF assms(1) [unfolded handle_peer_discovery_requests_def] this]
  show ?thesis unfolding discovery_inv_def by blast
qed



section \<open>A failed progress output\<close>

text \<open>A list whose first entry points to an object that is no longer there.\<close>

definition dangling_list :: "heap \<Rightarrow> addr \<Rightarrow> bool" where
  "dangling_list h l \<longleftrightarrow>
     (\<exists>lo d s. l \<noteq> NULL \<and> store h l = Some (ListObj lo) \<and> compare_function lo = Some COMPARE_PEER_INFO \<and>
        head lo \<noteq> NULL \<and> store h (head lo) = Some (NodeObj \<lparr>node_data = d, node_next = s\<rparr>) \<and>
        d \<noteq> NULL \<and> store h d = None \<and> d \<le> brk h)"

lemma register_dangling:
  assumes "dangling_list h (peer_info_list args)" "heap_ok h" "lock_result conn = 0"
  shows "register_peer e args conn p h = None"
proof (cases "malloc_ok h (brk h)")
  case False
  then show ?thesis by (simp add: register_peer_def malloc_eq)
next
  case True
  let ?l = "peer_info_list args" and ?d = "Suc (brk h)"
  define h1 where "h1 = h\<lparr>brk := ?d, store := (store h)(?d \<mapsto> DataObj (PeerObj p))\<rparr>"
  from assms(1) obtain lo d s where *: "?l \<noteq> NULL" "store h ?l = Some (ListObj lo)"
    "compare_function lo = Some COMPARE_PEER_INFO" "head lo \<noteq> NULL"
    "store h (head lo) = Some (NodeObj \<lparr>node_data = d, node_next = s\<rparr>)" "d \<noteq> NULL" "store h d = None" "d \<le> brk h"
    by (auto simp: dangling_list_def)
  have "?l \<noteq> ?d" "head lo \<noteq> ?d" "d \<noteq> ?d" using * heap_ok_fresh [OF assms(2)] by auto
  then have "load_list ?l h1 = Some lo" "load_node (head lo) h1 = Some \<lparr>node_data = d, node_next = s\<rparr>"
    "load_peer d h1 = None"
    using * by (simp_all add: h1_def load_list_def load_node_def load_peer_def load_data_def load_obj_def)
  then have "linked_list_find (app_compare e) ?l ?d True h1 = None"
    using * by (simp add: linked_list_find_def linked_list_find_loop.simps [of _ _ _ "head lo"] app_compare_def
        compare_peer_info_t_def)
  then show ?thesis using True assms(3) by (simp add: register_peer_def malloc_eq h1_def)
qed

lemma register_progress_fails:
  assumes own: "own_peer_list h (peer_info_list args) F ps" and ok: "heap_ok h"
    and wf: "wf_peer p" "\<forall>q \<in> set ps. wf_peer q" and new: "\<forall>q \<in> set ps. \<not> same_address p q"
    and fails: "progress_fails args p" and env: "lock_result conn = 0" "\<forall>n. malloc_ok h n"
  shows "\<exists>h'. register_peer e args conn p h = Some (Some (Code FAILURE_NETWORK_FUNCTION), h') \<and>
    dangling_list h' (peer_info_list args) \<and> heap_ok h' \<and> malloc_ok h' = malloc_ok h"
proof -
  let ?l = "peer_info_list args" and ?d = "Suc (brk h)"
  define h1 where "h1 = h\<lparr>brk := ?d, store := (store h)(?d \<mapsto> DataObj (PeerObj p))\<rparr>"
  have h1: "malloc (DataObj (PeerObj p)) h = (?d, h1)" using env(2) by (simp add: malloc_eq h1_def)
  have fresh: "?d \<notin> F" by (rule peer.ll_fresh [OF own ok])
  have p: "own_peer h1 ?d {?d} p" by (simp add: h1_def own_peer_def)
  have own1: "own_peer_list h1 ?l F ps" using fresh by (intro peer.ll_frame [OF own]) (auto simp: h1_def)
  have ok1: "heap_ok h1" using ok by (auto simp: h1_def)
  have find: "linked_list_find (app_compare e) ?l ?d True h1 = Some (SUCCESS, None)"
    by (rule find_new_peer [OF own1 p wf new])
  from own1 show ?thesis
  proof (rule peer.ll_list)
    fix q G
    let ?n = "Suc (brk h1)"
    let ?lo = "\<lparr>free_function = FREE, compare_function = Some COMPARE_PEER_INFO, head = ?n\<rparr>"
    assume *: "?l \<noteq> NULL" "load_list ?l h1 = Some \<lparr>free_function = FREE, compare_function = Some COMPARE_PEER_INFO, head = q\<rparr>"
      "store h1 ?l = Some (ListObj \<lparr>free_function = FREE, compare_function = Some COMPARE_PEER_INFO, head = q\<rparr>)" "F = insert ?l G"
    define h2 where "h2 = h1\<lparr>brk := ?n, store := (store h1)(?n \<mapsto> NodeObj \<lparr>node_data = ?d, node_next = q\<rparr>, ?l \<mapsto> ListObj ?lo)\<rparr>"
    have apart: "?l \<noteq> ?d" "?l \<noteq> ?n" "?d \<noteq> ?n" using fresh *(3,4) heap_ok_fresh [OF ok1] by (auto simp: h1_def)
    have "linked_list_prepend ?l ?d h1 = Some (SUCCESS, h2)"
      using linked_list_prepend_eq [OF *(1) _ *(3) ok1, of ?d] env(2) by (simp add: h2_def) (simp add: h1_def)
    moreover have "mem_free ?d h2 = Some (free_all {?d} h2)"
      using apart p by (intro mem_free_eq) (auto simp: h2_def own_peer_def)
    moreover have "heap_ok h2" using ok1 *(1,3) by (auto simp: h2_def heap_ok_def intro: le_SucI)
    moreover have "dangling_list (free_all {?d} h2) ?l"
      unfolding dangling_list_def using *(1) apart
      by (intro exI [of _ ?lo] exI [of _ ?d] exI [of _ q]) (simp add: h2_def h1_def)
    ultimately show ?thesis
      using h1 find fails env(1) by (auto simp: register_peer_def h2_def h1_def)
  qed
qed

text \<open>
  C32. A failed lookup of the name of a new client corrupts the server.  With progress output
  on, the handler frees the entry it has just linked into the list; the request fails, and the
  next well-formed registration of any client reads the freed entry, which is undefined behaviour.
\<close>

theorem failed_name_lookup_corrupts_list:
  assumes "own_peer_list h (peer_info_list args) F ps" "\<forall>q \<in> set ps. wf_peer q" "heap_ok h"
    and "sends_registration conn c" "lock_result conn = 0" "\<forall>n. malloc_ok h n"
    and "print_progress args" "\<forall>a. \<not> getnameinfo_ok args a"
    and "\<forall>q \<in> set ps. \<not> same_address (registered_peer c (conn_time conn 0)) q"
    and "sends_registration conn' c'" "lock_result conn' = 0"
  shows "\<exists>h'. handle_one_peer_discovery_request e args conn h = Some (Code FAILURE_NETWORK_FUNCTION, [], h') \<and>
    handle_one_peer_discovery_request e args conn' h' = None"
proof -
  let ?h = "h\<lparr>brk := Suc (Suc (brk h))\<rparr>"
  let ?p = "registered_peer c (conn_time conn 0)"
  from receive_registration [OF assms(4,6)] obtain buf sz where
    r: "receive_request COMMAND_REGISTER_PEER e (conn_recv conn) h = Some (Inr (buf, sz), ?h)"
    "command_register_peer_deserialize e True (Some buf) sz = Some (SUCCESS, Some c)" by metis
  have same: "same_except {} h ?h" by (simp add: same_except_def)
  have own: "own_peer_list ?h (peer_info_list args) F ps" by (intro peer.ll_frame [OF assms(1)]) simp
  have fails: "progress_fails args ?p" using assms(7,8) by (simp add: progress_fails_def)
  have m: "\<forall>n. malloc_ok ?h n" using assms(6) by simp
  from register_progress_fails [OF own heap_ok_same [OF assms(3) same] register_deserialize_shape [OF r(2)]
      assms(2,9) fails assms(5) m, of e]
  obtain h' where h': "register_peer e args conn ?p ?h = Some (Some (Code FAILURE_NETWORK_FUNCTION), h')"
    "dangling_list h' (peer_info_list args)" "heap_ok h'" "malloc_ok h' = malloc_ok h" by auto
  let ?h' = "h'\<lparr>brk := Suc (Suc (brk h'))\<rparr>"
  have "\<forall>n. malloc_ok h' n" using h'(4) assms(6) by simp
  from receive_registration [OF assms(10) this] obtain buf' sz' where
    r': "receive_request COMMAND_REGISTER_PEER e (conn_recv conn') h' = Some (Inr (buf', sz'), ?h')"
    "command_register_peer_deserialize e True (Some buf') sz' = Some (SUCCESS, Some c')" by metis
  have "dangling_list ?h' (peer_info_list args)" using h'(2) by (auto simp: dangling_list_def)
  moreover have "heap_ok ?h'" using h'(3) by (rule heap_ok_same) (simp add: same_except_def)
  ultimately have "register_peer e args conn' (registered_peer c' (conn_time conn' 0)) ?h' = None"
    using assms(11) by (rule register_dangling)
  with r r' h'(1) show ?thesis
    by (intro exI [of _ h']) (simp add: handle_one_peer_discovery_request_def update_peers_def)
qed

theorem failed_name_lookup_corrupts_list_witness:
  "\<exists>h'. handle_one_peer_discovery_request Little
      ((example_args 1)\<lparr>print_progress := True, getnameinfo_ok := (\<lambda>_. False)\<rparr>)
      (registration_connection example_registration) example_peer_heap = Some (Code FAILURE_NETWORK_FUNCTION, [], h') \<and>
    handle_one_peer_discovery_request Little
      ((example_args 1)\<lparr>print_progress := True, getnameinfo_ok := (\<lambda>_. False)\<rparr>)
      (registration_connection example_registration) h' = None"
proof -
  let ?args = "(example_args 1)\<lparr>print_progress := True, getnameinfo_ok := (\<lambda>_. False)\<rparr>"
  let ?conn = "registration_connection example_registration"
  have "own_peer_list example_peer_heap (peer_info_list ?args) {1, 2, 3} [example_peer 5]"
    using example_peer_heap_owns(1) by (simp add: example_args_def)
  moreover have "lock_result ?conn = 0" "\<forall>n. malloc_ok example_peer_heap n" "print_progress ?args"
    "\<forall>a. \<not> getnameinfo_ok ?args a"
    by (simp_all add: registration_connection_def example_connection_def example_peer_heap_owns(4))
  moreover have "\<forall>q \<in> set [example_peer 5]. \<not> same_address (registered_peer example_registration (conn_time ?conn 0)) q"
    by (simp add: same_address_def registered_peer_def example_registration_def example_peer_def)
  ultimately show ?thesis
    using failed_name_lookup_corrupts_list [OF _ example_registration_ok(4) example_peer_heap_owns(3)
        example_registration_ok(1)] example_registration_ok(1) by blast
qed

end
