(* ===== verification/Peer_Table.thy ===== *)
theory Peer_Table imports Server_Runs Bootstrap_Server begin

text \<open>
  The bootstrap server (\<^verbatim>\<open>src/peer_discovery_bootstrap_server_thread.c\<close>) as a table: its
  linked list of peers implements a finite map from addresses to the time of the last contact, and
  a run of the server leaves exactly the peers that have been heard of within the keepalive time.
\<close>

section \<open>The table\<close>

type_synonym peer_table = "sockaddr_in6 \<rightharpoonup> u64"

definition table_of :: "peer_info_t list \<Rightarrow> peer_table" where
  "table_of ps = map_of (map (\<lambda>p. (listen_addr p, last_connected p)) ps)"

definition within_keepalive :: "discovery_args \<Rightarrow> u64 \<Rightarrow> u64 \<Rightarrow> bool" where
  "within_keepalive args now t \<longleftrightarrow>
     (sint now - sint t) * 1000000 \<le> uint (peer_keepalive_microseconds args)"

definition keep_live :: "discovery_args \<Rightarrow> u64 \<Rightarrow> peer_table \<Rightarrow> peer_table" where
  "keep_live args now m =
     (\<lambda>a. case m a of None \<Rightarrow> None | Some t \<Rightarrow> if within_keepalive args now t then Some t else None)"

text \<open>A registration: the command, the time it is stamped with, and the time of the expiry check.\<close>

type_synonym registration = "command_register_peer_t \<times> u64 \<times> u64"

fun note_peer :: "peer_table \<Rightarrow> registration \<Rightarrow> peer_table" where
  "note_peer m (c, t, now) = m(listen_addr (registered_peer c t) \<mapsto> t)"

fun table_register :: "discovery_args \<Rightarrow> peer_table \<Rightarrow> registration \<Rightarrow> peer_table" where
  "table_register args m (c, t, now) = keep_live args now (note_peer m (c, t, now))"

lemma live_within: "live_peer args now p \<longleftrightarrow> within_keepalive args now (last_connected p)"
  by (auto simp: live_peer_def peer_expired_def within_keepalive_def)

lemma table_of_Cons [simp]: "table_of (p # ps) = (table_of ps)(listen_addr p \<mapsto> last_connected p)"
  by (simp add: table_of_def)

lemma table_of_Nil [simp]: "table_of [] = Map.empty"
  by (simp add: table_of_def)

lemma table_of_None: "a \<notin> listen_addr ` set ps \<Longrightarrow> table_of ps a = None"
  by (simp add: table_of_def map_of_eq_None_iff image_image)

lemma table_of_filter:
  "distinct (map listen_addr ps) \<Longrightarrow> table_of (filter (live_peer args now) ps) = keep_live args now (table_of ps)"
proof (induction ps)
  case (Cons p ps)
  then have "table_of ps (listen_addr p) = None" by (intro table_of_None) auto
  with Cons show ?case by (auto simp: keep_live_def live_within fun_eq_iff)
qed (simp add: keep_live_def fun_eq_iff)

lemma table_of_renew:
  "distinct (map listen_addr ps) \<Longrightarrow> \<exists>q \<in> set ps. same_address p q \<Longrightarrow>
   table_of (renew p ps) = (table_of ps)(listen_addr p \<mapsto> last_connected p)"
proof (induction ps)
  case (Cons q ps)
  show ?case
  proof (cases "same_address p q")
    case True
    then show ?thesis by (auto simp: same_address_def fun_eq_iff)
  next
    case False
    with Cons.prems(2) have "\<exists>q \<in> set ps. same_address p q" by auto
    with Cons False show ?thesis by (auto simp: same_address_def fun_eq_iff)
  qed
qed simp

lemma table_of_upsert:
  "distinct (map listen_addr ps) \<Longrightarrow> table_of (upsert p ps) = (table_of ps)(listen_addr p \<mapsto> last_connected p)"
  by (simp add: upsert_def table_of_renew)

text \<open>The list of the server implements the table.\<close>

fun list_register :: "discovery_args \<Rightarrow> peer_info_t list \<Rightarrow> registration \<Rightarrow> peer_info_t list" where
  "list_register args ps (c, t, now) = peers_after args now (registered_peer c t) ps"

lemma table_of_register:
  assumes "distinct (map listen_addr ps)"
  shows "table_of (list_register args ps r) = table_register args (table_of ps) r"
proof (cases r)
  case (fields c t now)
  have "last_connected (registered_peer c t) = t" by (simp add: registered_peer_def)
  with fields assms show ?thesis
    by (simp add: peers_after_def table_of_filter [OF upsert_distinct] table_of_upsert)
qed

lemma table_of_registers:
  "distinct (map listen_addr ps) \<Longrightarrow>
   table_of (foldl (list_register args) ps rs) = foldl (table_register args) (table_of ps) rs"
proof (induction rs arbitrary: ps)
  case (Cons r rs)
  have "distinct (map listen_addr (list_register args ps r))"
    using Cons.prems peers_after_distinct by (cases r) simp
  with Cons show ?case by (simp add: table_of_register)
qed simp

section \<open>What remains after a run\<close>

lemma keep_live_later:
  assumes "sint now \<le> sint now'"
  shows "keep_live args now' ((keep_live args now m)(a \<mapsto> t)) = keep_live args now' (m(a \<mapsto> t))"
proof -
  have "within_keepalive args now u" if "within_keepalive args now' u" for u
    using that assms by (simp add: within_keepalive_def)
  then show ?thesis by (auto simp: keep_live_def fun_eq_iff split: option.split)
qed

text \<open>
  If the clock does not go back, dropping the expired entries at every request is the same as
  dropping them once at the end.
\<close>

lemma table_run:
  assumes "sorted (map (\<lambda>(c, t, now). sint now) (rs @ [(c, t, now)]))"
  shows "foldl (table_register args) m (rs @ [(c, t, now)]) =
    keep_live args now (foldl note_peer m (rs @ [(c, t, now)]))"
  using assms
proof (induction rs arbitrary: c t now rule: rev_induct)
  case (snoc r rs)
  obtain c' t' now' where r: "r = (c', t', now')" by (cases r)
  from snoc.prems have "sorted (map (\<lambda>(c, t, now). sint now) (rs @ [(c', t', now')]))" "sint now' \<le> sint now"
    by (auto simp: r sorted_append)
  from snoc.IH [OF this(1)] keep_live_later [OF this(2)] show ?case by (simp add: r fun_upd_def)
qed simp

section \<open>The server over a run\<close>

text \<open>A connection on which a client registers, and the times the clock shows then.\<close>

fun registration_request :: "registration \<Rightarrow> connection \<Rightarrow> bool" where
  "registration_request (c, t, now) conn \<longleftrightarrow>
     sends_registration conn c \<and> conn_ok conn \<and> conn_time conn 0 = t \<and> conn_time conn 1 = now"

definition discovery_rel ::
  "discovery_args \<Rightarrow> addr set \<Rightarrow> heap \<Rightarrow> nat \<Rightarrow> heap \<Rightarrow> peer_info_t list \<Rightarrow> bool" where
  "discovery_rel args F h0 k h ps \<longleftrightarrow>
     quiet args \<and> heap_ok h \<and> (\<forall>n. malloc_ok h n) \<and> length ps + k < 2 ^ 56 \<and>
     (\<forall>q \<in> set ps. wf_peer q) \<and> (\<exists>F'. own_peer_list h (peer_info_list args) F' ps \<and> evolves F h0 F' h)"

interpretation discovery_run: request_simulation "handle_one_peer_discovery_request e args"
  "discovery_rel args F h0" registration_request "list_register args"
  for e args F h0
proof
  fix k h ps r conn
  assume rel: "discovery_rel args F h0 (Suc k) h ps" and req: "registration_request r conn"
  from rel obtain G where h: "own_peer_list h (peer_info_list args) G ps" "evolves F h0 G h" "quiet args" "heap_ok h"
    "\<forall>n. malloc_ok h n" "length ps + Suc k < 2 ^ 56" "\<forall>q \<in> set ps. wf_peer q"
    unfolding discovery_rel_def by blast
  obtain c t now where r: "r = (c, t, now)" by (cases r)
  with req have c: "sends_registration conn c" "conn_ok conn" "conn_time conn 0 = t" "conn_time conn 1 = now" by simp_all
  have "length ps < 2 ^ 56" using h(6) by simp
  from registration_ok [OF h(1,7) this h(4) c(1) h(3) c(2) h(5), of e] obtain sent G' h' where
    h': "handle_one_peer_discovery_request e args conn h = Some (Code SUCCESS, sent, h')"
    "own_peer_list h' (peer_info_list args) G' (list_register args ps r)" "evolves G h G' h'"
    by (auto simp: r c)
  have "wf_peer (registered_peer c t)"
    using c(1) by (simp add: sends_registration_def wf_register_peer_def wf_peer_def wf_sockaddr_def registered_peer_def)
  from peers_after_wf [OF this h(7)] peers_after_length [of args now "registered_peer c t" ps] h(6)
  have "\<forall>q \<in> set (list_register args ps r). wf_peer q" "length (list_register args ps r) + k < 2 ^ 56"
    by (simp_all add: r)
  moreover have "heap_ok h'" "\<forall>n. malloc_ok h' n" using h'(3) h(5) by (simp_all add: evolves_def same_except_def)
  ultimately show "\<exists>sent h'. handle_one_peer_discovery_request e args conn h = Some (Code SUCCESS, sent, h') \<and>
      discovery_rel args F h0 k h' (list_register args ps r)"
    using h'(1,2) h(3) evolves_trans [OF h(2) h'(3)] unfolding discovery_rel_def by blast
next
  fix k h ps
  assume "discovery_rel args F h0 k h ps"
  then obtain G where h: "own_peer_list h (peer_info_list args) G ps" "evolves F h0 G h" "quiet args" "heap_ok h"
    "\<forall>n. malloc_ok h n" "length ps + k < 2 ^ 56" "\<forall>q \<in> set ps. wf_peer q"
    unfolding discovery_rel_def by blast
  let ?h = "h\<lparr>brk := Suc (brk h)\<rparr>"
  have same: "same_except {} h ?h" by (simp add: same_except_def)
  have "own_peer_list ?h (peer_info_list args) G ps" by (intro peer.ll_frame [OF h(1)]) simp
  moreover have "\<forall>n. malloc_ok ?h n" using h(5) by simp
  ultimately show "malloc_ok h (brk h) \<and> discovery_rel args F h0 k ?h ps"
    using h(3,5-7) heap_ok_same [OF h(4) same] evolves_trans [OF h(2) evolves_same [OF h(4) same]]
    unfolding discovery_rel_def by blast
qed (simp add: discovery_rel_def)

text \<open>
  C9. The bootstrap server is a table with expiry.  When clients send well-formed registrations until
  the server is stopped and the clock does not go back, the thread ends successfully and its list holds
  one entry for exactly those peers, of the initial list or registered since, whose last contact lay
  within the keepalive time at the last request; each entry has the time of the peer's last registration;
  and the objects of all other entries have been freed.
\<close>

theorem bootstrap_server_is_peer_table:
  assumes "own_peer_list h (peer_info_list args) F ps" "\<forall>q \<in> set ps. wf_peer q" "distinct (map listen_addr ps)"
    and "length ps + n < 2 ^ 56" "heap_ok h" "\<forall>n. malloc_ok h n" "quiet args"
    and "serves_until registration_request (print_progress args) env n reg"
    and "received env reg 0 n = rs @ [(c, t, now)]"
    and "sorted (map (\<lambda>(c, t, now). sint now) (received env reg 0 n))"
  shows "\<exists>h' F' ps'. handle_peer_discovery_requests_pthread_wrapper e args env h = Some (Code SUCCESS, True, h') \<and>
    own_peer_list h' (peer_info_list args) F' ps' \<and> evolves F h F' h' \<and> distinct (map listen_addr ps') \<and>
    table_of ps' = keep_live args now (foldl note_peer (table_of ps) (received env reg 0 n))"
proof -
  let ?rs = "received env reg 0 n"
  let ?ps = "foldl (list_register args) ps ?rs"
  have "discovery_rel args F h n h ps"
    using assms(1,2,4-7) evolves_same [OF assms(5) same_except_refl] unfolding discovery_rel_def by blast
  from discovery_run.run_server_simulates [OF assms(8) this, of e] obtain h' F' where
    h': "handle_peer_discovery_requests_pthread_wrapper e args env h = Some (Code SUCCESS, True, h')"
    "own_peer_list h' (peer_info_list args) F' ?ps" "evolves F h F' h'"
    unfolding handle_peer_discovery_requests_pthread_wrapper_def handle_peer_discovery_requests_def discovery_rel_def by blast
  have "distinct (map listen_addr (foldl (list_register args) qs rs))" if "distinct (map listen_addr qs)" for qs rs
    using that by (induction rs arbitrary: qs) (auto simp: peers_after_distinct)
  then have "distinct (map listen_addr ?ps)" using assms(3) by blast
  moreover have "table_of ?ps = keep_live args now (foldl note_peer (table_of ps) ?rs)"
    unfolding table_of_registers [OF assms(3)] using assms(9,10) table_run by metis
  ultimately show ?thesis using h' by blast
qed

text \<open>A peer that has not been heard of for 96 seconds is replaced by a new one.\<close>

theorem bootstrap_server_is_peer_table_witness:
  "\<exists>h' F' ps'. handle_peer_discovery_requests_pthread_wrapper Big (example_args 1)
      (example_server (registration_connection example_registration)) example_peer_heap = Some (Code SUCCESS, True, h') \<and>
    own_peer_list h' 1 F' ps' \<and>
    table_of ps' = [listen_addr (registered_peer example_registration 100) \<mapsto> 100]"
proof -
  let ?conn = "registration_connection example_registration" and ?r = "(example_registration, 100 :: u64, 101 :: u64)"
  have own: "own_peer_list example_peer_heap (peer_info_list (example_args 1)) {1, 2, 3} [example_peer 5]"
    using example_peer_heap_owns(1) by (simp add: example_args_def)
  have req: "registration_request ?r ?conn"
    using example_registration_ok(1,3) by (simp add: registration_connection_def example_connection_def)
  note run = example_serves [of registration_request, OF req]
  have m: "\<forall>n. malloc_ok example_peer_heap n" by (simp add: example_peer_heap_owns(4))
  have small: "distinct (map listen_addr [example_peer 5])" "length [example_peer 5] + 2 < 2 ^ 56"
    "received (example_server ?conn) (\<lambda>_. ?r) 0 2 = [] @ [?r]"
    "sorted (map (\<lambda>(c, t, now). sint now) (received (example_server ?conn) (\<lambda>_. ?r) 0 2))"
    by (simp_all add: run(2))
  have table: "keep_live (example_args 1) 101 (foldl note_peer (table_of [example_peer 5])
      (received (example_server ?conn) (\<lambda>_. ?r) 0 2)) = [listen_addr (registered_peer example_registration 100) \<mapsto> 100]"
    unfolding run(2)
    by (auto simp: keep_live_def within_keepalive_def example_args_def example_peer_def fun_eq_iff)
  from bootstrap_server_is_peer_table [OF own example_registration_ok(4) small(1,2) example_peer_heap_owns(3) m
      example_registration_ok(2) run(1) small(3,4), of Big]
  show ?thesis unfolding table by (simp add: example_args_def) blast
qed

end
