(* ===== verification/Mining_Progress.thy ===== *)
theory Mining_Progress imports Mining_Thread begin

text \<open>
  The mining thread (\<^verbatim>\<open>src/mining_thread.c\<close>) makes progress: when nothing disturbs it, every
  round adds a block.
\<close>

text \<open>Every block has a proof of work among the numbers the search tries.\<close>

definition minable :: "endianness \<Rightarrow> openssl \<Rightarrow> u64 \<Rightarrow> bool" where
  "minable e ssl z \<longleftrightarrow>
     (\<forall>b. \<exists>k < UINT64_MAX. leading_zeros z (hash_of e ssl (b\<lparr>bv_proof_of_work := of_nat k\<rparr>)))"

text \<open>A round in which the mutexes and the file work, and the thread is neither stopped nor overtaken.\<close>

definition undisturbed :: "mining_env \<Rightarrow> u64 \<Rightarrow> bool" where
  "undisturbed env v \<longleftrightarrow>
     mine_lock_ok env \<and> mine_unlock_ok env \<and> (\<forall>k. \<not> stop_seen env k) \<and> (\<forall>k. version_seen env k = v) \<and>
     outfile_opens env \<and> (\<forall>n. outfile_written env n = n)"

lemma extended_wf:
  assumes "wf_chain c" "digest_ok ssl" "minted e ssl pub t"
    and "c' = c\<lparr>cv_blocks := cv_blocks c @ [\<lparr>bv_created_at = now, bv_transactions = [t], bv_proof_of_work = p,
      bv_previous_block_hash = hash_of e ssl g\<rparr>]\<rparr>"
  shows "wf_chain c'" "length (enc_chain c') \<le> length (enc_chain c) + 9000"
proof -
  have t: "wf_transaction t" using assms(3) by (simp add: minted_def)
  then show "wf_chain c'" using assms(1,2) unfolding assms(4)
    by (simp add: wf_chain_def wf_block_def digest_ok_def hash_of_def)
  have "length (enc_transaction t) = 8728" using t by (simp add: enc_transaction_def wf_transaction_def)
  then show "length (enc_chain c') \<le> length (enc_chain c) + 9000"
    using assms(2) unfolding assms(4) length_enc_snoc by (simp add: enc_block_def digest_ok_def hash_of_def)
qed

lemma undisturbed_round:
  assumes own: "own_sync_at h (mining_sync args) (mining_chain st) F c (mined_version st)"
    and ok: "heap_ok h" "\<forall>n. malloc_ok h n" and c: "chain_ok e ssl c" "cv_blocks c \<noteq> []" "wf_chain c" "unat (cv_zeros c) \<le> 32"
    and size: "length (enc_chain c) + 9000 < 2 ^ 63" and keys: "miner_keys ssl args pub"
    and env: "undisturbed env (mined_version st)" "minable e ssl (cv_zeros c)"
  shows "\<exists>st' h' F' c'. mining_round e ssl args env st h = Some (SUCCESS, False, st', h') \<and> evolves F h F' h' \<and>
    own_sync_at h' (mining_sync args) (mining_chain st') F' c' (mined_version st') \<and>
    extended e ssl pub c c' \<and> wf_chain c' \<and> length (enc_chain c') \<le> length (enc_chain c) + 9000 \<and>
    (\<forall>path. mining_outfile args = Some path \<longrightarrow> mining_files st' path = Some (enc_chain c'))"
proof -
  have lock: "mine_lock_ok env" "mine_unlock_ok env" using env(1) by (simp_all add: undisturbed_def)
  from mining_round_total [OF own ok c size keys lock] obtain rc st' h' F' m t where
    r: "mining_round e ssl args env st h = Some (rc, False, st', h')" "evolves F h F' h'" "minted e ssl pub t" and
    m: "let b = (\<lambda>k. \<lparr>bv_created_at = block_time env, bv_transactions = [t], bv_proof_of_work = of_nat k,
           bv_previous_block_hash = hash_of e ssl (last (cv_blocks c))\<rparr>);
         good = (\<lambda>k. leading_zeros (cv_zeros c) (hash_of e ssl (b k)));
         stops = (\<lambda>k. stop_seen env k \<or> version_seen env k \<noteq> mined_version st);
         c' = c\<lparr>cv_blocks := cv_blocks c @ [b m]\<rparr>
     in (\<forall>k < m. \<not> good k \<and> \<not> stops k) \<and>
        (if m < UINT64_MAX \<and> \<not> stops m
         then good m \<and> rc = SUCCESS \<and> chain_ok e ssl c' \<and>
           own_sync_at h' (mining_sync args) (mining_chain st') F' c' (mined_version st') \<and>
           (\<forall>path. mining_outfile args = Some path \<and> outfile_opens env \<and> (\<forall>n. outfile_written env n = n) \<longrightarrow>
              mining_files st' path = Some (enc_chain c'))
         else own_sync_at h' (mining_sync args) (mining_chain st') F' c (mined_version st'))"
    by (elim exE conjE)
  let ?b = "\<lambda>k. \<lparr>bv_created_at = block_time env, bv_transactions = [t], bv_proof_of_work = of_nat k,
    bv_previous_block_hash = hash_of e ssl (last (cv_blocks c))\<rparr>"
  let ?c = "c\<lparr>cv_blocks := cv_blocks c @ [?b m]\<rparr>"
  from env(2) obtain k where k: "k < UINT64_MAX" "leading_zeros (cv_zeros c) (hash_of e ssl ((?b 0)\<lparr>bv_proof_of_work := of_nat k\<rparr>))"
    unfolding minable_def by blast
  have least: "\<forall>k < m. \<not> leading_zeros (cv_zeros c) (hash_of e ssl (?b k))" using m by (simp add: Let_def)
  have "m \<le> k" using k(2) least by (intro leI) auto
  with k(1) have "m < UINT64_MAX" by simp
  with m env(1) have "rc = SUCCESS" "chain_ok e ssl ?c"
    "own_sync_at h' (mining_sync args) (mining_chain st') F' ?c (mined_version st')"
    "\<forall>path. mining_outfile args = Some path \<longrightarrow> mining_files st' path = Some (enc_chain ?c)"
    by (simp_all add: Let_def undisturbed_def)
  moreover from this(2) r(3) have "extended e ssl pub c ?c" by (auto simp: extended_def)
  moreover have "digest_ok ssl" using keys by (simp add: miner_keys_def)
  note wf = extended_wf [OF c(3) this r(3) refl, of "block_time env" "of_nat m" "last (cv_blocks c)"]
  ultimately show ?thesis using r(1,2) wf by (intro exI [of _ st'] exI [of _ h'] exI [of _ F'] exI [of _ ?c]) simp
qed

lemma undisturbed_rounds:
  assumes "own_sync_at h (mining_sync args) (mining_chain st) F c v" "mined_version st = v"
    and "heap_ok h" "\<forall>n. malloc_ok h n" "chain_ok e ssl c" "cv_blocks c \<noteq> []" "wf_chain c" "unat (cv_zeros c) \<le> 32"
    and "length (enc_chain c) + 9000 * n < 2 ^ 63" "miner_keys ssl args pub"
    and "\<forall>i. undisturbed (env i) v" "minable e ssl (cv_zeros c)"
  shows "\<exists>rc st' h' F' bs c'. mining_loop e ssl args (\<lambda>j. i + n \<le> j) env i rc0 st h = Some (rc, False, st', h') \<and>
    evolves F h F' h' \<and> own_sync_at h' (mining_sync args) (mining_chain st') F' c' v \<and>
    length bs = n \<and> mined_from e ssl pub c bs c' \<and> chain_ok e ssl c' \<and>
    wf_chain c' \<and> length (enc_chain c') \<le> length (enc_chain c) + 9000 * n \<and>
    (if n = 0 then rc = rc0 else rc = SUCCESS \<and>
       (\<forall>path. mining_outfile args = Some path \<longrightarrow> mining_files st' path = Some (enc_chain c')))"
  using assms
proof (induction n arbitrary: i rc0 st h F c)
  case 0
  have "mining_loop e ssl args (\<lambda>j. i + 0 \<le> j) env i rc0 st h = Some (rc0, False, st, h)"
    by (simp add: mining_loop.simps)
  with "0.prems"(1,3,5,7) mined_from_refl evolves_same [OF "0.prems"(3) same_except_refl] show ?case
    by (intro exI [of _ rc0] exI [of _ st] exI [of _ h] exI [of _ F] exI [of _ "[]"] exI [of _ c]) simp
next
  case (Suc n)
  note prem = Suc.prems
  have own: "own_sync_at h (mining_sync args) (mining_chain st) F c (mined_version st)" using prem(1,2) by simp
  have "length (enc_chain c) + 9000 < 2 ^ 63" "undisturbed (env i) (mined_version st)" using prem(2,9,11) by simp_all
  from undisturbed_round [OF own prem(3-8) this(1) prem(10) this(2) prem(12)] obtain st1 h1 F1 c1 where
    r: "mining_round e ssl args (env i) st h = Some (SUCCESS, False, st1, h1)" "evolves F h F1 h1"
    "own_sync_at h1 (mining_sync args) (mining_chain st1) F1 c1 (mined_version st1)" "extended e ssl pub c c1" "wf_chain c1"
    "length (enc_chain c1) \<le> length (enc_chain c) + 9000"
    "\<forall>path. mining_outfile args = Some path \<longrightarrow> mining_files st1 path = Some (enc_chain c1)" by blast
  have v: "mined_version st1 = v"
    using mining_round_result [OF r(1) own prem(3,7,8,10)] prem(2) by auto
  have c1: "chain_ok e ssl c1" "cv_blocks c1 \<noteq> []" "cv_zeros c1 = cv_zeros c"
    using r(4) by (auto simp: extended_def)
  have h1: "heap_ok h1" "\<forall>n. malloc_ok h1 n" using r(2) prem(4) by (simp_all add: evolves_def same_except_def)
  have size: "length (enc_chain c1) + 9000 * n < 2 ^ 63" using r(6) prem(9) by simp
  have z: "unat (cv_zeros c1) \<le> 32" "minable e ssl (cv_zeros c1)" using c1(3) prem(8,12) by simp_all
  from Suc.IH [OF r(3) [unfolded v] v h1 c1(1,2) r(5) z(1) size prem(10,11) z(2), of "Suc i" SUCCESS]
  obtain rc st' h' F' bs c' where
    l: "mining_loop e ssl args (\<lambda>j. Suc i + n \<le> j) env (Suc i) SUCCESS st1 h1 = Some (rc, False, st', h')"
    "evolves F1 h1 F' h'" "own_sync_at h' (mining_sync args) (mining_chain st') F' c' v" "length bs = n"
    "mined_from e ssl pub c1 bs c'" "chain_ok e ssl c'"
    "wf_chain c'" "length (enc_chain c') \<le> length (enc_chain c1) + 9000 * n"
    "if n = 0 then rc = SUCCESS else rc = SUCCESS \<and>
       (\<forall>path. mining_outfile args = Some path \<longrightarrow> mining_files st' path = Some (enc_chain c'))" by blast
  from r(4) obtain b t where b: "c1 = c\<lparr>cv_blocks := cv_blocks c @ [b]\<rparr>" "bv_transactions b = [t]" "minted e ssl pub t"
    by (auto simp: extended_def)
  have "mined_from e ssl pub c (b # bs) c'"
    using l(5,6) b by (auto simp: mined_from_def)
  moreover have "mining_files st' path = Some (enc_chain c')" if "mining_outfile args = Some path" for path
  proof (cases n)
    case 0
    then have "st' = st1" "c' = c1" using l(1,4,5) by (simp_all add: mining_loop.simps mined_from_def b(1))
    with r(7) that show ?thesis by simp
  next
    case Suc
    with l(9) that show ?thesis by simp
  qed
  moreover have "mining_loop e ssl args (\<lambda>j. i + Suc n \<le> j) env i rc0 st h = Some (rc, False, st', h')"
    using r(1) l(1) by (subst mining_loop.simps) simp
  moreover have "rc = SUCCESS" using l(9) by (simp split: if_splits)
  moreover have "length (enc_chain c') \<le> length (enc_chain c) + 9000 * Suc n" using l(8) r(6) by simp
  ultimately show ?case
    using evolves_trans [OF r(2) l(2)] l(3,4,6,7)
    by (intro exI [of _ rc] exI [of _ st'] exI [of _ h'] exI [of _ F'] exI [of _ "b # bs"] exI [of _ c']) simp
qed

lemma undisturbed_thread:
  assumes "own_sync h (mining_sync args) F c v" "heap_ok h" "\<forall>n. malloc_ok h n"
    and "chain_ok e ssl c" "cv_blocks c \<noteq> []" "wf_chain c" "unat (cv_zeros c) \<le> 32"
    and "length (enc_chain c) + 9000 * n < 2 ^ 63" "miner_keys ssl args pub"
    and "\<forall>i. undisturbed (env i) v" "minable e ssl (cv_zeros c)" "0 < n"
  shows "\<exists>st h' F' bs c'. mine_blocks e ssl (Some args) True True (\<lambda>i. n \<le> i) env v fs h =
      Some (SUCCESS, True, Some st, h') \<and>
    own_sync h' (mining_sync args) F' c' v \<and> evolves F h F' h' \<and>
    c' = c\<lparr>cv_blocks := cv_blocks c @ bs\<rparr> \<and> length bs = n \<and>
    chain_ok e ssl c' \<and> (\<forall>b \<in> set bs. \<exists>t. bv_transactions b = [t] \<and> minted e ssl pub t) \<and>
    wf_chain c' \<and> length (enc_chain c') \<le> length (enc_chain c) + 9000 * n \<and>
    (\<forall>path. mining_outfile args = Some path \<longrightarrow> mining_files st path = Some (enc_chain c'))"
proof -
  from assms(1) obtain a where own: "own_sync_at h (mining_sync args) a F c v"
    by (rule own_syncE) (use own_sync_atI in blast)
  then have ld: "load_sync (mining_sync args) h = Some \<lparr>sync_blockchain = a, version = v\<rparr>" by (simp add: own_sync_at_def)
  let ?st = "\<lparr>mining_chain = a, mined_version = v, mining_files = fs\<rparr>"
  have own': "own_sync_at h (mining_sync args) (mining_chain ?st) F c v" "mined_version ?st = v" using own by simp_all
  from undisturbed_rounds [OF own' assms(2-11), of 0 SUCCESS] assms(12) obtain st h1 F' bs c' where
    l: "mining_loop e ssl args (\<lambda>i. n \<le> i) env 0 SUCCESS ?st h = Some (SUCCESS, False, st, h1)"
    "evolves F h F' h1" "own_sync_at h1 (mining_sync args) (mining_chain st) F' c' v" "length bs = n"
    "mined_from e ssl pub c bs c'" "chain_ok e ssl c'" "wf_chain c'"
    "length (enc_chain c') \<le> length (enc_chain c) + 9000 * n"
    "\<forall>path. mining_outfile args = Some path \<longrightarrow> mining_files st path = Some (enc_chain c')" by auto
  let ?h = "h1\<lparr>brk := Suc (brk h1)\<rparr>"
  have h1: "malloc_ok h1 (brk h1)" "heap_ok h1" using l(2) assms(3) by (simp_all add: evolves_def same_except_def)
  then have "mine_blocks e ssl (Some args) True True (\<lambda>i. n \<le> i) env v fs h = Some (SUCCESS, True, Some st, ?h)"
    using l(1) ld by (simp add: mine_blocks_def request_def)
  moreover have "own_sync ?h (mining_sync args) F' c' v"
    using own_sync_at_frame [OF l(3), of ?h] by (simp add: own_sync_at_def)
  moreover have "same_except {} h1 ?h" by (simp add: same_except_def)
  from evolves_trans [OF l(2) evolves_same [OF h1(2) this]] have "evolves F h F' ?h" .
  ultimately show ?thesis using l(4-9) unfolding mined_from_def by blast
qed

text \<open>
  C7. The miner makes progress.  On a valid chain, with memory and a file that can be written, and
  while every block has a proof of work and no other chain arrives, a thread that is asked to stop
  after \<open>n\<close> rounds ends successfully and has mined exactly \<open>n\<close> blocks; the chain is valid, each new
  block mints a coin to the miner, and the file holds the encoding of the whole chain.
\<close>

theorem mining_makes_progress:
  assumes "own_sync h (mining_sync args) F c v" "heap_ok h" "\<forall>n. malloc_ok h n"
    and "chain_ok e ssl c" "cv_blocks c \<noteq> []" "wf_chain c" "unat (cv_zeros c) \<le> 32"
    and "length (enc_chain c) + 9000 * n < 2 ^ 63" "miner_keys ssl args pub"
    and "\<forall>i. undisturbed (env i) v" "minable e ssl (cv_zeros c)"
    and "mining_outfile args = Some path" "0 < n"
  shows "\<exists>st h' F' bs c'. mine_blocks e ssl (Some args) True True (\<lambda>i. n \<le> i) env v fs h =
      Some (SUCCESS, True, Some st, h') \<and>
    own_sync h' (mining_sync args) F' c' v \<and> c' = c\<lparr>cv_blocks := cv_blocks c @ bs\<rparr> \<and> length bs = n \<and>
    chain_ok e ssl c' \<and> (\<forall>b \<in> set bs. \<exists>t. bv_transactions b = [t] \<and> minted e ssl pub t) \<and>
    mining_files st path = Some (enc_chain c')"
  using undisturbed_thread [OF assms(1-11,13), of fs] assms(12) by blast

text \<open>Two undisturbed rounds.\<close>

theorem mining_makes_progress_witness:
  "\<exists>h sync F st h' F' bs. own_sync h sync F (example_chain []) 0 \<and>
     mine_blocks Little example_openssl (Some (example_mining_args sync)) True True (\<lambda>i. 2 \<le> i) (\<lambda>_. example_mining_env)
       0 Map.empty h = Some (SUCCESS, True, Some st, h') \<and>
     own_sync h' sync F' (example_chain bs) 0 \<and> length bs = 2 \<and>
     mining_files st ''chain'' = Some (enc_chain (example_chain bs))"
proof -
  obtain h sync F where h: "own_sync h sync F (example_chain []) 0" "heap_ok h" "\<forall>n. malloc_ok h n"
    using sync_representable by blast
  let ?args = "example_mining_args sync"
  have own: "own_sync h (mining_sync ?args) F (example_chain []) 0" using h(1) by simp
  have env: "\<forall>i :: nat. undisturbed example_mining_env 0" by (simp add: undisturbed_def example_mining_env_def)
  have min: "minable Little example_openssl (cv_zeros (example_chain []))"
    using example_zeros unfolding minable_def by (intro allI exI [of _ 0]) simp
  have out: "mining_outfile ?args = Some ''chain''" by (simp add: example_mining_args_def)
  have size: "length (enc_chain (example_chain [])) + 9000 * 2 < 2 ^ 63"
    by (simp add: enc_chain_def example_chain_def enc_block_def genesis_v_def)
  have two: "0 < (2 :: nat)" by simp
  have chain: "(example_chain [])\<lparr>cv_blocks := cv_blocks (example_chain []) @ bs\<rparr> = example_chain bs" for bs
    by (simp add: example_chain_def)
  from mining_makes_progress [OF own h(2,3) example_miner(4,5) example_chains(1) example_miner(6) size example_miner(1)
      env min out two, where fs = Map.empty] h(1)
  show ?thesis unfolding chain example_mining_sync by blast
qed

end
