(* ===== verification/Propagation.thy ===== *)
theory Propagation imports Mining_Progress begin

text \<open>
  From the miner of one node to the chain of another: what is mined is valid, can be sent, and
  replaces the shorter chain of a peer.  This composes the mining thread
  (\<^verbatim>\<open>src/mining_thread.c\<close>), serialisation (\<^verbatim>\<open>src/blockchain.c\<close>), the protocol
  (\<^verbatim>\<open>src/networking.c\<close>) and the consensus server (\<^verbatim>\<open>src/consensus_peer_server_thread.c\<close>).
\<close>

text \<open>A valid chain can always be sent: a signature that verifies fits its field.\<close>

lemma signature_valid_wire:
  assumes "signature_valid e ssl t" "wf_transaction t"
  shows "wire_transaction t"
proof -
  from assms(1) obtain s where "load_bytes (sig_bytes (sender_signature t)) 0 (unat (sig_length (sender_signature t))) = Some s"
    by (auto simp: signature_valid_def signature_check_def split: if_split_asm option.split_asm)
  then have "unat (sig_length (sender_signature t)) \<le> length (sig_bytes (sender_signature t))"
    by (auto simp: load_bytes_def split: if_split_asm)
  then show ?thesis using assms(2) by (simp add: wire_transaction_def wf_transaction_def)
qed

lemma valid_chain_wire:
  assumes "chain_ok e ssl c" "wf_chain c"
  shows "wire_chain c"
proof -
  have "wire_block (cv_blocks c ! i)" if "i < length (cv_blocks c)" for i
  proof -
    have wf: "wf_block (cv_blocks c ! i)" using assms(2) that by (simp add: wf_chain_def)
    have "\<forall>t \<in> set (bv_transactions (cv_blocks c ! i)). signature_valid e ssl t"
    proof (cases i)
      case 0
      with that assms(1) show ?thesis by (simp add: chain_ok_def genesis_ok_def hd_conv_nth)
    next
      case (Suc j)
      with that assms(1) show ?thesis by (simp add: chain_ok_def block_ok_def)
    qed
    with wf show ?thesis using signature_valid_wire by (auto simp: wire_block_def wf_block_def)
  qed
  then show ?thesis by (auto simp: wire_chain_def in_set_conv_nth)
qed

text \<open>What a node sends of its chain, and a connection on which exactly this arrives.\<close>

lemma send_own_chain:
  assumes "own_sync h sync F c v" "wf_chain c" "length (enc_chain c) + 24 < 2 ^ 63" "\<forall>n. malloc_ok h n"
    and "wf_header hdr" "command hdr = command_code COMMAND_SEND_BLOCKCHAIN"
  shows "\<exists>s h1 cmd h2. load_sync sync h = Some s \<and>
    blockchain_serialize e (sync_blockchain s) True True h =
      Some (SUCCESS, Some (enc_chain c, of_nat (length (enc_chain c))), h1) \<and>
    command_send_blockchain_serialize e (Some \<lparr>blockchain_header = hdr,
      blockchain_data_len = of_nat (length (enc_chain c)), blockchain_data = enc_chain c\<rparr>) True True h1 =
      Some (SUCCESS, Some cmd, Some (enc_send_data (hdr\<lparr>command_len := 8 + of_nat (length (enc_chain c))\<rparr>)
        (of_nat (length (enc_chain c))) (enc_chain c), 24 + of_nat (length (enc_chain c))), h2)"
proof -
  let ?len = "of_nat (length (enc_chain c)) :: u64"
  from assms(1) obtain s G where s: "load_sync sync h = Some s" "own_chain h (sync_blockchain s) G c"
    by (rule own_syncE) (use load_sync_store in fastforce)
  have size: "length (enc_chain c) < 2 ^ 63" using assms(3) by simp
  from serialize_eq [OF s(2) assms(2) size, of e] assms(4) obtain h1 where
    h1: "same_except {} h h1" "blockchain_serialize e (sync_blockchain s) True True h = Some (SUCCESS, Some (enc_chain c, ?len), h1)"
    by auto
  have "wf_send_data COMMAND_SEND_BLOCKCHAIN hdr ?len (enc_chain c)"
    using assms(5,6) size by (simp add: wf_send_data_def)
  moreover have "\<forall>n. malloc_ok h1 n" using h1(1) assms(4) by (simp add: same_except_def)
  ultimately have "send_data_serialize COMMAND_SEND_BLOCKCHAIN e hdr ?len (enc_chain c) h1 =
      Some (SUCCESS, hdr\<lparr>command_len := 8 + ?len\<rparr>,
        Some (enc_send_data (hdr\<lparr>command_len := 8 + ?len\<rparr>) ?len (enc_chain c), 24 + ?len),
        h1\<lparr>brk := Suc (Suc (Suc (brk h1)))\<rparr>)"
    using assms(3) by (intro send_data_serialize_eq)
  with s(1) h1(2) show ?thesis by (simp add: command_send_blockchain_serialize_def)
qed

lemma arriving_chain:
  assumes "wf_header hdr" "command hdr = command_code COMMAND_SEND_BLOCKCHAIN"
    and "buf = enc_send_data (hdr\<lparr>command_len := 8 + of_nat (length (enc_chain c))\<rparr>)
      (of_nat (length (enc_chain c))) (enc_chain c)"
    and "arrives (conn_recv conn 0) (take HEADER_SIZE buf)" "arrives (conn_recv conn 1) (drop HEADER_SIZE buf)"
  shows "sends_chain conn (hdr\<lparr>command_len := 8 + of_nat (length (enc_chain c))\<rparr>) c"
proof -
  let ?hdr = "hdr\<lparr>command_len := 8 + of_nat (length (enc_chain c))\<rparr>"
  have hdr: "wf_header ?hdr" using assms(1) by (simp add: wf_header_def)
  then have "take HEADER_SIZE buf = enc_command_header ?hdr"
    "drop HEADER_SIZE buf = be_bytes (of_nat (length (enc_chain c)) :: u64) @ enc_chain c"
    using length_enc_command_header [OF hdr] by (simp_all add: assms(3) enc_send_data_def)
  with assms(2,4,5) hdr show ?thesis by (simp add: sends_chain_def)
qed

text \<open>
  C5. What is mined spreads.  A node whose miner works undisturbed for \<open>n\<close> rounds ends with a
  valid chain of \<open>n\<close> more blocks.  It can serialise this chain and wrap it in a command, and every node of
  the same difficulty and byte order with a shorter chain at which the bytes of this command arrive, in
  chunks of any size, takes over exactly this chain, counts its version up and releases the chain it had.
\<close>

theorem mined_chain_spreads:
  assumes "own_sync h (mining_sync args) F c v" "heap_ok h" "\<forall>n. malloc_ok h n"
    and "chain_ok e ssl c" "cv_blocks c \<noteq> []" "wf_chain c" "unat (cv_zeros c) \<le> 32"
    and "length (enc_chain c) + 9000 * n + 24 < 2 ^ 63" "miner_keys ssl args pub"
    and "\<forall>i. undisturbed (env i) v" "minable e ssl (cv_zeros c)" "0 < n"
    and "wf_header hdr" "command hdr = command_code COMMAND_SEND_BLOCKCHAIN"
    and "own_sync g sync G d w" "heap_ok g" "\<forall>n. malloc_ok g n" "wf_chain d" "length (enc_chain d) + 24 < 2 ^ 63"
    and "cv_zeros d = cv_zeros c" "length (cv_blocks d) < length (cv_blocks c) + n"
  shows "\<exists>st h' F' c' s data len h1 cmd buf buf_len h2.
    mine_blocks_pthread_wrapper e ssl (Some args) True True (\<lambda>i. n \<le> i) env v fs h =
      Some (SUCCESS, True, Some st, h') \<and>
    own_sync h' (mining_sync args) F' c' v \<and> chain_ok e ssl c' \<and>
    length (cv_blocks c') = length (cv_blocks c) + n \<and> load_sync (mining_sync args) h' = Some s \<and>
    blockchain_serialize e (sync_blockchain s) True True h' = Some (SUCCESS, Some (data, len), h1) \<and>
    command_send_blockchain_serialize e
      (Some \<lparr>blockchain_header = hdr, blockchain_data_len = len, blockchain_data = data\<rparr>) True True h1 =
      Some (SUCCESS, Some cmd, Some (buf, buf_len), h2) \<and>
    HEADER_SIZE < length buf \<and> length buf \<le> length (enc_chain c) + 9000 * n + 24 \<and>
    (\<forall>conn. conn_ok conn \<longrightarrow> arrives (conn_recv conn 0) (take HEADER_SIZE buf) \<longrightarrow>
       arrives (conn_recv conn 1) (drop HEADER_SIZE buf) \<longrightarrow>
       (\<exists>reply g' G'. handle_one_consensus_request e ssl conn sync g = Some (Code SUCCESS, reply, g') \<and>
          own_sync g' sync G' c' (w + 1) \<and> (\<forall>x \<in> G - G'. store g' x = None)))"
proof -
  have "length (enc_chain c) + 9000 * n < 2 ^ 63" using assms(8) by simp
  from undisturbed_thread [OF assms(1-7) this assms(9-12), of fs] obtain st h' F' bs c' where
    run: "mine_blocks_pthread_wrapper e ssl (Some args) True True (\<lambda>i. n \<le> i) env v fs h = Some (SUCCESS, True, Some st, h')"
    "own_sync h' (mining_sync args) F' c' v" "evolves F h F' h'" "c' = c\<lparr>cv_blocks := cv_blocks c @ bs\<rparr>" "length bs = n"
    "chain_ok e ssl c'" "wf_chain c'" "length (enc_chain c') \<le> length (enc_chain c) + 9000 * n"
    unfolding mine_blocks_pthread_wrapper_def by blast
  let ?len = "of_nat (length (enc_chain c')) :: u64"
  let ?hdr = "hdr\<lparr>command_len := 8 + ?len\<rparr>"
  let ?buf = "enc_send_data ?hdr ?len (enc_chain c')"
  have size: "length (enc_chain c') + 24 < 2 ^ 63" using run(8) assms(8) by simp
  have "\<forall>n. malloc_ok h' n" using run(3) assms(3) by (simp add: evolves_def same_except_def)
  from send_own_chain [OF run(2,7) size this assms(13,14), of e] obtain s h1 cmd h2 where
    send: "load_sync (mining_sync args) h' = Some s"
    "blockchain_serialize e (sync_blockchain s) True True h' = Some (SUCCESS, Some (enc_chain c', ?len), h1)"
    "command_send_blockchain_serialize e (Some \<lparr>blockchain_header = hdr, blockchain_data_len = ?len,
      blockchain_data = enc_chain c'\<rparr>) True True h1 = Some (SUCCESS, Some cmd, Some (?buf, 24 + ?len), h2)" by blast
  have wire: "wire_chain c'" by (rule valid_chain_wire [OF run(6,7)])
  have ssl: "digest_ok ssl" using assms(9) by (simp add: miner_keys_def)
  have better: "better e ssl d c'" using run(4-6) assms(20,21) by (simp add: better_def)
  have takes: "\<exists>reply g' G'. handle_one_consensus_request e ssl conn sync g = Some (Code SUCCESS, reply, g') \<and>
      own_sync g' sync G' c' (w + 1) \<and> (\<forall>x \<in> G - G'. store g' x = None)"
    if "conn_ok conn" "arrives (conn_recv conn 0) (take HEADER_SIZE ?buf)"
      "arrives (conn_recv conn 1) (drop HEADER_SIZE ?buf)" for conn
  proof -
    have "sends_chain conn ?hdr c'" by (rule arriving_chain [OF assms(13,14) refl that(2,3)])
    from consensus_request_ok [OF assms(15,18,19) this wire size verifiable_chain_ok [OF run(6) ssl] assms(16) ssl
        that(1) assms(17)] better
    show ?thesis by (elim exE conjE) (simp, blast)
  qed
  have "length ?buf = 24 + length (enc_chain c')"
    using assms(13) size by (simp add: enc_send_data_def length_enc_command_header wf_header_def)
  with run(8) have buf: "HEADER_SIZE < length ?buf" "length ?buf \<le> length (enc_chain c) + 9000 * n + 24" by simp_all
  have "length (cv_blocks c') = length (cv_blocks c) + n" using run(4,5) by simp
  with run(1,2,6) send buf takes show ?thesis by blast
qed

text \<open>One node mines a block; the other one still has the chain of one block.\<close>

theorem mined_chain_spreads_witness:
  "\<exists>h sync st h' c' F' g sync' conn reply g' G'.
    mine_blocks_pthread_wrapper Little example_openssl (Some (example_mining_args sync)) True True (\<lambda>i. 1 \<le> i) (\<lambda>_. example_mining_env)
      0 Map.empty h = Some (SUCCESS, True, Some st, h') \<and>
    own_sync h' sync F' c' 0 \<and> length (cv_blocks c') = 2 \<and>
    handle_one_consensus_request Little example_openssl conn sync' g = Some (Code SUCCESS, reply, g') \<and>
    own_sync g' sync' G' c' 4"
proof -
  let ?c = "example_chain []"
  let ?hdr = "\<lparr>command_prefix = COMMAND_PREFIX, command = 4, command_len = 0\<rparr>"
  obtain h sync F where h: "own_sync h sync F ?c 0" "heap_ok h" "\<forall>n. malloc_ok h n" using sync_representable by blast
  obtain g sync' G where g: "own_sync g sync' G ?c 3" "heap_ok g" "\<forall>n. malloc_ok g n" using sync_representable by blast
  let ?args = "example_mining_args sync"
  have own: "own_sync h (mining_sync ?args) F ?c 0" using h(1) by simp
  have env: "\<forall>i :: nat. undisturbed example_mining_env 0" by (simp add: undisturbed_def example_mining_env_def)
  have min: "minable Little example_openssl (cv_zeros ?c)"
    using example_zeros unfolding minable_def by (intro allI exI [of _ 0]) simp
  have small: "length (enc_chain ?c) + 9000 * 1 + 24 < 2 ^ 63" "length (enc_chain ?c) + 9000 * 1 + 24 \<le> INT_MAX"
    by (simp_all add: enc_chain_def example_chain_def enc_block_def genesis_v_def)
  have hdr: "wf_header ?hdr" "command ?hdr = command_code COMMAND_SEND_BLOCKCHAIN" by (simp_all add: wf_header_def)
  have one: "0 < (1 :: nat)" "length (cv_blocks ?c) < length (cv_blocks ?c) + 1" by simp_all
  from mined_chain_spreads [OF own h(2,3) example_miner(4,5) example_chains(1) example_miner(6) small(1) example_miner(1)
      env min one(1) hdr g example_chains(1,2) refl one(2), where fs = Map.empty]
  obtain st h' F' c' buf where m:
    "mine_blocks_pthread_wrapper Little example_openssl (Some ?args) True True (\<lambda>i. 1 \<le> i) (\<lambda>_. example_mining_env) 0 Map.empty h =
      Some (SUCCESS, True, Some st, h')"
    "own_sync h' sync F' c' 0" "length (cv_blocks c') = length (cv_blocks ?c) + 1" "HEADER_SIZE < length buf"
    "length buf \<le> length (enc_chain ?c) + 9000 * 1 + 24"
    and takes: "\<forall>conn. conn_ok conn \<longrightarrow> arrives (conn_recv conn 0) (take HEADER_SIZE buf) \<longrightarrow>
       arrives (conn_recv conn 1) (drop HEADER_SIZE buf) \<longrightarrow>
       (\<exists>reply g' G'. handle_one_consensus_request Little example_openssl conn sync' g = Some (Code SUCCESS, reply, g') \<and>
          own_sync g' sync' G' c' (3 + 1) \<and> (\<forall>x \<in> G - G'. store g' x = None))"
    unfolding example_mining_sync by blast
  let ?conn = "example_connection (take HEADER_SIZE buf) (drop HEADER_SIZE buf)"
  have "arrives (conn_recv ?conn 0) (take HEADER_SIZE buf)" "arrives (conn_recv ?conn 1) (drop HEADER_SIZE buf)"
    using example_arrives [of "take HEADER_SIZE buf"] example_arrives [of "drop HEADER_SIZE buf"] m(4,5) small(2)
    by (simp_all add: example_connection_def)
  with takes example_conn_ok obtain reply g' G' where
    "handle_one_consensus_request Little example_openssl ?conn sync' g = Some (Code SUCCESS, reply, g')"
    "own_sync g' sync' G' c' (3 + 1)" by blast
  moreover have "3 + 1 = (4 :: u64)" by simp
  moreover have "length (cv_blocks c') = 2" using m(3) by (simp add: example_chain_def)
  ultimately show ?thesis using m(1,2) by metis
qed

end
