(* ===== verification/Byte_Order.thy ===== *)
theory Byte_Order imports Blockchain_Verify begin

text \<open>
  Hosts of different byte order.  \<open>block_hash\<close> (\<^verbatim>\<open>src/block.c\<close>) hashes the memory of a block,
  so the hash depends on the byte order of the host, although chains travel between hosts in a fixed
  order.
\<close>

lemma le_bytes_2017: "le_bytes (2017 :: u64) = [225, 7, 0, 0, 0, 0, 0, 0]"
  by (simp add: le_bytes_def upt_rec)

text \<open>
  The proof of work of the genesis block is the constant 2017, whose bytes do not read the same in both
  directions.
\<close>

lemma genesis_image_differs:
  assumes "genesis_ok g"
  shows "block_image Little g \<noteq> block_image Big g"
proof
  assume "block_image Little g = block_image Big g"
  then have "host_bytes Little (bv_proof_of_work g) = host_bytes Big (bv_proof_of_work g)"
    by (simp add: block_image_def host_bytes_def)
  then show False
    using assms by (simp add: genesis_ok_def host_bytes_def be_bytes_def le_bytes_2017)
qed

text \<open>
  C30. Hosts of different byte order cannot share a chain.  If \<open>blockchain_verify\<close> accepts the same
  chain of two or more blocks on a little-endian and on a big-endian host, the two memory images of its
  genesis block differ and have the same SHA-256 digest.
\<close>

theorem byte_orders_cannot_agree:
  assumes "own_chain h a F c" "own_chain h' a' F' c" "wf_chain c" "digest_ok ssl" "cv_blocks c = g # b # bs"
    and "blockchain_verify Little ssl a True f h = Some (SUCCESS, Some True, x)"
    and "blockchain_verify Big ssl a' True f' h' = Some (SUCCESS, Some True, x')"
  shows "block_image Little g \<noteq> block_image Big g \<and>
    sha256 ssl (block_image Little g) = sha256 ssl (block_image Big g)"
proof -
  have ok: "chain_ok Little ssl c" "chain_ok Big ssl c"
    using verify_valid_iff [OF assms(1,3,4), of Little f] verify_valid_iff [OF assms(2-4), of Big f'] assms(6,7) by blast+
  have link: "bv_previous_block_hash b = hash_of e ssl g" if "chain_ok e ssl c" for e
    using that assms(5) unfolding chain_ok_def block_ok_def by (metis length_Cons nth_Cons_0 nth_Cons_Suc zero_less_Suc Suc_less_eq)
  have "genesis_ok g" using ok(1) assms(5) by (simp add: chain_ok_def)
  from genesis_image_differs [OF this] link [OF ok(1)] link [OF ok(2)] show ?thesis by (simp add: hash_of_def)
qed

text \<open>An example with a digest that maps everything to the same value.\<close>

theorem byte_orders_cannot_agree_witness:
  "block_image Little (genesis_v 4) \<noteq> block_image Big (genesis_v 4) \<and>
   sha256 example_openssl (block_image Little (genesis_v 4)) = sha256 example_openssl (block_image Big (genesis_v 4))"
proof -
  let ?c = "example_chain [example_block]"
  obtain h a F where h: "own_chain h a F ?c" using chain_representable by blast
  have wf: "wf_chain ?c" by (simp add: wf_example_chain example_block_ok)
  have "blockchain_verify e example_openssl a True True h = Some (SUCCESS, Some True, None)" for e
    using verify_valid_iff [OF h wf example_openssl_ok(3), of e True] example_chain_ok by blast
  from byte_orders_cannot_agree [OF h h wf example_openssl_ok(3) _ this this] show ?thesis
    by (simp add: example_chain_def)
qed

end
