(* ===== verification/Peer_Discovery_Thread.thy ===== *)
theory Peer_Discovery_Thread imports Requests Peer_Discovery begin

text \<open>
  The peer discovery thread of a node (\<^verbatim>\<open>src/peer_discovery_thread.c\<close>): it registers the
  node's address with the bootstrap server and replaces the node's list of peers by the list the
  server answers with.
\<close>

section \<open>Operations\<close>

text \<open>
  What one exchange sees of the outside: whether the socket could be created and connected, the
  connection, the results of the mutex calls around the progress output, and what the thread
  reads of its arguments.
\<close>

record discover_env =
  client_socket_ok :: bool
  connect_ok :: bool
  client_conn :: connection
  relock_result :: nat
  reunlock_result :: nat

record discover_peers_args =
  peer_addr :: sockaddr_in6
  show_progress :: bool

definition registration_command :: "sockaddr_in6 \<Rightarrow> command_register_peer_t" where
  "registration_command a =
     \<lparr>register_header = \<lparr>command_prefix = COMMAND_PREFIX,
        command = command_code COMMAND_REGISTER_PEER, command_len = 0\<rparr>,
      register_family = sin6_family a, register_port = sin6_port a, register_flowinfo = sin6_flowinfo a,
      register_addr = sin6_addr a, register_scope_id = sin6_scope_id a\<rparr>"

text \<open>Receiving the answer.  Here the result of \<open>realloc\<close> is checked, its size is not.\<close>

definition receive_peer_list ::
  "endianness \<Rightarrow> (nat \<Rightarrow> nat \<Rightarrow> nat \<Rightarrow> byte list option) \<Rightarrow> heap \<Rightarrow>
   ((return_code_t + command_send_peer_list_t) \<times> heap) option" where
  "receive_peer_list e recv h =
     (case calloc_buf HEADER_SIZE h of
        (None, h) \<Rightarrow> Some (Inl FAILURE_COULD_NOT_MALLOC, h)
      | (Some recv_buf, h) \<Rightarrow> do {
          (return_code, recv_buf) \<leftarrow> recv_all_at (recv 0) recv_buf 0 HEADER_SIZE;
          if return_code \<noteq> SUCCESS then Some (Inl return_code, h)
          else do {
            (return_code, header) \<leftarrow>
              command_header_deserialize e True (Some recv_buf) (of_nat HEADER_SIZE);
            if return_code \<noteq> SUCCESS then Some (Inl return_code, h)
            else do {
              header \<leftarrow> header;
              if command header \<noteq> command_code COMMAND_SEND_PEER_LIST then Some (Inl FAILURE_INVALID_COMMAND, h)
              else (let recv_size = of_nat HEADER_SIZE + command_len header
                in case realloc_buf recv_buf (unat recv_size) h of
                     (None, h) \<Rightarrow> Some (Inl FAILURE_COULD_NOT_MALLOC, h)
                   | (Some recv_buf, h) \<Rightarrow> do {
                       (return_code, recv_buf) \<leftarrow>
                         recv_all_at (recv 1) recv_buf HEADER_SIZE (unat (command_len header));
                       if return_code \<noteq> SUCCESS then Some (Inl return_code, h)
                       else do {
                         (return_code, cmd, h) \<leftarrow>
                           command_send_peer_list_deserialize e True (Some recv_buf) recv_size h;
                         if return_code \<noteq> SUCCESS then Some (Inl return_code, h)
                         else do {
                           cmd \<leftarrow> cmd;
                           Some (Inr cmd, h)
                         }
                       }
                     })
            }
          }
        })"

text \<open>The progress output reads every entry; a failed conversion of an address is only reported.\<close>

partial_function (option) print_peers_loop :: "addr \<Rightarrow> heap \<Rightarrow> peer_info_t list option" where
  "print_peers_loop node h =
     (if node = NULL then Some []
      else do {
        n \<leftarrow> load_node node h;
        peer \<leftarrow> load_peer (node_data n) h;
        peers \<leftarrow> print_peers_loop (node_next n) h;
        Some (peer # peers)
      })"

text \<open>
  The new list replaces the old one, which is destroyed.  The result is the return code and
  \<open>args->peer_info_list\<close>.
\<close>

definition replace_peer_list ::
  "discover_peers_args \<Rightarrow> discover_env \<Rightarrow> addr \<Rightarrow> addr \<Rightarrow> heap \<Rightarrow> (return_code_t \<times> addr \<times> heap) option" where
  "replace_peer_list args env old new h =
     (if lock_result (client_conn env) \<noteq> 0 then Some (FAILURE_PTHREAD_FUNCTION, old, h)
      else do {
        (_, h) \<leftarrow> linked_list_destroy app_free old h;
        if unlock_result (client_conn env) \<noteq> 0 then Some (FAILURE_PTHREAD_FUNCTION, new, h)
        else if \<not> show_progress args then Some (SUCCESS, new, h)
        else if relock_result env \<noteq> 0 then Some (FAILURE_PTHREAD_FUNCTION, new, h)
        else do {
          l \<leftarrow> load_list new h;
          _ \<leftarrow> print_peers_loop (head l) h;
          if reunlock_result env \<noteq> 0 then Some (FAILURE_PTHREAD_FUNCTION, new, h)
          else Some (SUCCESS, new, h)
        }
      })"

definition adopt_peer_list ::
  "endianness \<Rightarrow> discover_peers_args \<Rightarrow> discover_env \<Rightarrow> addr \<Rightarrow> command_send_peer_list_t \<Rightarrow> heap \<Rightarrow>
   (return_code_t \<times> addr \<times> heap) option" where
  "adopt_peer_list e args env peer_info_list cmd h =
     do {
       (return_code, new_peer_info_list, h) \<leftarrow> peer_info_list_deserialize e True
         (Some (peer_list_data cmd)) (peer_list_data_len cmd) h;
       if return_code \<noteq> SUCCESS then Some (return_code, peer_info_list, h)
       else replace_peer_list args env peer_info_list (out_ptr new_peer_info_list) h
     }"

text \<open>
  One exchange: the return code, \<open>args->peer_info_list\<close>, what was put on the wire, and the
  heap.
\<close>

definition discover_peers_once ::
  "endianness \<Rightarrow> discover_peers_args \<Rightarrow> discover_env \<Rightarrow> addr \<Rightarrow> heap \<Rightarrow>
   (return_code_t \<times> addr \<times> byte list \<times> heap) option" where
  "discover_peers_once e args env peer_info_list h =
     (if \<not> client_socket_ok env \<or> \<not> connect_ok env
      then Some (FAILURE_NETWORK_FUNCTION, peer_info_list, [], h)
      else do {
        (return_code, _, result, h) \<leftarrow>
          command_register_peer_serialize e (Some (registration_command (peer_addr args))) True True h;
        if return_code \<noteq> SUCCESS then Some (return_code, peer_info_list, [], h)
        else do {
          (send_buf, send_buf_size) \<leftarrow> result;
          (return_code, sent) \<leftarrow> send_all (conn_send (client_conn env)) (Some send_buf) (unat send_buf_size);
          if return_code \<noteq> SUCCESS then Some (return_code, peer_info_list, sent, h)
          else do {
            (reply, h) \<leftarrow> receive_peer_list e (conn_recv (client_conn env)) h;
            case reply of
              Inl return_code \<Rightarrow> Some (return_code, peer_info_list, sent, h)
            | Inr cmd \<Rightarrow> do {
                (return_code, peer_info_list, h) \<leftarrow> adopt_peer_list e args env peer_info_list cmd h;
                Some (return_code, peer_info_list, sent, h)
              }
          }
        }
      })"

text \<open>
  The thread: an exchange in every round until it is asked to stop; a failed exchange is
  repeated in the next round.  The sleep between two rounds has no effect on the state.
\<close>

partial_function (option) discover_peers_loop ::
  "endianness \<Rightarrow> discover_peers_args \<Rightarrow> (nat \<Rightarrow> bool) \<Rightarrow> (nat \<Rightarrow> discover_env) \<Rightarrow> nat \<Rightarrow> return_code_t \<Rightarrow>
   addr \<Rightarrow> heap \<Rightarrow> (return_code_t \<times> addr \<times> heap) option" where
  "discover_peers_loop e args should_stop env i return_code peer_info_list h =
     (if should_stop i then Some (return_code, peer_info_list, h)
      else do {
        (return_code, peer_info_list, _, h) \<leftarrow> discover_peers_once e args (env i) peer_info_list h;
        discover_peers_loop e args should_stop env (Suc i) return_code peer_info_list h
      })"

definition discover_peers ::
  "endianness \<Rightarrow> discover_peers_args \<Rightarrow> (nat \<Rightarrow> bool) \<Rightarrow> (nat \<Rightarrow> discover_env) \<Rightarrow> addr \<Rightarrow> heap \<Rightarrow>
   (return_code_t \<times> bool \<times> addr \<times> heap) option" where
  "discover_peers e args should_stop env peer_info_list h =
     do {
       (return_code, peer_info_list, h) \<leftarrow>
         discover_peers_loop e args should_stop env 0 SUCCESS peer_info_list h;
       (case request h of
          (ok, h) \<Rightarrow> if ok then Some (return_code, True, peer_info_list, h) else None)
     }"

text \<open>The entry point for \<open>pthread_create\<close>.\<close>

definition discover_peers_pthread_wrapper ::
  "endianness \<Rightarrow> discover_peers_args \<Rightarrow> (nat \<Rightarrow> bool) \<Rightarrow> (nat \<Rightarrow> discover_env) \<Rightarrow> addr \<Rightarrow> heap \<Rightarrow>
   (return_code_t \<times> bool \<times> addr \<times> heap) option" where
  "discover_peers_pthread_wrapper e args should_stop env peer_info_list h =
     discover_peers e args should_stop env peer_info_list h"

section \<open>One exchange\<close>

lemma receive_peer_list_frame:
  "receive_peer_list e recv h = Some (r, h') \<Longrightarrow> same_except {} h h'"
  by (auto simp: receive_peer_list_def Let_def
      split: Option.bind_split_asm if_split_asm prod.split_asm option.split_asm
      dest!: calloc_buf_frame realloc_buf_frame send_peer_list_deserialize_frame;
      blast intro: same_except_empty_trans)

lemma print_peers_loop_eq:
  "own_seg own_peer h p F ps NULL \<Longrightarrow> print_peers_loop p h = Some ps"
proof (induction ps arbitrary: p F)
  case Nil
  then show ?case by (simp add: print_peers_loop.simps)
next
  case (Cons q ps)
  from Cons.prems show ?case
  proof (rule peer.seg_ConsE)
    fix d s G H
    assume *: "p \<noteq> NULL" "load_node p h = Some \<lparr>node_data = d, node_next = s\<rparr>" "own_peer h d G q"
      "own_seg own_peer h s H ps NULL"
    have "load_peer d h = Some q" using *(3) by (simp add: own_peer_def load_peer_store)
    with *(1,2) Cons.IH [OF *(4)] show ?thesis by (simp add: print_peers_loop.simps [of p])
  qed
qed

lemma replace_peer_list_eq:
  assumes old: "own_peer_list h old F ps" and new: "own_peer_list h new K qs" and disj: "F \<inter> K = {}"
    and lock: "lock_result (client_conn env) = 0"
  shows "\<exists>rc. replace_peer_list args env old new h = Some (rc, new, free_all F h) \<and>
    own_peer_list (free_all F h) new K qs \<and>
    (unlock_result (client_conn env) = 0 \<and> relock_result env = 0 \<and> reunlock_result env = 0 \<longrightarrow> rc = SUCCESS)"
proof -
  have d: "linked_list_destroy app_free old h = Some (SUCCESS, free_all F h)"
    by (rule peer_app.destroy_eq [OF old])
  have own: "own_peer_list (free_all F h) new K qs"
    using disj by (intro peer.ll_frame [OF new] free_all_sel(4)) auto
  from own obtain p G where "load_list new (free_all F h) =
      Some \<lparr>free_function = FREE, compare_function = Some COMPARE_PEER_INFO, head = p\<rparr>"
    "own_seg own_peer (free_all F h) p G qs NULL"
    by (rule peer.ll_list)
  with d own lock print_peers_loop_eq show ?thesis by (auto simp: replace_peer_list_def)
qed

text \<open>A reply with the list \<open>ps\<close> that arrives whole.\<close>

definition sends_peer_list :: "connection \<Rightarrow> command_header_t \<Rightarrow> peer_info_t list \<Rightarrow> bool" where
  "sends_peer_list conn hdr ps \<longleftrightarrow>
     wf_header hdr \<and> command hdr = command_code COMMAND_SEND_PEER_LIST \<and>
     command_len hdr = 8 + of_nat (length (enc_peers ps)) \<and>
     arrives (conn_recv conn 0) (enc_command_header hdr) \<and>
     arrives (conn_recv conn 1) (be_bytes (of_nat (length (enc_peers ps)) :: u64) @ enc_peers ps)"

lemma receive_peer_list_ok:
  assumes "sends_peer_list conn hdr ps" "length (enc_peers ps) + 24 < 2 ^ 63" "\<forall>n. malloc_ok h n"
  shows "\<exists>h'. receive_peer_list e (conn_recv conn) h =
      Some (Inr \<lparr>peer_list_header = hdr, peer_list_data_len = of_nat (length (enc_peers ps)),
                 peer_list_data = enc_peers ps\<rparr>, h') \<and> same_except {} h h'"
proof -
  let ?len = "of_nat (length (enc_peers ps)) :: u64"
  let ?hdr = "enc_command_header hdr" and ?pay = "be_bytes ?len @ enc_peers ps"
  let ?h = "h\<lparr>brk := Suc (Suc (brk h))\<rparr>"
  have hdr: "wf_header hdr" "command hdr = command_code COMMAND_SEND_PEER_LIST" "command_len hdr = 8 + ?len"
    "arrives (conn_recv conn 0) ?hdr" "arrives (conn_recv conn 1) ?pay"
    using assms(1) by (simp_all add: sends_peer_list_def)
  note len = length_enc_command_header [OF hdr(1)]
  have size: "unat ?len = length (enc_peers ps)" "unat (24 + ?len) = 24 + length (enc_peers ps)"
    "unat (8 + ?len) = length ?pay"
    using assms(2) by (simp_all add: unat_word_ariths)
  have "recv_all_at (conn_recv conn 0) (replicate 16 0) 0 16 = Some (SUCCESS, ?hdr)"
    using recv_all_at_arrives [OF hdr(4), of 0 "replicate 16 0"] len by simp
  moreover have "holds_at ?hdr 0 ?hdr" using holds_at_app [of "[]" ?hdr "[]"] by simp
  then have "command_header_deserialize e True (Some ?hdr) 16 = Some (SUCCESS, Some hdr)"
    using hdr_wire.parse_enc [OF hdr(1), of ?hdr 0 16 e] len by (simp add: command_header_deserialize_def filled_def)
  moreover have "recv_all_at (conn_recv conn 1) (?hdr @ replicate (length ?pay) (junk h)) 16 (length ?pay) =
      Some (SUCCESS, ?hdr @ ?pay)"
    using recv_all_at_arrives [OF hdr(5), of 16 "?hdr @ replicate (length ?pay) (junk h)"] len by simp
  moreover have "wf_send_data COMMAND_SEND_PEER_LIST hdr ?len (enc_peers ps)"
    using hdr(1,2) size(1) by (simp add: wf_send_data_def)
  moreover have "holds_at (?hdr @ ?pay) 0 (enc_send_data hdr ?len (enc_peers ps))"
    using holds_at_app [of "[]" "?hdr @ ?pay" "[]"] by (simp add: enc_send_data_def)
  ultimately have "send_data_deserialize COMMAND_SEND_PEER_LIST e (?hdr @ ?pay) (24 + ?len) ?h =
      Some (SUCCESS, Some (hdr, ?len, enc_peers ps), ?h\<lparr>brk := Suc (brk ?h)\<rparr>)"
    using assms(2,3) size(2) by (intro send_data_deserialize_eq) simp_all
  then have d: "command_send_peer_list_deserialize e True (Some (?hdr @ ?pay)) (24 + ?len) ?h =
      Some (SUCCESS, Some \<lparr>peer_list_header = hdr, peer_list_data_len = ?len, peer_list_data = enc_peers ps\<rparr>,
        ?h\<lparr>brk := Suc (brk ?h)\<rparr>)"
    by (simp add: command_send_peer_list_deserialize_def)
  have grow: "realloc_buf ?hdr (unat (24 + ?len)) (h\<lparr>brk := Suc (brk h)\<rparr>) =
      (Some (?hdr @ replicate (length ?pay) (junk h)), ?h)"
    using assms(2,3) len size(2) by (simp add: realloc_grow)
  show ?thesis
    unfolding receive_peer_list_def
    using assms(3) hdr(2,3) \<open>recv_all_at (conn_recv conn 0) _ _ _ = _\<close>
      \<open>command_header_deserialize e True _ _ = _\<close> \<open>recv_all_at (conn_recv conn 1) _ _ _ = _\<close> d grow size(3)
    by (simp add: calloc_buf_eq same_except_def)
qed

lemma exchange_ok:
  assumes own: "own_peer_list h old F ps" and ok: "heap_ok h" "\<forall>n. malloc_ok h n"
    and addr: "wf_sockaddr (peer_addr args)"
    and reply: "sends_peer_list (client_conn env) hdr qs" "\<forall>q \<in> set qs. wf_peer q" "length (enc_peers qs) + 24 < 2 ^ 63"
    and env: "client_socket_ok env" "connect_ok env" "conn_ok (client_conn env)"
      "relock_result env = 0" "reunlock_result env = 0"
  defines "c \<equiv> (registration_command (peer_addr args))"
  shows "\<exists>new K h'. discover_peers_once e args env old h =
      Some (SUCCESS, new, enc_register_peer (c\<lparr>register_header := (register_header c)\<lparr>command_len := 32\<rparr>\<rparr>) @ replicate 4 0, h') \<and>
    own_peer_list h' new K qs \<and> evolves F h K h'"
proof -
  let ?c = "c\<lparr>register_header := (register_header c)\<lparr>command_len := 32\<rparr>\<rparr>"
  let ?buf = "enc_register_peer ?c @ replicate 4 0"
  let ?h = "h\<lparr>brk := Suc (Suc (Suc (brk h)))\<rparr>"
  have wf: "wf_register_peer c"
    using addr by (simp add: c_def registration_command_def wf_register_peer_def wf_header_def wf_sockaddr_def)
  note s = register_peer_serialize_eq [OF wf ok(2)]
  have sent: "send_all (conn_send (client_conn env)) (Some ?buf) 48 = Some (SUCCESS, ?buf)"
    using send_all_ok [of "conn_send (client_conn env)" ?buf] env(3) s(3) by (simp add: conn_ok_def)
  have same: "same_except {} h ?h" by (simp add: same_except_def)
  have "\<forall>n. malloc_ok ?h n" using ok(2) by simp
  from receive_peer_list_ok [OF reply(1,3) this, of e] obtain h1 where
    r: "receive_peer_list e (conn_recv (client_conn env)) ?h =
      Some (Inr \<lparr>peer_list_header = hdr, peer_list_data_len = of_nat (length (enc_peers qs)),
                 peer_list_data = enc_peers qs\<rparr>, h1)" "same_except {} ?h h1" by blast
  have h1: "same_except {} h h1" using same r(2) by (rule same_except_empty_trans)
  then have "heap_ok h1" "\<forall>n. malloc_ok h1 n" using heap_ok_same [OF ok(1)] ok(2) by (simp_all add: same_except_def)
  from deserialize_enc_peers [OF reply(2) _ this, of e] reply(3) obtain new K h2 where
    d: "peer_info_list_deserialize e True (Some (enc_peers qs)) (of_nat (length (enc_peers qs))) h1 =
      Some (SUCCESS, Some new, h2)" "own_peer_list h2 new K qs" "same_except K h1 h2"
    "\<forall>x \<in> K. store h1 x = None" "heap_ok h2" by auto
  have apart: "F \<inter> K = {}" using d(4) peer.ll_live [OF own] h1 by (force simp: same_except_def)
  have old: "own_peer_list h2 old F ps"
    using apart h1 d(3) by (intro peer.ll_frame [OF own]) (auto simp: same_except_def)
  from replace_peer_list_eq [OF old d(2) apart, of env args] env obtain
    r': "replace_peer_list args env old new h2 = Some (SUCCESS, new, free_all F h2)"
    "own_peer_list (free_all F h2) new K qs" by (auto simp: conn_ok_def)
  have "evolves F h K (free_all F h2)"
    using h1 d(3,4,5) apart
    by (auto simp: evolves_def same_except_def free_all_store restrict_map_def)
  with s(1) sent r d(1) r' env(1,2) show ?thesis
    by (simp add: discover_peers_once_def adopt_peer_list_def c_def [symmetric] out_ptr_def) blast
qed

section \<open>Any reply\<close>

text \<open>
  The list at \<open>l\<close> on the heap \<open>h\<close>, when the list of the thread owned \<open>F0\<close> on the
  heap \<open>h0\<close>.
\<close>

definition peers_inv :: "heap \<Rightarrow> addr set \<Rightarrow> addr \<Rightarrow> heap \<Rightarrow> bool" where
  "peers_inv h0 F0 l h \<longleftrightarrow>
     (\<exists>F ps. own_peer_list h l F ps \<and> leaves F0 h0 h \<and> (\<forall>x \<in> F. x \<in> F0 \<or> store h0 x = None))"

lemma peers_inv_same: "peers_inv h0 F0 l h \<Longrightarrow> same_except {} h h' \<Longrightarrow> peers_inv h0 F0 l h'"
proof -
  assume "peers_inv h0 F0 l h" and same: "same_except {} h h'"
  then obtain F ps where h: "own_peer_list h l F ps" "leaves F0 h0 h" "\<forall>x \<in> F. x \<in> F0 \<or> store h0 x = None"
    unfolding peers_inv_def by blast
  have "own_peer_list h' l F ps" by (intro peer.ll_frame [OF h(1) same_except_store [OF same]]) simp
  moreover have "leaves F0 h0 h'"
    using h(2) same heap_ok_same [of h h'] by (auto simp: leaves_def same_except_def)
  ultimately show ?thesis using h(3) unfolding peers_inv_def by blast
qed

lemma adopt_peer_list_inv:
  assumes run: "adopt_peer_list e args env l cmd h = Some (rc, l', h')" and inv: "peers_inv h0 F0 l h"
  shows "peers_inv h0 F0 l' h'"
proof -
  from inv obtain F ps where h: "own_peer_list h l F ps" "leaves F0 h0 h" "\<forall>x \<in> F. x \<in> F0 \<or> store h0 x = None"
    unfolding peers_inv_def by blast
  then have ok: "heap_ok h" by (simp add: leaves_def)
  from run obtain rc1 new h1 where
    d: "peer_info_list_deserialize e True (Some (peer_list_data cmd)) (peer_list_data_len cmd) h = Some (rc1, new, h1)"
    "(rc1 \<noteq> SUCCESS \<and> l' = l \<and> h' = h1) \<or>
     (rc1 = SUCCESS \<and> replace_peer_list args env l (out_ptr new) h1 = Some (rc, l', h'))"
    by (auto simp: adopt_peer_list_def split: Option.bind_split_asm if_split_asm)
  from peers_deserialize_result [OF ok, of e "peer_list_data cmd" "peer_list_data_len cmd"] d(1)
  consider "cleaned {} h h1" "rc1 \<noteq> SUCCESS"
    | m K qs where "new = Some m" "rc1 = SUCCESS" "grows {} h K h1" "own_peer_list h1 m K qs"
    by (auto simp: own_peers_def split: option.split_asm sum.split_asm)
  then show ?thesis
  proof cases
    case 1
    with d(2) have "same_except {} h h'" "l' = l" by (auto simp: cleaned_def)
    with inv peers_inv_same show ?thesis by blast
  next
    case 2
    have K: "same_except K h h1" "\<forall>x \<in> K. store h x = None" "heap_ok h1" using 2(3) by (auto simp: grows_def)
    have apart: "F \<inter> K = {}" using peer.ll_live [OF h(1)] K(2) by blast
    have own: "own_peer_list h1 l F ps"
      using apart K(1) by (intro peer.ll_frame [OF h(1)]) (auto simp: same_except_def)
    have lv: "leaves F0 h0 h1" using h(2) K unfolding leaves_def same_except_def by (metis order_trans)
    have replace: "replace_peer_list args env l m h1 = Some (rc, l', h')" using d(2) 2 by (simp add: out_ptr_def)
    show ?thesis
    proof (cases "lock_result (client_conn env) = 0")
      case False
      with replace own lv h(3) show ?thesis by (auto simp: replace_peer_list_def peers_inv_def)
    next
      case True
      from replace_peer_list_eq [OF own 2(4) apart True, of args] replace
      have h': "l' = m" "h' = free_all F h1" "own_peer_list h' m K qs" by auto
      have "leaves F0 h0 h'"
        using lv h(3) unfolding leaves_def h'(2) by (auto simp: free_all_store restrict_map_def)
      moreover have "\<forall>x \<in> K. x \<in> F0 \<or> store h0 x = None" using h(2) K(2) unfolding leaves_def by metis
      ultimately show ?thesis using h'(1,3) unfolding peers_inv_def by blast
    qed
  qed
qed

lemma exchange_parts:
  assumes run: "discover_peers_once e args env l h = Some (rc, l', sent, h')"
  shows "l' = l \<and> same_except {} h h' \<or>
    (\<exists>cmd h1. same_except {} h h1 \<and> adopt_peer_list e args env l cmd h1 = Some (rc, l', h'))"
proof (cases "client_socket_ok env \<and> connect_ok env")
  case False
  with run show ?thesis by (auto simp: discover_peers_once_def)
next
  case True
  with run obtain rc1 c res h1 where
    s: "command_register_peer_serialize e (Some (registration_command (peer_addr args))) True True h = Some (rc1, c, res, h1)"
    by (auto simp: discover_peers_once_def split: Option.bind_split_asm)
  have h1: "same_except {} h h1" by (rule register_peer_serialize_frame [OF s])
  show ?thesis
  proof (cases "l' = l \<and> h' = h1")
    case True
    with h1 show ?thesis by simp
  next
    case False
    with run True s obtain reply h2 where
      r: "receive_peer_list e (conn_recv (client_conn env)) h1 = Some (reply, h2)"
      by (auto simp: discover_peers_once_def split: Option.bind_split_asm if_split_asm prod.split_asm)
    have "same_except {} h h2" using h1 receive_peer_list_frame [OF r] by (rule same_except_empty_trans)
    with run True s r False show ?thesis
      by (auto simp: discover_peers_once_def
          split: Option.bind_split_asm if_split_asm prod.split_asm sum.split_asm)
  qed
qed

lemma exchange_inv:
  "discover_peers_once e args env l h = Some (rc, l', sent, h') \<Longrightarrow> peers_inv h0 F0 l h \<Longrightarrow> peers_inv h0 F0 l' h'"
  using exchange_parts [of e args env l h rc l' sent h'] peers_inv_same adopt_peer_list_inv by blast

lemma discover_loop_inv:
  assumes "discover_peers_loop e args should_stop env i rc l h = Some r" "peers_inv h0 F0 l h"
  shows "peers_inv h0 F0 (fst (snd r)) (snd (snd r))"
proof -
  have "peers_inv h0 F0 l h \<longrightarrow> peers_inv h0 F0 (fst (snd r)) (snd (snd r))"
    by (rule discover_peers_loop.raw_induct [OF _ assms(1)])
      (auto split: if_split_asm Option.bind_split_asm dest: exchange_inv)
  with assms(2) show ?thesis by blast
qed


text \<open>An exchange in which the list \<open>qs\<close> arrives.\<close>

definition peer_list_header_for :: "peer_info_t list \<Rightarrow> command_header_t" where
  "peer_list_header_for ps = \<lparr>command_prefix = COMMAND_PREFIX,
     command = command_code COMMAND_SEND_PEER_LIST, command_len = 8 + of_nat (length (enc_peers ps))\<rparr>"

definition example_discover_env :: "peer_info_t list \<Rightarrow> discover_env" where
  "example_discover_env qs = \<lparr>client_socket_ok = True, connect_ok = True,
     client_conn = example_connection (enc_command_header (peer_list_header_for qs))
       (be_bytes (of_nat (length (enc_peers qs)) :: u64) @ enc_peers qs),
     relock_result = 0, reunlock_result = 0\<rparr>"

definition example_discover_args :: discover_peers_args where
  "example_discover_args = \<lparr>peer_addr = listen_addr (example_peer 0), show_progress = True\<rparr>"

lemma example_sends_peer_list:
  assumes "length (enc_peers qs) < 2 ^ 30"
  shows "sends_peer_list (client_conn (example_discover_env qs)) (peer_list_header_for qs) qs"
proof -
  let ?hdr = "enc_command_header (peer_list_header_for qs)"
  let ?pay = "be_bytes (of_nat (length (enc_peers qs)) :: u64) @ enc_peers qs"
  have hdr: "wf_header (peer_list_header_for qs)" by (simp add: wf_header_def peer_list_header_for_def)
  have "arrives (\<lambda>i n. Some ?hdr) ?hdr" by (rule example_arrives) (simp_all add: length_enc_command_header [OF hdr])
  moreover have "arrives (\<lambda>i n. Some ?pay) ?pay" by (rule example_arrives) (use assms in simp_all)
  ultimately show ?thesis
    using hdr by (simp add: sends_peer_list_def example_discover_env_def example_connection_def)
      (simp add: peer_list_header_for_def)
qed

lemma example_exchange_env:
  "client_socket_ok (example_discover_env qs)" "connect_ok (example_discover_env qs)"
  "conn_ok (client_conn (example_discover_env qs))" "relock_result (example_discover_env qs) = 0"
  "reunlock_result (example_discover_env qs) = 0" "wf_sockaddr (peer_addr example_discover_args)"
  "wf_peer (example_peer t)" "length (enc_peers [example_peer t]) = 44"
  by (simp_all add: example_discover_env_def example_conn_ok example_discover_args_def wf_sockaddr_def
      example_peer_def wf_peer_def enc_peers_def enc_peer_def)


end
