(* ===== verification/Discovery_Exchange.thy ===== *)
theory Discovery_Exchange imports Bootstrap_Server Peer_Discovery_Thread begin

text \<open>
  A node and the bootstrap server together: what \<open>discover_peers_once\<close> of the node puts on
  the wire is what \<open>handle_one_peer_discovery_request\<close> of the server reads, and the other way
  round.  The two run on heaps of their own and may differ in byte order.
\<close>

text \<open>
  A byte stream as the two sides read it, the header with one call of \<open>recv_all\<close> and the
  rest with another.
\<close>

definition stream_arrives :: "connection \<Rightarrow> byte list \<Rightarrow> bool" where
  "stream_arrives conn bs \<longleftrightarrow> arrives (conn_recv conn 0) (take 16 bs) \<and> arrives (conn_recv conn 1) (drop 16 bs)"

text \<open>The registration on the wire: the structure has four bytes of padding behind its fields.\<close>

definition registration_of :: "sockaddr_in6 \<Rightarrow> command_register_peer_t" where
  "registration_of a = (let c = registration_command a
     in c\<lparr>register_header := (register_header c)\<lparr>command_len := 32\<rparr>\<rparr>)"

definition registration_message :: "sockaddr_in6 \<Rightarrow> byte list" where
  "registration_message a = enc_register_peer (registration_of a) @ replicate 4 0"

lemma registered_registration [simp]:
  "registered_peer (registration_of a) now = \<lparr>listen_addr = a, last_connected = now\<rparr>"
  by (simp add: registered_peer_def registration_of_def registration_command_def)

lemma arriving_registration:
  assumes "wf_sockaddr a" "stream_arrives conn (registration_message a)"
  shows "sends_registration conn (registration_of a)"
proof -
  let ?c = "registration_of a"
  let ?hdr = "enc_command_header (register_header ?c)"
  let ?pay = "drop 16 (registration_message a)"
  have wf: "wf_register_peer ?c" "command_len (register_header ?c) = 32"
    using assms(1) by (simp_all add: registration_of_def registration_command_def wf_register_peer_def wf_header_def
        wf_sockaddr_def)
  then have len: "length ?pay = 32" "take 16 (registration_message a) = ?hdr"
    by (simp_all add: wf_register_peer_def registration_message_def enc_register_peer_def length_enc_command_header)
  then have "?hdr @ ?pay = enc_register_peer ?c @ replicate 4 0"
    by (metis append_take_drop_id registration_message_def)
  with wf len assms(2) show ?thesis
    unfolding sends_registration_def stream_arrives_def
    by (intro conjI exI [of _ ?pay] exI [of _ "replicate 4 0"]) simp_all
qed

lemma arriving_peer_list:
  assumes "stream_arrives conn (peer_list_message ps)"
  shows "sends_peer_list conn (peer_list_header_for ps) ps"
proof -
  have wf: "wf_header (peer_list_header_for ps)" by (simp add: wf_header_def peer_list_header_for_def)
  have "peer_list_message ps = enc_command_header (peer_list_header_for ps) @
      be_bytes (of_nat (length (enc_peers ps)) :: u64) @ enc_peers ps"
    by (simp add: peer_list_message_def peer_list_header_for_def enc_send_data_def)
  with assms wf show ?thesis
    by (simp add: stream_arrives_def sends_peer_list_def length_enc_command_header)
      (simp add: peer_list_header_for_def)
qed

lemma upsert_has: "p \<in> set (upsert p ps)"
proof -
  have "p \<in> set (renew p ps)" if "q \<in> set ps" "same_address p q" for q
    using that by (induction ps) (auto simp: same_address_def)
  then show ?thesis by (auto simp: upsert_def)
qed

lemma server_list_fits:
  assumes "wf_peer p" "\<forall>q \<in> set ps. wf_peer q" "length ps < 2 ^ 56"
  shows "length (enc_peers (peers_after args now p ps)) + 24 < 2 ^ 63"
  using length_enc_peers [OF peers_after_wf [OF assms(1,2)]] peers_after_length [of args now p ps] assms(3)
  by simp

text \<open>
  C10. A node that discovers peers and the bootstrap server agree.  When the bytes of the one
  reach the other, both succeed; the server's list is its former list with the node's address
  renewed or added and the expired entries removed; the node's new list equals the server's; and
  the node itself is on it unless its own registration expired before the answer was sent.
\<close>

theorem discovery_exchange_agrees:
  assumes server: "own_peer_list hs (peer_info_list sargs) Fs ps" "\<forall>q \<in> set ps. wf_peer q" "length ps < 2 ^ 56"
      "heap_ok hs" "\<forall>n. malloc_ok hs n" "quiet sargs" "conn_ok sconn"
    and client: "own_peer_list hc old Fc os" "heap_ok hc" "\<forall>n. malloc_ok hc n" "wf_sockaddr (peer_addr cargs)"
      "client_socket_ok env" "connect_ok env" "conn_ok (client_conn env)" "relock_result env = 0" "reunlock_result env = 0"
    and this_peer: "this_peer = \<lparr>listen_addr = peer_addr cargs, last_connected = conn_time sconn 0\<rparr>"
    and peers: "ps' = filter (live_peer sargs (conn_time sconn 1)) (upsert this_peer ps)"
    and wire: "stream_arrives sconn (registration_message (peer_addr cargs))" "stream_arrives (client_conn env) (peer_list_message ps')"
  shows "\<exists>hs' Fs' new Fc' hc'.
    handle_one_peer_discovery_request es sargs sconn hs = Some (Code SUCCESS, peer_list_message ps', hs') \<and>
    discover_peers_once ec cargs env old hc = Some (SUCCESS, new, registration_message (peer_addr cargs), hc') \<and>
    own_peer_list hs' (peer_info_list sargs) Fs' ps' \<and> own_peer_list hc' new Fc' ps' \<and>
    (live_peer sargs (conn_time sconn 1) this_peer \<longrightarrow> this_peer \<in> set ps')"
proof -
  note ps' = peers [folded peers_after_def]
  have wf: "wf_peer this_peer" using client(4) this_peer by (simp add: wf_peer_def)
  have "registered_peer (registration_of (peer_addr cargs)) (conn_time sconn 0) = this_peer"
    using this_peer by simp
  with registration_ok [OF server(1-4) arriving_registration [OF client(4) wire(1)] server(6,7,5), of es] ps'
  obtain Fs' hs' where
    s: "handle_one_peer_discovery_request es sargs sconn hs = Some (Code SUCCESS, peer_list_message ps', hs')"
    "own_peer_list hs' (peer_info_list sargs) Fs' ps'" by auto
  have "\<forall>q \<in> set ps'. wf_peer q" "length (enc_peers ps') + 24 < 2 ^ 63"
    unfolding ps' by (rule peers_after_wf [OF wf server(2)], rule server_list_fits [OF wf server(2,3)])
  from exchange_ok [OF client(1-4) arriving_peer_list [OF wire(2)] this client(5-9), of ec]
  obtain new Fc' hc' where
    c: "discover_peers_once ec cargs env old hc = Some (SUCCESS, new, registration_message (peer_addr cargs), hc')"
    "own_peer_list hc' new Fc' ps'"
    by (auto simp: registration_message_def registration_of_def Let_def)
  have "this_peer \<in> set ps'" if "live_peer sargs (conn_time sconn 1) this_peer"
    using that upsert_has [of this_peer ps] by (simp add: peers)
  with s c show ?thesis by blast
qed

text \<open>A node on a big-endian host with an empty list registers with a server on a little-endian host.\<close>

definition delivering :: "byte list \<Rightarrow> connection" where
  "delivering bs = example_connection (take 16 bs) (drop 16 bs)"

lemma delivering_arrives:
  assumes "16 < length bs" "length bs < 2 ^ 30"
  shows "stream_arrives (delivering bs) bs"
proof -
  have "arrives (\<lambda>i n. Some (take 16 bs)) (take 16 bs)" "arrives (\<lambda>i n. Some (drop 16 bs)) (drop 16 bs)"
    by (rule example_arrives; use assms in simp)+
  then show ?thesis by (simp add: stream_arrives_def delivering_def example_connection_def)
qed

theorem discovery_exchange_agrees_witness:
  "\<exists>hs' Fs' new Fc' hc'.
    handle_one_peer_discovery_request Little (example_args 1)
      (delivering (registration_message (peer_addr example_discover_args))) example_peer_heap =
      Some (Code SUCCESS, peer_list_message [example_peer 100], hs') \<and>
    discover_peers_once Big example_discover_args (example_discover_env [example_peer 100]) 1 example_peer_heap =
      Some (SUCCESS, new, registration_message (peer_addr example_discover_args), hc') \<and>
    own_peer_list hs' 1 Fs' [example_peer 100] \<and> own_peer_list hc' new Fc' [example_peer 100]"
proof -
  let ?conn = "delivering (registration_message (peer_addr example_discover_args))"
  have m: "\<forall>n. malloc_ok example_peer_heap n" by (simp add: example_peer_heap_owns(4))
  have s: "own_peer_list example_peer_heap (peer_info_list (example_args 1)) {1, 2, 3} [example_peer 5]"
    "length [example_peer 5] < 2 ^ 56" "conn_ok ?conn"
    using example_peer_heap_owns(1) by (simp_all add: example_args_def delivering_def example_conn_ok)
  have t: "example_peer 100 = \<lparr>listen_addr = peer_addr example_discover_args, last_connected = conn_time ?conn 0\<rparr>"
    "[example_peer 100] = filter (live_peer (example_args 1) (conn_time ?conn 1)) (upsert (example_peer 100) [example_peer 5])"
    by (simp_all add: example_discover_args_def delivering_def example_connection_def example_peer_def
        live_peer_def peer_expired_def example_args_def upsert_def same_address_def)
  have w: "stream_arrives ?conn (registration_message (peer_addr example_discover_args))"
    by (rule delivering_arrives) (simp_all add: registration_message_def registration_of_def registration_command_def
        enc_register_peer_def example_discover_args_def example_peer_def length_enc_command_header wf_header_def)
  have "client_conn (example_discover_env [example_peer 100]) = delivering (peer_list_message [example_peer 100])"
    by (simp add: example_discover_env_def delivering_def peer_list_message_def peer_list_header_for_def
        enc_send_data_def length_enc_command_header wf_header_def)
  moreover have "stream_arrives (delivering (peer_list_message [example_peer 100])) (peer_list_message [example_peer 100])"
    by (rule delivering_arrives) (simp_all add: peer_list_message_def enc_send_data_def length_enc_command_header
        wf_header_def example_exchange_env(8))
  ultimately have w': "stream_arrives (client_conn (example_discover_env [example_peer 100])) (peer_list_message [example_peer 100])"
    by simp
  from discovery_exchange_agrees [OF s(1) example_registration_ok(4) s(2) example_peer_heap_owns(3) m
      example_registration_ok(2) s(3) example_peer_heap_owns(1,3) m example_exchange_env(6,1-5) t w w', of Little Big]
  show ?thesis by (simp add: example_args_def)
qed

end
