(* ===== verification/Programs.thy ===== *)
theory Programs imports Mining_Thread Bootstrap_Server Peer_Discovery_Thread Utilities begin

text \<open>
  The \<open>main\<close> functions: the miner (\<^verbatim>\<open>src/miner.c\<close>), the bootstrap server
  (\<^verbatim>\<open>src/peer_discovery_bootstrap_server.c\<close>) and the discovery client
  (\<^verbatim>\<open>src/peer_discovery_client.c\<close>).  Each builds its state, runs one of the threads in the
  foreground and releases the state.  None of them ever sets the flag \<open>should_stop\<close>.
\<close>

section \<open>The keys of the miner\<close>

text \<open>What the calls of \<open>getopt\<close> report, one after the other; strings have no terminator.\<close>

datatype miner_option = PrivateKey "byte list" | PublicKey "byte list" | OtherOption

text \<open>The private and the public key of the command line; \<open>None\<close> for an unknown option.\<close>

fun miner_options ::
  "miner_option list \<Rightarrow> byte list option \<times> byte list option \<Rightarrow> (byte list option \<times> byte list option) option" where
  "miner_options [] keys = Some keys"
| "miner_options (PrivateKey s # opts) keys = miner_options opts (Some s, snd keys)"
| "miner_options (PublicKey s # opts) keys = miner_options opts (fst keys, Some s)"
| "miner_options (OtherOption # opts) keys = None"

definition find_keys ::
  "miner_option list \<Rightarrow> (string \<Rightarrow> byte list option) \<Rightarrow> return_code_t + byte list \<times> byte list" where
  "find_keys opts getenv =
     (case miner_options opts (None, None) of
        None \<Rightarrow> Inl FAILURE_INVALID_COMMAND_LINE_ARGS
      | Some (private_base64, public_base64) \<Rightarrow>
          let private_base64 = (if private_base64 = None then getenv ''LEOCOIN_PRIVATE_KEY'' else private_base64);
              public_base64 = (if public_base64 = None then getenv ''LEOCOIN_PUBLIC_KEY'' else public_base64)
          in case (private_base64, public_base64) of
               (Some private_base64, Some public_base64) \<Rightarrow> Inr (private_base64, public_base64)
             | _ \<Rightarrow> Inl FAILURE_INVALID_COMMAND_LINE_ARGS)"

text \<open>
  A key is decoded into a zeroed array of \<open>MAX_SSH_KEY_LENGTH\<close> bytes, after a check that it fits.
  The product in the check is computed modulo \<open>2^64\<close>.
\<close>

definition decode_key :: "decode_block \<Rightarrow> byte list \<Rightarrow> (return_code_t + ssh_key_t) option" where
  "decode_key evp contents =
     (let len = of_nat (length contents) :: u64;
          decoded_length = len * 3 div 4 + 1
      in if decoded_length > of_nat MAX_SSH_KEY_LENGTH then Some (Inl FAILURE_INVALID_COMMAND_LINE_ARGS)
         else do {
           (return_code, key) \<leftarrow> base64_decode evp (Some contents) len (Some (replicate MAX_SSH_KEY_LENGTH 0));
           if return_code \<noteq> SUCCESS then Some (Inl return_code)
           else do {
             key \<leftarrow> key;
             Some (Inr key)
           }
         })"

text \<open>
  Decoding a key from the command line or the environment never leaves the array, and gives a
  key of the length of the array.
\<close>

lemma decode_key_fits:
  assumes "decode_block_ok evp" "length contents < 2 ^ 62"
  shows "\<exists>r. decode_key evp contents = Some r \<and> (\<forall>key. r = Inr key \<longrightarrow> length key = MAX_SSH_KEY_LENGTH)"
proof -
  let ?len = "of_nat (length contents) :: u64"
  have "unat (?len * 3) = 3 * length contents"
    using assms(2) by (simp add: unat_word_ariths)
  then have size: "unat (?len * 3 div 4) = 3 * length contents div 4" by (simp add: unat_div)
  then have "unat (?len * 3 div 4 + 1) = 3 * length contents div 4 + 1"
    using assms(2) by (simp add: unat_word_ariths)
  then have guard: "(?len * 3 div 4 + 1 > of_nat MAX_SSH_KEY_LENGTH) \<longleftrightarrow> 3 * length contents div 4 + 1 > 4096"
    by (simp add: word_less_nat_alt)
  show ?thesis
  proof (cases "?len * 3 div 4 + 1 > of_nat MAX_SSH_KEY_LENGTH")
    case True
    then show ?thesis by (simp add: decode_key_def Let_def)
  next
    case False
    then have fits: "3 * length contents div 4 < length (replicate 4096 0 :: byte list)" "length contents < 2 ^ 31"
      unfolding guard by simp_all
    obtain ok out where evp: "evp contents = (ok, out)" by (cases "evp contents")
    have "4 * length out \<le> 3 * length contents" using assms(1) evp by (metis decode_block_ok_def snd_conv)
    then have "length out < 4096" using fits(1) by simp
    with False base64_decode_ok [OF assms(1) fits(2,1)] evp show ?thesis
      by (auto simp: decode_key_def Let_def)
  qed
qed

section \<open>The miner\<close>

abbreviation (input) NUM_LEADING_ZERO_BYTES_IN_BLOCK_HASH :: u64 where
  "NUM_LEADING_ZERO_BYTES_IN_BLOCK_HASH \<equiv> 3"

text \<open>
  The chain with the genesis block, and the synchronised blockchain around it: the return code,
  the synchronised blockchain, and the heap.
\<close>

definition start_chain :: "u64 \<Rightarrow> heap \<Rightarrow> (return_code_t \<times> addr \<times> heap) option" where
  "start_chain now h =
     do {
       (return_code, blockchain, h) \<leftarrow> blockchain_create True NUM_LEADING_ZERO_BYTES_IN_BLOCK_HASH h;
       if return_code \<noteq> SUCCESS then Some (return_code, NULL, h)
       else (case block_create_genesis_block True now h of
           (return_code, genesis_block, h) \<Rightarrow>
             if return_code \<noteq> SUCCESS then do {
               (_, h) \<leftarrow> blockchain_destroy (out_ptr blockchain) h;
               Some (return_code, NULL, h)
             }
             else do {
               (return_code, h) \<leftarrow> blockchain_add_block (out_ptr blockchain) (out_ptr genesis_block) h;
               if return_code \<noteq> SUCCESS then do {
                 (_, h) \<leftarrow> block_destroy (out_ptr genesis_block) h;
                 (_, h) \<leftarrow> blockchain_destroy (out_ptr blockchain) h;
                 Some (return_code, NULL, h)
               }
               else do {
                 _ \<leftarrow> blockchain_print (out_ptr blockchain) h;
                 (return_code, sync, h) \<leftarrow> synchronized_blockchain_create True (out_ptr blockchain) h;
                 if return_code \<noteq> SUCCESS then do {
                   (_, h) \<leftarrow> blockchain_destroy (out_ptr blockchain) h;
                   Some (return_code, NULL, h)
                 }
                 else Some (SUCCESS, out_ptr sync, h)
               }
             })
     }"

text \<open>
  What the program gets from outside: its options and environment, the clock, the results of the
  calls that initialise the condition variables and mutexes (0 for success), and of the system
  calls of the mining thread.
\<close>

record miner_program_env =
  getopt_results :: "miner_option list"
  environment :: "string \<Rightarrow> byte list option"
  genesis_time :: u64
  init_results :: "nat list"
  thread_lock_ok :: bool
  thread_unlock_ok :: bool
  round_env :: "nat \<Rightarrow> mining_env"

text \<open>
  Mining in the foreground.  The initialisations are made one after the other until one fails.
  No other thread exists, so every round sees the flag \<open>should_stop\<close> unset and the version
  unchanged.
\<close>

definition miner_run ::
  "endianness \<Rightarrow> openssl \<Rightarrow> miner_program_env \<Rightarrow> ssh_key_t \<Rightarrow> ssh_key_t \<Rightarrow> addr \<Rightarrow> files \<Rightarrow> heap \<Rightarrow>
   (status \<times> files \<times> heap) option" where
  "miner_run e ssl env public_key private_key sync fs h =
     (case filter (\<lambda>r. r \<noteq> 0) (init_results env) of
        r # _ \<Rightarrow> Some (Errno r, fs, h)
      | [] \<Rightarrow> do {
          s \<leftarrow> load_sync sync h;
          (return_code, _, st, h) \<leftarrow> mine_blocks e ssl
            (Some \<lparr>mining_sync = sync, miner_public_key = Some public_key, miner_private_key = Some private_key,
                   mining_progress = True, mining_outfile = Some ''blockchain.bin''\<rparr>)
            (thread_lock_ok env) (thread_unlock_ok env) (\<lambda>_. False)
            (\<lambda>i. (round_env env i)\<lparr>stop_seen := \<lambda>_. False, version_seen := \<lambda>_. version s\<rparr>)
            (version s) fs h;
          (_, h) \<leftarrow> synchronized_blockchain_destroy sync h;
          Some (Code return_code, (case st of None \<Rightarrow> fs | Some st \<Rightarrow> mining_files st), h)
        })"

definition miner_main ::
  "endianness \<Rightarrow> openssl \<Rightarrow> decode_block \<Rightarrow> miner_program_env \<Rightarrow> files \<Rightarrow> heap \<Rightarrow> (status \<times> files \<times> heap) option" where
  "miner_main e ssl evp env fs h =
     (case find_keys (getopt_results env) (environment env) of
        Inl return_code \<Rightarrow> Some (Code return_code, fs, h)
      | Inr (private_base64, public_base64) \<Rightarrow> do {
          public_key \<leftarrow> decode_key evp public_base64;
          case public_key of
            Inl return_code \<Rightarrow> Some (Code return_code, fs, h)
          | Inr public_key \<Rightarrow> do {
              private_key \<leftarrow> decode_key evp private_base64;
              case private_key of
                Inl return_code \<Rightarrow> Some (Code return_code, fs, h)
              | Inr private_key \<Rightarrow> do {
                  (return_code, sync, h) \<leftarrow> start_chain (genesis_time env) h;
                  if return_code \<noteq> SUCCESS then Some (Code return_code, fs, h)
                  else miner_run e ssl env public_key private_key sync fs h
                }
            }
        })"

section \<open>The miner starts and ends\<close>

definition genesis_chain :: "u64 \<Rightarrow> chain_v" where
  "genesis_chain now = \<lparr>cv_blocks = [genesis_v now], cv_zeros = NUM_LEADING_ZERO_BYTES_IN_BLOCK_HASH\<rparr>"

lemma genesis_chain_ok: "chain_ok e ssl (genesis_chain now)" "wf_chain (genesis_chain now)"
  "unat (cv_zeros (genesis_chain now)) \<le> 32"
  by (simp_all add: genesis_chain_def chain_ok_def genesis_ok_def genesis_v_def wf_chain_def wf_genesis_v [unfolded genesis_v_def])

lemma evolves_fresh:
  "heap_ok h \<Longrightarrow> heap_ok h' \<Longrightarrow> same_except K h h' \<Longrightarrow> (\<And>x. x \<in> K \<Longrightarrow> brk h < x) \<Longrightarrow> evolves {} h K h'"
  unfolding evolves_def heap_ok_def by (auto intro: ccontr) (meson leD not_None_eq)

lemma genesis_block_ok:
  assumes "heap_ok h" "malloc_ok h (brk h)" "malloc_ok h (Suc (brk h))"
  obtains h' where "block_create_genesis_block True now h = (SUCCESS, Some (Suc (Suc (brk h))), h')"
    "own_block h' (Suc (Suc (brk h))) {Suc (brk h), Suc (Suc (brk h))} (genesis_v now)"
    "brk h' = Suc (Suc (brk h))" "same_except {Suc (brk h), Suc (Suc (brk h))} h h'" "heap_ok h'"
  using block_create_genesis_block_outcome [OF assms(1), of now] assms(2,3) by auto

lemma first_block_ok:
  assumes "heap_ok h" "malloc_ok h (brk h)" "malloc_ok h (brk h + 1)" "malloc_ok h (brk h + 2)"
    and c: "own_chain h a F \<lparr>cv_blocks = [], cv_zeros = NUM_LEADING_ZERO_BYTES_IN_BLOCK_HASH\<rparr>"
  defines "d \<equiv> Suc (Suc (brk h))" and "K \<equiv> {Suc (brk h), Suc (Suc (brk h)), Suc (Suc (Suc (brk h)))}"
  shows "\<exists>h1 h'. block_create_genesis_block True now h = (SUCCESS, Some d, h1) \<and>
    blockchain_add_block a d h1 = Some (SUCCESS, h') \<and> own_chain h' a (F \<union> K) (genesis_chain now) \<and>
    same_except (F \<union> K) h h' \<and> heap_ok h' \<and> brk h' = brk h + 3"
proof -
  let ?G = "{Suc (brk h), d}"
  have "malloc_ok h (Suc (brk h))" using assms(3) by simp
  then obtain h1 where g: "block_create_genesis_block True now h = (SUCCESS, Some d, h1)" "own_block h1 d ?G (genesis_v now)"
    "brk h1 = d" "same_except ?G h h1" "heap_ok h1"
    unfolding d_def by (rule genesis_block_ok [OF assms(1,2)])
  have "x \<le> brk h" if "x \<in> F" for x
    using own_chain_live [OF c that] assms(1) by (auto simp: heap_ok_def)
  then have apart: "F \<inter> ?G = {}" by (fastforce simp: d_def)
  have c1: "own_chain h1 a F \<lparr>cv_blocks = [], cv_zeros = NUM_LEADING_ZERO_BYTES_IN_BLOCK_HASH\<rparr>"
    using apart by (intro own_chain_frame [OF c] same_except_store [OF g(4)]) blast
  have room: "malloc_ok h1 (brk h1)" using assms(4) g(3,4) by (simp add: same_except_def d_def)
  obtain h' where a: "blockchain_add_block a d h1 = Some (SUCCESS, h')"
    "own_chain h' a (insert (Suc d) (F \<union> ?G)) (genesis_chain now)"
    "same_except (insert (Suc d) F) h1 h'" "heap_ok h'" "brk h' = Suc d"
    by (rule blockchain_add_block_ok [OF c1 g(2) apart g(5) room]) (simp add: g(3) genesis_chain_def)
  have K: "insert (Suc d) (F \<union> ?G) = F \<union> K" by (auto simp: K_def d_def)
  have "same_except (F \<union> K) h h'"
    using same_except_trans [OF g(4) a(3)] K by (simp add: insert_commute Un_commute Un_assoc)
  moreover have "brk h' = brk h + 3" using a(5) by (simp add: d_def)
  ultimately show ?thesis using g(1) a(1,2,4) unfolding K by blast
qed

lemma start_chain_ok:
  assumes "heap_ok h" "\<forall>n < 6. malloc_ok h (brk h + n)"
  shows "\<exists>sync F h'. start_chain now h = Some (SUCCESS, sync, h') \<and> own_sync h' sync F (genesis_chain now) 0 \<and>
    evolves {} h F h'"
proof -
  let ?a = "Suc (brk h)" and ?l = "Suc (Suc (brk h))"
  have m: "malloc_ok h (brk h)" "malloc_ok h (Suc (brk h))"
    using assms(2) [rule_format, of 0] assms(2) [rule_format, of 1] by simp_all
  obtain h1 where c: "blockchain_create True NUM_LEADING_ZERO_BYTES_IN_BLOCK_HASH h = Some (SUCCESS, Some ?a, h1)"
    "own_chain h1 ?a {?a, ?l} \<lparr>cv_blocks = [], cv_zeros = NUM_LEADING_ZERO_BYTES_IN_BLOCK_HASH\<rparr>"
    "same_except {?a, ?l} h h1" "heap_ok h1" "brk h1 = ?l"
    by (rule blockchain_create_ok [OF assms(1) m])
  have room: "malloc_ok h1 (brk h1)" "malloc_ok h1 (brk h1 + 1)" "malloc_ok h1 (brk h1 + 2)"
    using assms(2) [rule_format, of 2] assms(2) [rule_format, of 3] assms(2) [rule_format, of 4] c(3,5)
    by (simp_all add: same_except_def eval_nat_numeral)
  define K where "K = {Suc (brk h1), Suc (Suc (brk h1)), Suc (Suc (Suc (brk h1)))}"
  obtain d h2 h3 where
    b: "block_create_genesis_block True now h1 = (SUCCESS, Some d, h2)" "blockchain_add_block ?a d h2 = Some (SUCCESS, h3)"
    "own_chain h3 ?a ({?a, ?l} \<union> K) (genesis_chain now)" "same_except ({?a, ?l} \<union> K) h1 h3" "heap_ok h3"
    "brk h3 = brk h1 + 3"
    using first_block_ok [OF c(4) room c(2), of now] unfolding K_def by blast
  let ?s = "Suc (brk h3)" and ?F = "{?a, ?l} \<union> K"
  let ?h = "h3\<lparr>brk := ?s, store := (store h3)(?s \<mapsto> DataObj (SyncObj \<lparr>sync_blockchain = ?a, version = 0\<rparr>))\<rparr>"
  have new: "same_except {?s} h3 ?h" by (simp add: same_except_def)
  have "malloc_ok h3 (brk h3)"
    using assms(2) [rule_format, of 5] c(3,5) b(4,6) by (simp add: same_except_def eval_nat_numeral)
  then have "synchronized_blockchain_create True ?a h3 = Some (SUCCESS, Some ?s, ?h)"
    by (simp add: synchronized_blockchain_create_def malloc_eq)
  with c(1) b(1,2) blockchain_print_eq [OF b(3)] have run: "start_chain now h = Some (SUCCESS, ?s, ?h)"
    by (simp add: start_chain_def out_ptr_def)
  have fresh: "?s \<notin> ?F" using own_chain_fresh [OF b(3,5)] .
  then have "own_chain ?h ?a ?F (genesis_chain now)"
    by (intro own_chain_frame [OF b(3)]) auto
  with fresh have own: "own_sync ?h ?s (insert ?s ?F) (genesis_chain now) 0"
    unfolding own_sync_def by (intro exI [of _ ?a] exI [of _ ?F]) simp
  have "same_except (insert ?s ?F) h ?h"
    by (rule same_except_mono [OF same_except_trans [OF same_except_trans [OF c(3) b(4)] new]]) blast
  moreover have "brk h < x" if "x \<in> insert ?s ?F" for x using that b(6) c(5) by (auto simp: K_def)
  ultimately have "evolves {} h (insert ?s ?F) ?h"
    using heap_ok_alloc [OF b(5)] by (intro evolves_fresh [OF assms(1)])
  with run own show ?thesis by blast
qed

lemma synchronized_destroy_eq:
  assumes "own_sync h sync F c v"
  shows "synchronized_blockchain_destroy sync h = Some (SUCCESS, free_all F h)"
  using assms
proof (rule own_syncE)
  fix a G
  assume *: "sync \<noteq> NULL" "sync \<notin> G" "F = insert sync G" "own_chain h a G c"
    "store h sync = Some (DataObj (SyncObj \<lparr>sync_blockchain = a, version = v\<rparr>))"
  have "mem_free sync (free_all G h) = Some (free_all F h)"
    using * by (subst mem_free_eq) simp_all
  with * blockchain_destroy_eq [OF *(4)] load_sync_store [OF *(1,5)] show ?thesis
    by (simp add: synchronized_blockchain_destroy_def)
qed

text \<open>A round that ends the thread ends it with an error.\<close>

lemma mining_verify_ends: "mining_verify e ssl a h = Some (Some rc) \<Longrightarrow> rc \<noteq> SUCCESS"
  by (auto simp: mining_verify_def split: Option.bind_split_asm if_split_asm)

lemma mining_append_ends: "mining_append e args env a d fs h = Some (rc, True, fs', h') \<Longrightarrow> rc \<noteq> SUCCESS"
  by (auto simp: mining_append_def split: Option.bind_split_asm if_split_asm option.split_asm)

lemma mining_give_up_ends: "mining_give_up rc d h = Some (rc', True, h') \<Longrightarrow> rc' = rc"
  by (auto simp: mining_give_up_def split: Option.bind_split_asm if_split_asm)

lemma mining_search_ends: "mining_search e ssl args env st d h = Some (rc, True, fs, h') \<Longrightarrow> rc \<noteq> SUCCESS"
  by (auto simp: mining_search_def dest: mining_append_ends mining_give_up_ends split: Option.bind_split_asm if_split_asm)

lemma mining_round_ends:
  assumes "mining_round e ssl args env st h = Some (rc, True, st', h')"
    and "load_sync (mining_sync args) h = Some \<lparr>sync_blockchain = a, version = mined_version st\<rparr>"
  shows "rc \<noteq> SUCCESS"
  using assms by (auto simp: mining_round_def mining_refresh_def dest: mining_verify_ends mining_search_ends
      split: Option.bind_split_asm option.split_asm if_split_asm)

lemma mining_round_inv_ends:
  "mining_round e ssl args env st h = Some (rc, True, st', h') \<Longrightarrow>
   mining_inv e ssl args pub F0 h0 c v st h \<Longrightarrow> rc \<noteq> SUCCESS"
  by (auto simp: mining_inv_def own_sync_at_def dest: mining_round_ends)

lemma mining_loop_ends:
  assumes "mining_loop e ssl args (\<lambda>_. False) env i rc st h = Some r"
    and "mining_inv e ssl args pub F0 h0 c v st h" "miner_keys ssl args pub" "unat (cv_zeros c) \<le> 32"
  shows "fst r \<noteq> SUCCESS"
proof -
  let ?P = "\<lambda>e ssl args ss env i rc st h r. (\<forall>i :: nat. \<not> ss i) \<longrightarrow> miner_keys ssl args pub \<longrightarrow>
    mining_inv e ssl args pub F0 h0 c v st h \<longrightarrow> fst r \<noteq> SUCCESS"
  have "?P e ssl args (\<lambda>_. False) env i rc st h r"
  proof (rule mining_loop.raw_induct [where P = ?P, OF _ assms(1)], intro impI)
    fix loop :: "endianness \<Rightarrow> openssl \<Rightarrow> mine_blocks_args \<Rightarrow> (nat \<Rightarrow> bool) \<Rightarrow> (nat \<Rightarrow> mining_env) \<Rightarrow> nat \<Rightarrow>
        return_code_t \<Rightarrow> miner_state \<Rightarrow> heap \<Rightarrow> (return_code_t \<times> bool \<times> miner_state \<times> heap) option"
      and e ssl args ss env i rc st h r
    assume IH: "\<And>e ssl args ss env i rc st h r. loop e ssl args ss env i rc st h = Some r \<Longrightarrow> ?P e ssl args ss env i rc st h r"
      and run: "(if ss i then Some (rc, False, st, h)
        else mining_round e ssl args (env i) st h \<bind>
          (\<lambda>(rc, ends, st, h). if ends then Some (rc, True, st, h) else loop e ssl args ss env (Suc i) rc st h)) = Some r"
      and *: "\<forall>i. \<not> ss i" "miner_keys ssl args pub" "mining_inv e ssl args pub F0 h0 c v st h"
    from run *(1) obtain rc1 ends st1 h1 where
      round: "mining_round e ssl args (env i) st h = Some (rc1, ends, st1, h1)"
      "(if ends then Some (rc1, True, st1, h1) else loop e ssl args ss env (Suc i) rc1 st1 h1) = Some r"
      by (auto split: Option.bind_split_asm)
    show "fst r \<noteq> SUCCESS"
    proof (cases ends)
      case True
      with round mining_round_inv_ends [OF _ *(3)] show ?thesis by auto
    next
      case False
      with round IH [of e ssl args ss env "Suc i" rc1 st1 h1 r] mining_round_inv [OF round(1) *(3,2) assms(4)] *(1,2)
      show ?thesis by simp
    qed
  qed
  with assms(2,3) show ?thesis by simp
qed

lemma mining_inv_start:
  assumes "own_sync_at h (mining_sync args) a F c v" "heap_ok h" "wf_chain c"
  shows "mining_inv e ssl args pub F h c v \<lparr>mining_chain = a, mined_version = v, mining_files = fs\<rparr> h"
  using assms evolves_same [OF assms(2) same_except_refl] mined_from_refl
  unfolding mining_inv_def by (intro conjI exI [of _ F] exI [of _ "[]"] exI [of _ c]) simp_all

lemma mine_blocks_ends:
  assumes "mine_blocks e ssl (Some args) lock_ok unlock_ok (\<lambda>_. False) env v fs h = Some (rc, ready, st, h')"
    and "own_sync h (mining_sync args) F c v" "heap_ok h" "wf_chain c" "unat (cv_zeros c) \<le> 32" "miner_keys ssl args pub"
  shows "rc \<noteq> SUCCESS"
proof -
  from assms(2) obtain a where own: "own_sync_at h (mining_sync args) a F c v"
    by (rule own_syncE) (use own_sync_atI in blast)
  then have ld: "load_sync (mining_sync args) h = Some \<lparr>sync_blockchain = a, version = v\<rparr>" by (simp add: own_sync_at_def)
  have "rc = FAILURE_PTHREAD_FUNCTION \<or> (\<exists>left st h1. mining_loop e ssl args (\<lambda>_. False) env 0 SUCCESS
      \<lparr>mining_chain = a, mined_version = v, mining_files = fs\<rparr> h = Some (rc, left, st, h1))"
    using assms(1) ld by (auto simp: mine_blocks_def request_def split: Option.bind_split_asm if_split_asm)
  then show ?thesis
    using mining_loop_ends [OF _ mining_inv_start [OF own assms(3,4)] assms(6,5)] by fastforce
qed


text \<open>A miner whose thread cannot lock the mutex of the chain.\<close>

definition example_miner_env :: miner_program_env where
  "example_miner_env = \<lparr>getopt_results = [PublicKey [65]],
     environment = (\<lambda>name. if name = ''LEOCOIN_PRIVATE_KEY'' then Some [66] else None),
     genesis_time = 4, init_results = [0, 0, 0, 0], thread_lock_ok = False, thread_unlock_ok = True,
     round_env = (\<lambda>_. example_mining_env)\<rparr>"

definition example_decode :: decode_block where
  "example_decode s = (True, [])"


section \<open>The bootstrap server\<close>

abbreviation (input) DEFAULT_PEER_KEEPALIVE_SECONDS :: u64 where
  "DEFAULT_PEER_KEEPALIVE_SECONDS \<equiv> 60"

text \<open>The results of the initialisations (0 for success), of name lookups, and of the server's system calls.\<close>

record bootstrap_program_env =
  list_mutex_init :: nat
  exit_cond_init :: nat
  exit_mutex_init :: nat
  name_lookup_ok :: "sockaddr_in6 \<Rightarrow> bool"
  address_print_ok :: "sockaddr_in6 \<Rightarrow> bool"
  server_calls :: server_env

definition run_peer_discovery_bootstrap_server ::
  "endianness \<Rightarrow> bootstrap_program_env \<Rightarrow> heap \<Rightarrow> (status \<times> heap) option" where
  "run_peer_discovery_bootstrap_server e env h =
     (case linked_list_create True (Some FREE) (Some COMPARE_PEER_INFO) h of
        (return_code, list, h) \<Rightarrow>
          if return_code \<noteq> SUCCESS then Some (Code return_code, h)
          else if list_mutex_init env \<noteq> 0 then do {
            (_, h) \<leftarrow> linked_list_destroy app_free (out_ptr list) h;
            Some (Code FAILURE_PTHREAD_FUNCTION, h)
          }
          else if exit_cond_init env \<noteq> 0 then Some (Code FAILURE_PTHREAD_FUNCTION, h)
          else if exit_mutex_init env \<noteq> 0 then Some (Code FAILURE_PTHREAD_FUNCTION, h)
          else do {
            (return_code, _, h) \<leftarrow> handle_peer_discovery_requests e
              \<lparr>peer_keepalive_microseconds = DEFAULT_PEER_KEEPALIVE_SECONDS * 1000000, peer_info_list = out_ptr list,
               print_progress = True, getnameinfo_ok = name_lookup_ok env, inet_ntop_ok = address_print_ok env\<rparr>
              ((server_calls env)\<lparr>stop_requested := \<lambda>_. False\<rparr>) h;
            (_, h) \<leftarrow> linked_list_destroy app_free (out_ptr list) h;
            Some (return_code, h)
          })"

definition bootstrap_main :: "endianness \<Rightarrow> nat \<Rightarrow> bootstrap_program_env \<Rightarrow> heap \<Rightarrow> (status \<times> heap) option" where
  "bootstrap_main e argc env h =
     (if argc \<noteq> 2 then Some (Code FAILURE_INVALID_COMMAND_LINE_ARGS, h)
      else run_peer_discovery_bootstrap_server e env h)"

lemma server_loop_ends:
  assumes "server_loop handle pp env i rc h = Some r" "\<forall>i. \<not> stop_requested env i"
  shows "fst r \<in> {Code FAILURE_NETWORK_FUNCTION, Code FAILURE_BUFFER_TOO_SMALL}"
proof -
  let ?P = "\<lambda>handle pp env i rc h r. (\<forall>i. \<not> stop_requested env i) \<longrightarrow>
    fst r \<in> {Code FAILURE_NETWORK_FUNCTION, Code FAILURE_BUFFER_TOO_SMALL}"
  have "?P handle pp env i rc h r"
    by (rule server_loop.raw_induct [where P = ?P, OF _ assms(1)])
      (auto split: if_split_asm Option.bind_split_asm, blast+)
  with assms(2) show ?thesis by simp
qed

lemma run_server_ends:
  assumes "run_server handle pp (env\<lparr>stop_requested := \<lambda>_. False\<rparr>) h = Some (st, ready, h')"
  shows "st \<in> {Code FAILURE_NETWORK_FUNCTION, Code FAILURE_BUFFER_TOO_SMALL}"
  using assms by (auto simp: run_server_def request_def split: Option.bind_split_asm if_split_asm dest: server_loop_ends)


text \<open>A server that answers one registration; then waiting for the next connection fails.\<close>

definition example_bootstrap_env :: bootstrap_program_env where
  "example_bootstrap_env = \<lparr>list_mutex_init = 0, exit_cond_init = 0, exit_mutex_init = 0,
     name_lookup_ok = (\<lambda>_. True), address_print_ok = (\<lambda>_. True),
     server_calls = (example_server (registration_connection example_registration))
       \<lparr>poll_result := \<lambda>i. if i = 0 then 1 else - 1\<rparr>\<rparr>"

definition example_bootstrap_args :: discovery_args where
  "example_bootstrap_args = \<lparr>peer_keepalive_microseconds = 60000000, peer_info_list = 1, print_progress = True,
    getnameinfo_ok = (\<lambda>_. True), inet_ntop_ok = (\<lambda>_. True)\<rparr>"

lemma example_bootstrap_request:
  obtains h1 F sent h2 ps where
    "linked_list_create True (Some FREE) (Some COMPARE_PEER_INFO) empty_heap = (SUCCESS, Some 1, h1)"
    "handle_one_peer_discovery_request Little example_bootstrap_args (registration_connection example_registration) h1 =
      Some (Code SUCCESS, sent, h2)"
    "own_peer_list h2 1 F ps" "\<forall>n. malloc_ok h2 n"
proof -
  have one: "Suc (brk empty_heap) = 1" "peer_info_list example_bootstrap_args = 1" "malloc_ok empty_heap (brk empty_heap)"
    by (simp_all add: empty_heap_def example_bootstrap_args_def)
  from create_eq [OF empty_heap_simps(1) one(3), of FREE "Some COMPARE_PEER_INFO" own_peer, unfolded one(1)] obtain h1 where
    c: "linked_list_create True (Some FREE) (Some COMPARE_PEER_INFO) empty_heap = (SUCCESS, Some 1, h1)"
    "own_peer_list h1 1 {1} []" "same_except {1} empty_heap h1" "heap_ok h1" by blast
  have m: "\<forall>n. malloc_ok h1 n" using c(3) by (simp add: same_except_def empty_heap_def)
  have "quiet example_bootstrap_args" by (simp add: quiet_def progress_fails_def example_bootstrap_args_def)
  moreover have "\<forall>q \<in> set []. wf_peer q" "length ([] :: peer_info_t list) < 2 ^ 56" by simp_all
  moreover have "own_peer_list h1 (peer_info_list example_bootstrap_args) {1} []" using c(2) one(2) by simp
  ultimately obtain F sent h2 ps where
    r: "handle_one_peer_discovery_request Little example_bootstrap_args (registration_connection example_registration) h1 =
      Some (Code SUCCESS, sent, h2)" "own_peer_list h2 1 F ps" "evolves {1} h1 F h2"
    using registration_ok [where h = h1 and args = example_bootstrap_args and e = Little and F = "{1}" and ps = "[]",
        OF _ _ _ c(4) example_registration_ok(1) _ example_registration_ok(3) m]
    unfolding one(2) by blast
  moreover have "\<forall>n. malloc_ok h2 n" using r(3) m by (simp add: evolves_def same_except_def)
  ultimately show ?thesis using that c(1) by blast
qed


section \<open>The discovery client\<close>

text \<open>
  What the client gets from outside: the number of its arguments, the options after them
  (\<open>True\<close> for \<open>-i\<close>, whose value only sets the pause between two exchanges), the results of
  parsing the two addresses and the port, and of the initialisations.
\<close>

record client_program_env =
  client_argc :: nat
  client_options :: "bool list"
  server_address_ok :: bool
  peer_address :: "byte list option"
  peer_port :: u16
  address_family :: u16
  peers_mutex_init :: nat
  client_cond_init :: nat
  client_mutex_init :: nat
  exchange_env :: "nat \<Rightarrow> discover_env"

definition client_main :: "endianness \<Rightarrow> client_program_env \<Rightarrow> heap \<Rightarrow> (status \<times> heap) option" where
  "client_main e env h =
     (if client_argc env < 5 \<or> False \<in> set (client_options env) \<or> \<not> server_address_ok env
      then Some (Code FAILURE_INVALID_COMMAND_LINE_ARGS, h)
      else case peer_address env of
        None \<Rightarrow> Some (Code FAILURE_INVALID_COMMAND_LINE_ARGS, h)
      | Some address \<Rightarrow> (case linked_list_create True (Some FREE) (Some COMPARE_PEER_INFO) h of
          (return_code, list, h) \<Rightarrow>
            if return_code \<noteq> SUCCESS then Some (Code return_code, h)
            else if peers_mutex_init env \<noteq> 0 then do {
              (_, h) \<leftarrow> linked_list_destroy app_free (out_ptr list) h;
              Some (Code FAILURE_PTHREAD_FUNCTION, h)
            }
            else if client_cond_init env \<noteq> 0 then Some (Code FAILURE_PTHREAD_FUNCTION, h)
            else if client_mutex_init env \<noteq> 0 then Some (Code FAILURE_PTHREAD_FUNCTION, h)
            else do {
              (return_code, _, list, h) \<leftarrow> discover_peers e
                \<lparr>peer_addr = \<lparr>sin6_family = address_family env, sin6_port = hton e (peer_port env),
                   sin6_flowinfo = 0, sin6_addr = address, sin6_scope_id = 0\<rparr>, show_progress = True\<rparr>
                (\<lambda>_. False) (exchange_env env) (out_ptr list) h;
              (_, h) \<leftarrow> linked_list_destroy app_free list h;
              Some (Code return_code, h)
            }))"

text \<open>The client's thread never returns, so a run of the program that ends has not started it.\<close>

lemma discover_peers_loop_never_returns:
  assumes "\<forall>i. \<not> should_stop i"
  shows "discover_peers_loop e args should_stop env i rc l h = None"
proof (rule ccontr)
  let ?P = "\<lambda>e args should_stop env i rc l h r. \<exists>i :: nat. should_stop i"
  assume "discover_peers_loop e args should_stop env i rc l h \<noteq> None"
  then obtain r where "discover_peers_loop e args should_stop env i rc l h = Some r" by auto
  then have "?P e args should_stop env i rc l h r"
    by (rule discover_peers_loop.raw_induct [where P = ?P, rotated])
      (auto split: if_split_asm Option.bind_split_asm)
  with assms show False by simp
qed

lemma client_main_result:
  assumes "client_main e env h = Some (st, h')" "heap_ok h" "client_cond_init env = 0" "client_mutex_init env = 0"
  shows "st \<in> {Code FAILURE_INVALID_COMMAND_LINE_ARGS, Code FAILURE_COULD_NOT_MALLOC, Code FAILURE_PTHREAD_FUNCTION} \<and>
    same_except {} h h'"
proof (cases "malloc_ok h (brk h)")
  case False
  then show ?thesis
    using assms(1) create_fail [of h] by (auto simp: client_main_def same_except_def split: if_split_asm option.split_asm)
next
  case True
  let ?l = "Suc (brk h)"
  from create_eq [OF assms(2) True, of FREE "Some COMPARE_PEER_INFO" own_peer] obtain h1 where
    c: "linked_list_create True (Some FREE) (Some COMPARE_PEER_INFO) h = (SUCCESS, Some ?l, h1)"
    "own_peer_list h1 ?l {?l} []" "same_except {?l} h h1" "heap_ok h1" by blast
  have "evolves {} h {?l} h1" by (rule evolves_fresh [OF assms(2) c(4,3)]) simp
  then have "same_except {} h (free_all {?l} h1)"
    using evolves_free [of h "{}" "{}" "{?l}" h1] assms(2) by (simp add: evolves_def)
  then show ?thesis
    using assms(1,3,4) c(1) peer_app.destroy_eq [OF c(2)]
    by (auto simp: client_main_def out_ptr_def discover_peers_def discover_peers_loop_never_returns
        split: if_split_asm option.split_asm)
qed

end
