(* ===== verification/Mining_Output.thy ===== *)
theory Mining_Output imports Blockchain begin

text \<open>
  The progress output of the two mining loops of \<^verbatim>\<open>src/blockchain.c\<close>.

  \<open>mine_loop_printing\<close> is the loop of theory \<open>Blockchain\<close> together with
  \<open>print_progress\<close>, the number \<open>best_leading_zeroes\<close> it keeps and the text it
  writes.  The theory shows that the output leaves mining as it is and stays inside the digest,
  and what the lines show of the hashes that were tried.
\<close>

section \<open>The output\<close>

abbreviation (input) carriage_return :: char where
  "carriage_return \<equiv> char_of (13 :: nat)"

definition ANSI_COLOR_GREEN :: string where
  "ANSI_COLOR_GREEN = char_of (27 :: nat) # ''[32m''"

definition ANSI_COLOR_LIGHT_BLUE :: string where
  "ANSI_COLOR_LIGHT_BLUE = char_of (27 :: nat) # ''[94m''"

definition ANSI_COLOR_RESET :: string where
  "ANSI_COLOR_RESET = char_of (27 :: nat) # ''[0m''"

definition mining_prefix :: string where
  "mining_prefix = carriage_return # ''Mining LeoCoin block: ''"

text \<open>
  The loop that counts the zero nybbles at the start of a hash; an index outside the array is
  undefined.
\<close>

function num_zeroes_loop :: "nat \<Rightarrow> nat \<Rightarrow> sha_256_t \<Rightarrow> nat option" where
  "num_zeroes_loop idx num_zeroes digest =
     (if idx < SHA256_DIGEST_LENGTH then
        (if idx < length digest then
           (if drop_bit 4 (digest ! idx) \<noteq> 0 then Some num_zeroes
            else if digest ! idx \<noteq> 0 then Some (num_zeroes + 1)
            else num_zeroes_loop (idx + 1) (num_zeroes + 2) digest)
         else None)
      else Some num_zeroes)"
  by pat_completeness auto
termination
  by (relation "measure (\<lambda>(idx, n, digest). SHA256_DIGEST_LENGTH - idx)") auto

declare num_zeroes_loop.simps [simp del]

text \<open>
  The nybble printed at a position: that of the hash, but not a zero right after the best number
  of zeros.
\<close>

definition progress_nybble :: "nat \<Rightarrow> sha_256_t \<Rightarrow> nat \<Rightarrow> byte option" where
  "progress_nybble best_leading_zeroes digest idx =
     (let hash_idx = idx div 2
      in if hash_idx < length digest then
           (let nybble = (if idx mod 2 = 0 then drop_bit 4 (digest ! hash_idx)
                          else digest ! hash_idx AND 0x0f)
            in Some (if idx = best_leading_zeroes \<and> nybble = 0 then nybble + 1 else nybble))
         else None)"

function progress_loop :: "nat \<Rightarrow> nat \<Rightarrow> sha_256_t \<Rightarrow> string option" where
  "progress_loop best_leading_zeroes idx digest =
     (if idx < 2 * SHA256_DIGEST_LENGTH then do {
        nybble \<leftarrow> progress_nybble best_leading_zeroes digest idx;
        printed \<leftarrow> progress_loop best_leading_zeroes (idx + 1) digest;
        Some (hex_digit (unat nybble) # printed)
      }
      else Some [])"
  by pat_completeness auto
termination
  by (relation "measure (\<lambda>(best, idx, digest). 2 * SHA256_DIGEST_LENGTH - idx)") auto

declare progress_loop.simps [simp del]

text \<open>One line: the best number of zeros, then the rest of the current hash.\<close>

definition progress_line :: "nat \<Rightarrow> sha_256_t \<Rightarrow> string option" where
  "progress_line best_leading_zeroes digest =
     do {
       printed \<leftarrow> progress_loop best_leading_zeroes best_leading_zeroes digest;
       Some (mining_prefix @ replicate best_leading_zeroes (CHR ''0'') @ printed)
     }"

text \<open>
  The part of an iteration that is under \<open>if (print_progress)\<close>: the new best number of
  zeros and what is printed.
\<close>

definition print_iteration :: "bool \<Rightarrow> u64 \<Rightarrow> sha_256_t \<Rightarrow> nat \<Rightarrow> (nat \<times> string) option" where
  "print_iteration print_progress new_proof digest best_leading_zeroes =
     (if \<not> print_progress then Some (best_leading_zeroes, [])
      else do {
        num_zeroes \<leftarrow> num_zeroes_loop 0 0 digest;
        let print_this_iteration = (new_proof mod 20000 = 0);
            better = (num_zeroes > best_leading_zeroes);
            best_leading_zeroes = (if better then num_zeroes else best_leading_zeroes);
            print_this_iteration = (better \<or> print_this_iteration)
        in if print_this_iteration then do {
             printed \<leftarrow> progress_line best_leading_zeroes digest;
             Some (best_leading_zeroes, printed)
           }
           else Some (best_leading_zeroes, [])
      })"

text \<open>The line that ends the progress output: the whole hash in a colour.\<close>

definition result_line :: "bool \<Rightarrow> string \<Rightarrow> sha_256_t \<Rightarrow> string" where
  "result_line print_progress color digest =
     (if print_progress
      then mining_prefix @ color @ concat (map hex_byte digest) @ ANSI_COLOR_RESET @ newline
      else [])"

section \<open>The loops\<close>

text \<open>
  \<open>hash\<close> is the hash of the iteration before, zero at first.  Only the synchronised loop is
  left because of a longer chain, and prints that hash when it is.
\<close>

partial_function (option) mine_loop_printing ::
  "endianness \<Rightarrow> openssl \<Rightarrow> addr \<Rightarrow> addr \<Rightarrow> bool \<Rightarrow> (nat \<Rightarrow> return_code_t option) \<Rightarrow> nat \<Rightarrow> sha_256_t \<Rightarrow>
   u64 \<Rightarrow> heap \<Rightarrow> (return_code_t \<times> string \<times> heap) option" where
  "mine_loop_printing e ssl blockchain block print_progress interrupt best_leading_zeroes hash new_proof h =
     (if new_proof < 0xFFFFFFFFFFFFFFFF then
        (case interrupt (unat new_proof) of
            Some return_code \<Rightarrow>
              Some (return_code,
                if return_code = FAILURE_LONGER_BLOCKCHAIN_DETECTED
                then result_line print_progress ANSI_COLOR_LIGHT_BLUE hash else [], h)
          | None \<Rightarrow> do {
              b \<leftarrow> load_block block h;
              h \<leftarrow> store_obj block (DataObj (BlockObj (b\<lparr>proof_of_work := new_proof\<rparr>))) h;
              (return_code, hash) \<leftarrow> block_hash e ssl block True h;
              if return_code \<noteq> SUCCESS then Some (return_code, [], h)
              else do {
                hash \<leftarrow> hash;
                (best_leading_zeroes, line) \<leftarrow>
                  print_iteration print_progress new_proof hash best_leading_zeroes;
                (return_code, is_valid) \<leftarrow> blockchain_is_valid_block_hash blockchain hash True h;
                if return_code \<noteq> SUCCESS then Some (return_code, line, h)
                else if is_valid = Some True
                then Some (SUCCESS, line @ result_line print_progress ANSI_COLOR_GREEN hash, h)
                else do {
                  (return_code, printed, h) \<leftarrow> mine_loop_printing e ssl blockchain block print_progress
                    interrupt best_leading_zeroes hash (new_proof + 1) h;
                  Some (return_code, line @ printed, h)
                }
              }
            })
      else Some (FAILURE_COULD_NOT_FIND_VALID_PROOF_OF_WORK, [], h))"

definition blockchain_mine_block_printing ::
  "endianness \<Rightarrow> openssl \<Rightarrow> addr \<Rightarrow> addr \<Rightarrow> bool \<Rightarrow> (nat \<Rightarrow> bool) option \<Rightarrow> heap \<Rightarrow>
   (return_code_t \<times> string \<times> heap) option" where
  "blockchain_mine_block_printing e ssl blockchain block print_progress should_stop h =
     (case should_stop of
        None \<Rightarrow> Some (FAILURE_INVALID_INPUT, [], h)
      | Some stop \<Rightarrow>
          if blockchain = NULL \<or> block = NULL then Some (FAILURE_INVALID_INPUT, [], h)
          else mine_loop_printing e ssl blockchain block print_progress
                 (\<lambda>i. if stop i then Some FAILURE_STOPPED_EARLY else None) 0
                 (replicate SHA256_DIGEST_LENGTH 0) 0 h)"

definition synchronized_blockchain_mine_block_printing ::
  "endianness \<Rightarrow> openssl \<Rightarrow> bool \<Rightarrow> bool \<Rightarrow> addr \<Rightarrow> addr \<Rightarrow> bool \<Rightarrow> (nat \<Rightarrow> bool) option \<Rightarrow>
   (nat \<Rightarrow> u64) option \<Rightarrow> (nat \<Rightarrow> u64) \<Rightarrow> heap \<Rightarrow> (return_code_t \<times> string \<times> heap) option" where
  "synchronized_blockchain_mine_block_printing e ssl lock_ok unlock_ok sync block print_progress
     should_stop mined current h =
     (case (should_stop, mined) of
        (Some stop, Some mined) \<Rightarrow>
          if sync = NULL \<or> block = NULL then Some (FAILURE_INVALID_INPUT, [], h)
          else if \<not> lock_ok then Some (FAILURE_PTHREAD_FUNCTION, [], h)
          else do {
            s \<leftarrow> load_sync sync h;
            if \<not> unlock_ok then Some (FAILURE_PTHREAD_FUNCTION, [], h)
            else mine_loop_printing e ssl (sync_blockchain s) block print_progress
                   (\<lambda>i. if stop i then Some FAILURE_STOPPED_EARLY
                        else if mined i \<noteq> current i then Some FAILURE_LONGER_BLOCKCHAIN_DETECTED
                        else None) 0 (replicate SHA256_DIGEST_LENGTH 0) 0 h
          }
      | _ \<Rightarrow> Some (FAILURE_INVALID_INPUT, [], h))"

section \<open>Nybbles\<close>

definition nybbles :: "sha_256_t \<Rightarrow> byte list" where
  "nybbles digest = concat (map (\<lambda>b. [drop_bit 4 b, b AND 0x0f]) digest)"

lemma nybbles_simps [simp]:
  "nybbles [] = []" "nybbles (b # d) = drop_bit 4 b # (b AND 0x0f) # nybbles d"
  by (simp_all add: nybbles_def)

lemma length_nybbles [simp]: "length (nybbles d) = 2 * length d"
  by (induction d) simp_all

lemma unat_upper_nybble: "unat (drop_bit 4 b) = unat b div 16" for b :: byte
  by (simp add: drop_bit_eq_div unat_div)

lemma unat_lower_nybble: "unat (b AND 0x0f) = unat b mod 16" for b :: byte
proof -
  have "b AND 0x0f = take_bit 4 b" by (simp add: take_bit_eq_mask mask_eq_exp_minus_1)
  then show ?thesis by (simp add: take_bit_eq_mod unat_mod)
qed

lemma nybbles_zero_iff: "drop_bit 4 b = 0 \<and> b AND 0x0f = 0 \<longleftrightarrow> b = 0" for b :: byte
proof -
  have "drop_bit 4 b = 0 \<and> b AND 0x0f = 0 \<longleftrightarrow> unat b div 16 = 0 \<and> unat b mod 16 = 0"
    by (metis unat_0_iff unat_lower_nybble unat_upper_nybble)
  also have "\<dots> \<longleftrightarrow> unat b = 0" by auto
  finally show ?thesis by (simp add: unat_eq_0)
qed

lemma nybbles_nth:
  "idx div 2 < length d \<Longrightarrow>
   nybbles d ! idx = (if idx mod 2 = 0 then drop_bit 4 (d ! (idx div 2)) else d ! (idx div 2) AND 0x0f)"
proof (induction d arbitrary: idx)
  case (Cons b d)
  consider "idx = 0" | "idx = 1" | i where "idx = i + 2" by (metis One_nat_def Suc_1 add_2_eq_Suc' not0_implies_Suc)
  then show ?case
  proof cases
    case (3 i)
    with Cons.prems have "i div 2 < length d" by simp
    from Cons.IH [OF this] 3 show ?thesis by (simp add: nth_Cons')
  qed simp_all
qed simp

text \<open>The digits of a printed hash are its nybbles.\<close>

lemma hex_bytes_nybbles: "concat (map hex_byte d) = map (hex_digit \<circ> unat) (nybbles d)"
  by (induction d) (simp_all add: hex_byte_def unat_upper_nybble unat_lower_nybble)

section \<open>What the lines show\<close>

text \<open>The number of zeros a hash starts with, as it is printed.\<close>

definition zero_digits :: "sha_256_t \<Rightarrow> nat" where
  "zero_digits d = length (takeWhile (\<lambda>c. c = CHR ''0'') (concat (map hex_byte d)))"

lemma hex_digit_zero_iff: "n < 16 \<Longrightarrow> hex_digit n = CHR ''0'' \<longleftrightarrow> n = 0"
proof -
  have "hex_digit 0 = CHR ''0''" by code_simp
  then show "n < 16 \<Longrightarrow> hex_digit n = CHR ''0'' \<longleftrightarrow> n = 0" using hex_digit_inj [of n 0] by auto
qed

lemma nybble_less: "x \<in> set (nybbles d) \<Longrightarrow> unat x < 16"
  by (induction d) (auto simp: unat_upper_nybble unat_lower_nybble div_less_iff_less_mult
      intro: less_le_trans [OF unat_less_256])

lemma zero_digits_nybbles: "zero_digits d = length (takeWhile (\<lambda>x. x = 0) (nybbles d))"
proof -
  have "takeWhile (\<lambda>c. c = CHR ''0'') (map (hex_digit \<circ> unat) (nybbles d)) =
      map (hex_digit \<circ> unat) (takeWhile (\<lambda>x. x = 0) (nybbles d))"
    unfolding takeWhile_map
    by (intro arg_cong2 [where f = map] takeWhile_cong)
      (auto simp: hex_digit_zero_iff nybble_less unat_eq_0)
  then show ?thesis by (simp add: zero_digits_def hex_bytes_nybbles)
qed

lemma zero_digits_le: "length d = SHA256_DIGEST_LENGTH \<Longrightarrow> zero_digits d \<le> 64"
  using length_takeWhile_le [of "\<lambda>x. x = 0" "nybbles d"] by (simp add: zero_digits_nybbles)

lemma num_zeroes_loop_eq:
  "length d = SHA256_DIGEST_LENGTH \<Longrightarrow> idx \<le> SHA256_DIGEST_LENGTH \<Longrightarrow>
   num_zeroes_loop idx n d = Some (n + length (takeWhile (\<lambda>x. x = 0) (nybbles (drop idx d))))"
proof (induction idx n d rule: num_zeroes_loop.induct)
  case (1 idx n d)
  show ?case
  proof (cases "idx < SHA256_DIGEST_LENGTH")
    case True
    then have "drop idx d = d ! idx # drop (Suc idx) d" using "1.prems" by (simp add: Cons_nth_drop_Suc)
    with True 1 nybbles_zero_iff [of "d ! idx"] show ?thesis
      by (subst num_zeroes_loop.simps) auto
  next
    case False
    with "1.prems" show ?thesis by (subst num_zeroes_loop.simps) simp
  qed
qed

text \<open>What is printed at a position.\<close>

definition progress_digit :: "nat \<Rightarrow> sha_256_t \<Rightarrow> nat \<Rightarrow> char" where
  "progress_digit best d i =
     (let x = nybbles d ! i in hex_digit (if i = best \<and> x = 0 then 1 else unat x))"

lemma progress_loop_eq:
  "length d = SHA256_DIGEST_LENGTH \<Longrightarrow> progress_loop best idx d = Some (map (progress_digit best d) [idx..<64])"
proof (induction best idx d rule: progress_loop.induct)
  case (1 best idx d)
  show ?case
  proof (cases "idx < 2 * SHA256_DIGEST_LENGTH")
    case True
    then have "idx div 2 < length d" using "1.prems" by simp
    then have "progress_nybble best d idx =
        Some (if idx = best \<and> nybbles d ! idx = 0 then 1 else nybbles d ! idx)"
      by (cases "idx mod 2 = 0") (auto simp: progress_nybble_def nybbles_nth Let_def)
    with True 1 show ?thesis
      by (subst progress_loop.simps) (auto simp: upt_conv_Cons progress_digit_def Let_def)
  next
    case False
    then show ?thesis by (subst progress_loop.simps) simp
  qed
qed

lemma progress_line_eq:
  "length d = SHA256_DIGEST_LENGTH \<Longrightarrow>
   progress_line best d = Some (mining_prefix @ replicate best (CHR ''0'') @ map (progress_digit best d) [best..<64])"
  by (simp add: progress_line_def progress_loop_eq)

text \<open>
  A line always shows 64 digits after the prefix.  A line for a hash that starts with exactly the
  best number of zeros shows that hash.
\<close>

lemma progress_line_length:
  assumes "length d = SHA256_DIGEST_LENGTH" "best \<le> 64"
  shows "\<exists>digits. progress_line best d = Some (mining_prefix @ digits) \<and> length digits = 64"
  using assms by (simp add: progress_line_eq)

lemma progress_line_best:
  assumes "length d = SHA256_DIGEST_LENGTH"
  shows "progress_line (zero_digits d) d = Some (mining_prefix @ concat (map hex_byte d))"
proof -
  let ?n = "zero_digits d" and ?hex = "concat (map hex_byte d)"
  have len: "length ?hex = 64" using assms by (simp add: hex_bytes_nybbles)
  have le: "?n \<le> 64" using assms by (rule zero_digits_le)
  have "takeWhile (\<lambda>c. c = CHR ''0'') ?hex = replicate ?n (CHR ''0'')"
    unfolding zero_digits_def by (intro replicate_eqI) (auto dest: set_takeWhileD)
  then have front: "take ?n ?hex = replicate ?n (CHR ''0'')"
    by (metis takeWhile_eq_take zero_digits_def)
  have "nybbles d ! ?n \<noteq> 0" if "?n < 64"
    using that assms nth_length_takeWhile [of "\<lambda>x. x = 0" "nybbles d"] by (simp add: zero_digits_nybbles)
  then have rest: "map (progress_digit ?n d) [?n..<64] = drop ?n ?hex"
    using le len assms
    by (intro nth_equalityI) (auto simp: progress_digit_def Let_def hex_bytes_nybbles)
  have "replicate ?n (CHR ''0'') @ map (progress_digit ?n d) [?n..<64] = ?hex"
    unfolding rest front [symmetric] by (rule append_take_drop_id)
  then show ?thesis using progress_line_eq [OF assms, of ?n] by simp
qed

text \<open>
  An iteration keeps the best number of zeros seen.  It prints the hash when it is a new best,
  and a line of the same form every 20000 iterations.
\<close>

lemma print_iteration_eq:
  assumes "length d = SHA256_DIGEST_LENGTH"
  shows "print_iteration True p d best =
    (if zero_digits d > best then Some (zero_digits d, mining_prefix @ concat (map hex_byte d))
     else if p mod 20000 = 0
     then Some (best, mining_prefix @ replicate best (CHR ''0'') @ map (progress_digit best d) [best..<64])
     else Some (best, []))"
  using num_zeroes_loop_eq [OF assms, of 0 0]
  by (simp add: print_iteration_def zero_digits_nybbles [symmetric] progress_line_best [OF assms] Let_def
      progress_line_eq [OF assms, of best])

lemma print_iteration_defined:
  assumes "length d = SHA256_DIGEST_LENGTH"
  obtains best' line where "print_iteration pr p d best = Some (best', line)"
  using print_iteration_eq [OF assms, of p best] that
  by (cases pr) (auto simp: print_iteration_def split: if_splits)

section \<open>Printing leaves mining as it is\<close>

definition without_output :: "return_code_t \<times> string \<times> heap \<Rightarrow> return_code_t \<times> heap" where
  "without_output = (\<lambda>(return_code, _, h). (return_code, h))"

lemma without_output_simps [simp]: "without_output (rc, out, h) = (rc, h)"
  by (simp add: without_output_def)

lemma block_hash_length:
  "block_hash e ssl block out h = Some (rc, Some d) \<Longrightarrow> digest_ok ssl \<Longrightarrow> length d = SHA256_DIGEST_LENGTH"
  by (auto simp: block_hash_def digest_ok_def split: if_split_asm Option.bind_split_asm)

lemma mine_loop_printing_transparent:
  assumes "digest_ok ssl"
  shows "k + n = UINT64_MAX \<Longrightarrow>
    map_option without_output (mine_loop_printing e ssl x a pr interrupt best d (of_nat k) h) =
    mine_loop e ssl x a interrupt (of_nat k) h"
proof (induction n arbitrary: k best d h)
  case 0
  then show ?case by (simp add: mine_loop.simps mine_loop_printing.simps)
next
  case (Suc n)
  let ?p = "of_nat k :: u64"
  have step: "map_option without_output (mine_loop_printing e ssl x a pr interrupt best d (?p + 1) h) =
      mine_loop e ssl x a interrupt (?p + 1) h" for best d h
    using Suc.IH [of "Suc k" best d h] Suc.prems by (simp add: add.commute)
  have tail: "map_option without_output
      (do {
         (best', line) \<leftarrow> print_iteration pr ?p d' best;
         (return_code, is_valid) \<leftarrow> blockchain_is_valid_block_hash x d' True h;
         if return_code \<noteq> SUCCESS then Some (return_code, line, h)
         else if is_valid = Some True
         then Some (SUCCESS, line @ result_line pr ANSI_COLOR_GREEN d', h)
         else do {
           (return_code, printed, h) \<leftarrow> mine_loop_printing e ssl x a pr interrupt best' d' (?p + 1) h;
           Some (return_code, line @ printed, h)
         }
       }) =
      do {
        (return_code, is_valid) \<leftarrow> blockchain_is_valid_block_hash x d' True h;
        if return_code \<noteq> SUCCESS then Some (return_code, h)
        else if is_valid = Some True then Some (SUCCESS, h)
        else mine_loop e ssl x a interrupt (?p + 1) h
      }"
    if d': "length d' = SHA256_DIGEST_LENGTH" for d' h
  proof -
    obtain best' line where "print_iteration pr ?p d' best = Some (best', line)"
      by (rule print_iteration_defined [OF d'])
    then show ?thesis
      by (auto simp: step [of best' d', symmetric] map_option_bind option.map_comp comp_def without_output_def
          split: Option.bind_split intro!: Option.bind_option_cong)
  qed
  show ?case
    by (subst mine_loop.simps, subst mine_loop_printing.simps,
        auto simp: map_option_bind comp_def split: option.split intro!: Option.bind_option_cong)
      (drule block_hash_length [OF _ assms], erule tail [unfolded map_option_bind comp_def])
qed

lemma blockchain_mine_block_printing_transparent:
  assumes "digest_ok ssl"
  shows "map_option without_output (blockchain_mine_block_printing e ssl x a pr stop h) =
    blockchain_mine_block e ssl x a stop h"
  using mine_loop_printing_transparent [OF assms, of 0 UINT64_MAX]
  by (simp add: blockchain_mine_block_printing_def blockchain_mine_block_def split: option.split)

text \<open>
  When the loop finds a proof of work, the last line in green is the hash of the block as it is
  left in memory.
\<close>

lemma mine_loop_printing_success:
  assumes "\<And>i. interrupt i \<noteq> Some SUCCESS"
  shows "k + n = UINT64_MAX \<Longrightarrow>
    mine_loop_printing e ssl x a pr interrupt best d (of_nat k) h = Some (SUCCESS, out, h') \<Longrightarrow>
    \<exists>shown d'. out = shown @ result_line pr ANSI_COLOR_GREEN d' \<and>
      block_hash e ssl a True h' = Some (SUCCESS, Some d')"
proof (induction n arbitrary: k best d h out)
  case 0
  then show ?case by (simp add: mine_loop_printing.simps)
next
  case (Suc n)
  have later: "\<exists>shown d'. line @ printed = shown @ result_line pr ANSI_COLOR_GREEN d' \<and>
      block_hash e ssl a True h' = Some (SUCCESS, Some d')"
    if "mine_loop_printing e ssl x a pr interrupt best d (of_nat k + 1) h = Some (SUCCESS, printed, h')"
    for best d h line printed
  proof -
    have "Suc k + n = UINT64_MAX" using Suc.prems(1) by simp
    from Suc.IH [OF this, of best d h printed] that
    obtain shown d' where "printed = shown @ result_line pr ANSI_COLOR_GREEN d'"
      "block_hash e ssl a True h' = Some (SUCCESS, Some d')" by (auto simp: add.commute)
    then show ?thesis by (intro exI [of _ "line @ shown"] exI [of _ d']) simp
  qed
  from Suc.prems(2) assms [of "unat (of_nat k :: u64)"] show ?case
    by (subst (asm) mine_loop_printing.simps)
      (auto split: if_split_asm option.split_asm Option.bind_split_asm prod.split_asm dest: later)
qed

lemma synchronized_printing_transparent:
  assumes "digest_ok ssl"
  shows "map_option without_output
      (synchronized_blockchain_mine_block_printing e ssl lk ul s a pr stop mined current h) =
    synchronized_blockchain_mine_block e ssl lk ul s a stop mined current h"
  using mine_loop_printing_transparent [OF assms, of 0 UINT64_MAX]
  by (auto simp: synchronized_blockchain_mine_block_printing_def synchronized_blockchain_mine_block_def
      map_option_bind comp_def split: option.split intro!: Option.bind_option_cong)

lemma synchronized_printing_success:
  assumes "synchronized_blockchain_mine_block_printing e ssl lk ul s a pr stop mined current h =
    Some (SUCCESS, out, h')"
  shows "\<exists>shown d. out = shown @ result_line pr ANSI_COLOR_GREEN d \<and>
    block_hash e ssl a True h' = Some (SUCCESS, Some d)"
proof -
  let ?int = "\<lambda>stop mined i. if stop i then Some FAILURE_STOPPED_EARLY
    else if mined i \<noteq> current i then Some FAILURE_LONGER_BLOCKCHAIN_DETECTED else None"
  from assms obtain x st mi where run: "mine_loop_printing e ssl x a pr (?int st mi) 0
      (replicate SHA256_DIGEST_LENGTH 0) (of_nat 0) h = Some (SUCCESS, out, h')"
    unfolding synchronized_blockchain_mine_block_printing_def
    by (auto split: option.split_asm if_split_asm Option.bind_split_asm)
  have "?int st mi i \<noteq> Some SUCCESS" for i by simp
  from mine_loop_printing_success [OF this _ run, of UINT64_MAX] show ?thesis by simp
qed

text \<open>
  C18. Printing the progress of mining does not change what is mined, and does not read outside
  the digest: with or without it the call returns the same code and leaves the same memory, or
  both are undefined.  When it succeeds, the output ends with the line that shows the hash of the
  mined block.
\<close>

theorem mining_output_transparent:
  assumes "digest_ok ssl"
  shows "map_option without_output
      (synchronized_blockchain_mine_block_printing e ssl lk ul s a pr stop mined current h) =
    synchronized_blockchain_mine_block e ssl lk ul s a stop mined current h \<and>
    (\<forall>out h'. synchronized_blockchain_mine_block_printing e ssl lk ul s a pr stop mined current h =
        Some (SUCCESS, out, h') \<longrightarrow>
      (\<exists>shown d. out = shown @ result_line pr ANSI_COLOR_GREEN d \<and>
        block_hash e ssl a True h' = Some (SUCCESS, Some d)))"
  by (intro conjI allI impI synchronized_printing_transparent [OF assms] synchronized_printing_success)

theorem mining_output_transparent_witness:
  "\<exists>shown d h'. synchronized_blockchain_mine_block_printing Little example_openssl True True 5 4 True
      (Some (\<lambda>i. False)) (Some (\<lambda>i. 0)) (\<lambda>i. 0)
      ((example_heap 0)\<lparr>store := (store (example_heap 0))(5 \<mapsto>
        DataObj (SyncObj \<lparr>sync_blockchain = 1, version = 0\<rparr>))\<rparr>) =
    Some (SUCCESS, shown @ result_line True ANSI_COLOR_GREEN d, h') \<and>
    block_hash Little example_openssl 4 True h' = Some (SUCCESS, Some d)"
proof -
  let ?h = "(example_heap 0)\<lparr>store := (store (example_heap 0))(5 \<mapsto>
    DataObj (SyncObj \<lparr>sync_blockchain = 1, version = 0\<rparr>))\<rparr>"
  let ?int = "\<lambda>i. None :: return_code_t option"
  let ?c = "\<lparr>cv_blocks = [], cv_zeros = 0\<rparr> :: chain_v"
  let ?mine = "synchronized_blockchain_mine_block_printing Little example_openssl True True 5 4 True
    (Some (\<lambda>i. False)) (Some (\<lambda>i. 0)) (\<lambda>i. 0) ?h"
  have b: "own_block ?h 4 {3, 4} (genesis_v 4)" by (rule own_block_frame [OF example_heap_owns(2)]) auto
  have c: "own_chain ?h 1 {1, 2} ?c" by (rule own_chain_frame [OF example_heap_owns(1)]) auto
  obtain h' where "mine_loop Little example_openssl 1 4 ?int 0 ?h = Some (SUCCESS, h')"
    by (rule mine_loop_step [OF b c _ example_openssl_ok(3), where p = 0 and e = Little and interrupt = ?int])
      (simp_all add: leading_zeros_def)
  then have "synchronized_blockchain_mine_block Little example_openssl True True 5 4
      (Some (\<lambda>i. False)) (Some (\<lambda>i. 0)) (\<lambda>i. 0) ?h = Some (SUCCESS, h')"
    by (simp add: synchronized_blockchain_mine_block_def load_sync_def load_data_def load_obj_def)
  with mining_output_transparent [OF example_openssl_ok(3), of Little True True 5 4 True
      "Some (\<lambda>i. False)" "Some (\<lambda>i. 0)" "\<lambda>i. 0" ?h]
  have "map_option without_output ?mine = Some (SUCCESS, h')" by simp
  then obtain out where "?mine = Some (SUCCESS, out, h')" by auto
  with mining_output_transparent [OF example_openssl_ok(3), of Little True True 5 4 True
      "Some (\<lambda>i. False)" "Some (\<lambda>i. 0)" "\<lambda>i. 0" ?h]
  show ?thesis by blast
qed

end
