(* ===== verification/Spec2Isabelle.thy ===== *)
theory Spec2Isabelle imports Node Consensus_Sequence Peer_Table Propagation Byte_Order Discovery_Exchange Programs Mining_Output begin

text \<open>
  LeoCoin: a verification development of a proof-of-work blockchain node written in C.

  \<^bold>\<open>The program.\<close>  A node keeps a chain of blocks, mines new blocks, verifies chains, and
  exchanges chains and lists of peers with other nodes.  The parts, bottom up, and the theories
  that model them:

  \<^item> machine types and return codes (\<^verbatim>\<open>include/return_codes.h\<close>): \<open>Prelude\<close>;
  \<^item> byte order (\<^verbatim>\<open>src/endian.c\<close>): \<open>Endian\<close>;
  \<^item> the C memory the program uses (allocation, objects, byte buffers): \<open>C_Memory\<close>;
  \<^item> the generic linked list (\<^verbatim>\<open>src/linked_list.c\<close>): \<open>Linked_List\<close>;
  \<^item> the structures of the headers and the ownership of heap objects: \<open>Objects\<close>;
  \<^item> transactions and signatures (\<^verbatim>\<open>src/transaction.c\<close>): \<open>Transaction\<close>;
  \<^item> blocks and their hash (\<^verbatim>\<open>src/block.c\<close>): \<open>Block\<close>;
  \<^item> chains and mining (\<^verbatim>\<open>src/blockchain.c\<close>): \<open>Blockchain\<close>, and the progress output of
    the mining loops: \<open>Mining_Output\<close>;
  \<^item> verification of a chain (\<open>blockchain_verify\<close>): \<open>Blockchain_Verify\<close>;
  \<^item> parsing fields of a buffer, and growing one: \<open>Wire\<close>, \<open>Buffers\<close>;
  \<^item> serialisation, deserialisation and files: \<open>Blockchain_Serialize\<close>,
    \<open>Blockchain_Deserialize\<close>;
  \<^item> peer lists (\<^verbatim>\<open>src/peer_discovery.c\<close>): \<open>Peer_Discovery\<close>;
  \<^item> the network protocol (\<^verbatim>\<open>src/networking.c\<close>): \<open>Networking\<close> has the definitions and the
    registration command, \<open>Networking_Messages\<close> the messages that carry data and the loops
    over a socket;
  \<^item> what the two servers share, receiving a request and the loop that accepts connections:
    \<open>Requests\<close>, and whole runs of a server in \<open>Server_Runs\<close>;
  \<^item> the consensus server (\<^verbatim>\<open>src/consensus_peer_server_thread.c\<close>): \<open>Consensus_Server\<close> has a
    request, \<open>Consensus_Sequence\<close> a run;
  \<^item> the mining thread (\<^verbatim>\<open>src/mining_thread.c\<close>): \<open>Mining_Thread\<close>, and its progress in
    \<open>Mining_Progress\<close>;
  \<^item> a node, which is the interleaving of these two threads: \<open>Node\<close>; two nodes, one of which
    mines what the other takes over: \<open>Propagation\<close>; hosts of different byte order:
    \<open>Byte_Order\<close>;
  \<^item> the bootstrap server (\<^verbatim>\<open>src/peer_discovery_bootstrap_server_thread.c\<close>):
    \<open>Bootstrap_Server\<close> has a request, \<open>Peer_Table\<close> a run;
  \<^item> the peer discovery thread (\<^verbatim>\<open>src/peer_discovery_thread.c\<close>): \<open>Peer_Discovery_Thread\<close>, and
    its exchange with the bootstrap server: \<open>Discovery_Exchange\<close>;
  \<^item> printing a hash, sleeping and base64 (\<^verbatim>\<open>src/hash.c\<close>, \<^verbatim>\<open>src/sleep.c\<close>,
    \<^verbatim>\<open>src/base64.c\<close>): \<open>Utilities\<close>;
  \<^item> the \<open>main\<close> functions (\<^verbatim>\<open>src/miner.c\<close>, \<^verbatim>\<open>src/peer_discovery_bootstrap_server.c\<close>,
    \<^verbatim>\<open>src/peer_discovery_client.c\<close>): \<open>Programs\<close>.

  \<^bold>\<open>How the code is modelled.\<close>  A C function is a HOL function of the same name.  The outer
  \<open>option\<close> of a result is undefined behaviour or non-termination: \<open>None\<close> stands for
  an access outside an object, a use after free, a double free, a NULL dereference, or a loop
  that never ends.  So a theorem that a call equals \<open>Some\<close> of something says that it
  returns and is memory safe.  Inside, a function returns its return code, what it stored
  through its out-parameters (an \<open>option\<close>, \<open>None\<close> if it stored nothing) and the new
  heap.  A boolean argument \<open>out\<close> says whether an out-parameter is not NULL.

  The heap maps addresses to typed objects; objects have the fields of the C structures, and
  pointers are addresses.  \<open>malloc_ok h n\<close> says whether the \<open>n\<close>-th request succeeds; a
  theorem that assumes nothing of it covers every pattern of allocation failures.  Byte buffers that a function
  allocates for itself are values: accesses are bounds-checked, their release leaves no trace,
  and leaks of such buffers are not visible.  Integers have their C width; sizes of the
  structures are those of a 64-bit ABI.  Loops over lists and counted loops whose end depends on
  the heap are partial functions, and their termination is part of the theorems.

  OpenSSL, the clock, the file system, \<open>recv\<close>, \<open>send\<close>, the flags and versions other
  threads write are parameters.  What is assumed of OpenSSL is named: \<open>digest_ok\<close> (a digest has
  32 bytes, its contexts can be allocated), \<open>key_pair\<close> and \<open>openssl_ready\<close>
  (signatures made with a private key verify under its public key); \<open>recv_progress\<close> and
  \<open>send_progress\<close> say that a socket call fails or transfers at least one byte;
  \<open>decode_block_ok\<close> bounds what \<open>EVP_DecodeBlock\<close> writes.

  A thread is a function of what it gets from outside: records such as \<open>connection\<close>,
  \<open>server_env\<close>, \<open>mining_env\<close> and \<open>discover_env\<close> hold the results of the system calls of one
  connection or round.  A node (\<open>node_step\<close>) interleaves requests with the parts of a mining
  round, between which the code works on the shared chain without its mutex: the check of the version, the
  verification, the construction of a block, the search and the appending of the block.  Each part and each
  request is atomic in the model; the search for a proof of work may see a new version at any step.

  \<^bold>\<open>Interfaces.\<close>  \<open>owned\<close> and \<open>owned_free\<close> (theory \<open>Linked_List\<close>): what
  a list needs to know of the data it points to, interpreted for transactions, blocks, peers and
  plain pointers; \<open>wire_codec\<close> (theory \<open>Endian\<close>): conversions between host and
  network order; \<open>wire_parser\<close> (theory \<open>Wire\<close>): a parser that inverts an encoding,
  never leaves its buffer and accepts only encodings, interpreted for integers, transactions,
  blocks, chains, peers and command headers; \<open>counted_loop\<close> (theory \<open>Buffers\<close>): a loop that
  reads a number of elements and builds them on the heap, interpreted for the loops over transactions, blocks and
  peers; \<open>request_handler\<close> (theory \<open>Requests\<close>): a handler
  with an invariant that every request keeps, for which the accept loop is verified once,
  interpreted for both servers; \<open>request_simulation\<close> (theory \<open>Server_Runs\<close>): a handler that refines
  a step of an abstract state, for which a run of the thread refines the sequence of steps, interpreted
  for both servers, with the consensus rule and with the list of peers.  A predicate \<open>own_X h a F v\<close> says that the
  structure at address \<open>a\<close> represents the value \<open>v\<close> and consists of exactly the objects at
  the addresses \<open>F\<close>.

  \<^bold>\<open>What is shown.\<close>
  \<^item> Verification: \<open>blockchain_verify\<close> accepts exactly the chains that satisfy the declarative
    predicate \<open>chain_ok\<close>, names the first invalid block, returns on every chain whose
    parameters are in range, and two valid chains that end in the same hash are equal up to a
    collision of SHA-256.
  \<^item> Mining: the loop always returns and finds the least proof of work unless it is stopped; its progress
    output changes nothing of this, stays inside the digest and shows the best hash so far.
  \<^item> Memory: creation, destruction and every error path of the deserialisers allocate and free
    exactly what they should, with the exceptions proved as such.
  \<^item> Wire: serialisers produce the wire format, the deserialisers invert them on hosts of either
    byte order, and reading arbitrary bytes is safe within stated bounds; outside these bounds the
    reads beyond the buffer are proved.
  \<^item> Consensus: a request refines the rule that the longer valid chain of the same difficulty wins;
    whatever peers send, the shared chain is never replaced by an invalid or shorter one; the server
    can be stopped.  A run of the server ends with the longest of the chains it has seen, and nodes that
    have heard of the same chains, in any order, end with chains of the same length.
  \<^item> Mining thread: it only ever appends valid blocks that mint to the miner, leaks nothing, and
    makes progress when undisturbed.
  \<^item> Node: in every interleaving of the parts of mining rounds and requests the chain stays the initial one
    or a valid and longer one, and the memory stays well typed.  If the server replaces the chain while the miner
    works on it, what the miner does next is undefined behaviour, wherever it is in its round; this is proved as
    such, and the steps of \<open>node_step\<close> on the chain are therefore those of a miner whose chain is
    current.
  \<^item> Propagation: an undisturbed miner produces a chain that every node with a shorter one takes over.
    This needs hosts of one byte order: a chain that is valid on both kinds of host is a collision of
    SHA-256.
  \<^item> Bootstrap server: a registration refines the update of a list of peers (renew or add, drop what
    has expired); over a run the list implements a table from addresses to times of contact, and holds exactly the
    peers heard of within the keepalive time; it stays well formed whatever clients send; a node and the server
    that reach each other end with the same list.
  \<^item> Programs: the miner and the bootstrap server release everything they allocate.
  \<^item> This theory composes serialisation, the protocol and verification: a chain travels whole from
    node to node.

  \<^bold>\<open>Bounds.\<close>  Encodings are below \<open>2^63\<close> bytes, the size of the largest object C allows,
  which keeps the 64-bit sizes of the serialisers from wrapping around; lists of peers of the server
  are below \<open>2^56\<close> entries for the same reason.  \<open>fits_memory\<close> says that fewer objects are alive than
  there are addresses, which bounds the length of a chain by the 64-bit counter.

  \<^bold>\<open>Not modelled.\<close>  The text of progress messages other than those of the mining loops, of a chain and of a
  hash; usage messages; data races inside a part of a mining
  round or inside a request; the reuse of freed addresses; the Windows variants of the socket code; the
  accessors the unit tests mock; the tests.
\<close>

section \<open>From node to node\<close>

text \<open>
  C35. A chain travels whole from one node to another: the sender serialises it and wraps it in
  a command, the receiver unwraps and deserialises it into a chain with the same contents, and
  its verification accepts that chain exactly when the contents are valid on the receiver.
\<close>

theorem chain_reaches_peer:
  assumes "own_chain h a F c" "wire_chain c" "length (enc_chain c) + 24 < 2 ^ 63" "\<forall>n. malloc_ok h n"
    and "heap_ok g" "\<forall>n. malloc_ok g n" "digest_ok ssl"
    and "wf_header hdr" "command hdr = command_code COMMAND_SEND_BLOCKCHAIN"
  shows "\<exists>data len h1 sent buf n h2 received g1 b K g2.
    blockchain_serialize e a True True h = Some (SUCCESS, Some (data, len), h1) \<and>
    command_send_blockchain_serialize e
      (Some \<lparr>blockchain_header = hdr, blockchain_data_len = len, blockchain_data = data\<rparr>) True True h1 =
      Some (SUCCESS, Some sent, Some (buf, n), h2) \<and>
    command_send_blockchain_deserialize e' True (Some buf) n g = Some (SUCCESS, Some received, g1) \<and>
    received = sent \<and>
    blockchain_deserialize e' now True (Some (blockchain_data received)) (blockchain_data_len received) g1 =
      Some (SUCCESS, Some b, g2) \<and>
    own_chain g2 b K c \<and>
    (blockchain_verify e' ssl b True f g2 = Some (SUCCESS, Some True, None) \<longleftrightarrow> chain_ok e' ssl c)"
proof -
  let ?data = "enc_chain c"
  let ?len = "of_nat (length ?data) :: u64"
  let ?hdr = "hdr\<lparr>command_len := 8 + ?len\<rparr>"
  let ?g = "g\<lparr>brk := Suc (brk g)\<rparr>"
  have size: "length ?data < 2 ^ 63" using assms(3) by simp
  from serialize_eq [OF assms(1) wire_chain_wf [OF assms(2)] size, of e] assms(4) obtain h1 where
    s: "same_except {} h h1" "blockchain_serialize e a True True h = Some (SUCCESS, Some (?data, ?len), h1)"
    by auto
  have wf: "wf_send_data COMMAND_SEND_BLOCKCHAIN hdr ?len ?data"
    using assms(8,9) size by (simp add: wf_send_data_def)
  have ok: "\<forall>n. malloc_ok h1 n" "malloc_ok g (brk g)"
    using s(1) assms(4,6) by (simp_all add: same_except_def)
  from send_data_roundtrip [OF wf assms(3) ok, of e e'] obtain buf h2 where
    m: "send_data_serialize COMMAND_SEND_BLOCKCHAIN e hdr ?len ?data h1 =
      Some (SUCCESS, ?hdr, Some (buf, 24 + ?len), h2)"
    "send_data_deserialize COMMAND_SEND_BLOCKCHAIN e' buf (24 + ?len) g =
      Some (SUCCESS, Some (?hdr, ?len, ?data), ?g)" by blast
  from deserialize_enc_chain [OF assms(2) size, of ?g e' now] assms(5,6) obtain b K g2 where
    d: "blockchain_deserialize e' now True (Some ?data) ?len ?g = Some (SUCCESS, Some b, g2)"
    "own_chain g2 b K c" by auto
  have "blockchain_verify e' ssl b True f g2 = Some (SUCCESS, Some True, None) \<longleftrightarrow> chain_ok e' ssl c"
    using verify_valid_iff [OF d(2) wire_chain_wf [OF assms(2)] assms(7), of e' f] by blast
  with s(2) m d show ?thesis
    by (simp add: command_send_blockchain_serialize_def command_send_blockchain_deserialize_def) blast
qed

theorem chain_reaches_peer_witness:
  "\<exists>h a data len h1 sent buf n h2 received g1 b K g2.
    blockchain_serialize Little a True True h = Some (SUCCESS, Some (data, len), h1) \<and>
    command_send_blockchain_serialize Little
      (Some \<lparr>blockchain_header = \<lparr>command_prefix = COMMAND_PREFIX, command = 4, command_len = 0\<rparr>,
             blockchain_data_len = len, blockchain_data = data\<rparr>) True True h1 =
      Some (SUCCESS, Some sent, Some (buf, n), h2) \<and>
    command_send_blockchain_deserialize Little True (Some buf) n empty_heap = Some (SUCCESS, Some received, g1) \<and>
    blockchain_deserialize Little (\<lambda>_. 3) True (Some (blockchain_data received)) (blockchain_data_len received) g1 =
      Some (SUCCESS, Some b, g2) \<and>
    own_chain g2 b K (example_chain [example_block]) \<and>
    blockchain_verify Little example_openssl b True True g2 = Some (SUCCESS, Some True, None)"
proof -
  let ?hdr = "\<lparr>command_prefix = COMMAND_PREFIX, command = 4, command_len = 0\<rparr>"
  obtain h a F where h: "own_chain h a F (example_chain [example_block])" "\<forall>n. malloc_ok h n"
    using chain_representable by blast
  have "length (enc_chain (example_chain [example_block])) + 24 < 2 ^ 63" "\<forall>n. malloc_ok empty_heap n"
    "wf_header ?hdr" "command ?hdr = command_code COMMAND_SEND_BLOCKCHAIN"
    by (simp_all add: example_chain_wire wf_header_def)
  from chain_reaches_peer [OF h(1) example_chain_wire(1) this(1) h(2) empty_heap_simps(1) this(2)
      example_openssl_ok(3) this(3,4), of Little Little "\<lambda>_. 3" True] example_chain_ok
  show ?thesis by blast
qed

end
